(* ===== verification/Prelude.thy ===== *)
theory Prelude
  imports Main "HOL-Library.Word" "HOL-Library.List_Lexorder" "HOL-Library.Char_ord"
begin

text \<open>
  Shared vocabulary of the development.

  \<^item> The machine types of the library: \<open>uint8_t\<close>, \<open>char16_t\<close>, \<open>char32_t\<close>, \<open>uint64_t\<close>.
  \<^item> What a call can end in besides a value: \<open>fault\<close> collects the exception classes of
    \<open>json/exception.h\<close>, \<open>util/exception.h\<close> and the standard library, the undefined behaviours
    the sources can run into (each one a value, never a made-up result), and \<open>Out_of_fuel\<close> for
    the recursive readers, whose fuel is shown to suffice where they are used.
  \<^item> \<open>bind_result\<close> sequences fallible calls the way a C++ exception does.
  \<^item> Pointers into a buffer: the model of \<open>it\<close> is the list of characters (bytes) from \<open>it\<close> to
    the end of the allocation, \<open>deref\<close> is \<open>*it\<close>, and reading at the end of the allocation is
    the fault \<open>Undefined Out_of_bounds\<close>.
  \<^item> The character classes of \<open>cctype\<close> in the C locale, and characters as bytes.
\<close>

unbundle bit_operations_syntax

named_theorems result_simps \<open>unfolding of the error monad and of pointer reads\<close>
named_theorems byte_simps \<open>conversions between characters, bytes and wider words\<close>

section \<open>Machine types\<close>

type_synonym u8 = "8 word"
type_synonym u16 = "16 word"
type_synonym u32 = "32 word"
type_synonym u64 = "64 word"

section \<open>Faults\<close>

datatype undefined_behaviour =
    Out_of_bounds
  | Null_dereference
  | Uninitialized_pointer
  | Conversion_range
  | Division_by_zero
  | Buffer_overflow
  | Pointer_overflow

datatype fault =
    Bad_format_error string
  | Not_allowed_error string
  | Buffer_error string
  | Not_enough_error string
  | Not_found_error string
  | Out_of_range
  | Bad_typeid
  | Assertion_failed
  | Undefined undefined_behaviour
  | Out_of_fuel

type_synonym 'a result = "fault + 'a"

definition bind_result :: "'a result \<Rightarrow> ('a \<Rightarrow> 'b result) \<Rightarrow> 'b result" where
  "bind_result r f = (case r of Inl e \<Rightarrow> Inl e | Inr x \<Rightarrow> f x)"

lemma bind_result_Inl [simp, result_simps]: "bind_result (Inl e) f = Inl e"
  by (simp add: bind_result_def)

lemma bind_result_Inr [simp, result_simps]: "bind_result (Inr x) f = f x"
  by (simp add: bind_result_def)

lemma bind_result_cong [fundef_cong]:
  "r = r' \<Longrightarrow> (\<And>x. r' = Inr x \<Longrightarrow> f x = f' x) \<Longrightarrow> bind_result r f = bind_result r' f'"
  by (simp add: bind_result_def split: sum.splits)

lemma bind_result_eq_Inr:
  "bind_result r f = Inr y \<longleftrightarrow> (\<exists>x. r = Inr x \<and> f x = Inr y)"
  by (cases r) auto

lemma bind_result_eq_Inl:
  "bind_result r f = Inl e \<longleftrightarrow> r = Inl e \<or> (\<exists>x. r = Inr x \<and> f x = Inl e)"
  by (cases r) auto

lemma bind_result_assoc:
  "bind_result (bind_result r f) g = bind_result r (\<lambda>x. bind_result (f x) g)"
  by (cases r) auto

lemma bind_result_return [simp, result_simps]: "bind_result r Inr = r"
  by (cases r) auto

section \<open>Reading through a pointer\<close>

definition deref :: "'a list \<Rightarrow> 'a result" where
  "deref it = (case it of [] \<Rightarrow> Inl (Undefined Out_of_bounds) | x # _ \<Rightarrow> Inr x)"

lemma deref_Cons [simp, result_simps]: "deref (x # xs) = Inr x"
  by (simp add: deref_def)

lemma deref_Nil [simp, result_simps]: "deref [] = Inl (Undefined Out_of_bounds)"
  by (simp add: deref_def)

lemma deref_eq_Inr: "deref it = Inr x \<longleftrightarrow> (\<exists>xs. it = x # xs)"
  by (cases it) auto

section \<open>Characters and bytes\<close>

definition u8_of_char :: "char \<Rightarrow> u8" where
  "u8_of_char c = of_nat (of_char c)"

definition char_of_u8 :: "u8 \<Rightarrow> char" where
  "char_of_u8 w = char_of (unat w)"

lemma unat_u8_of_char: "unat (u8_of_char c) = of_char c"
proof -
  have "u8_of_char c = of_nat (of_char c)"
    by (simp add: u8_of_char_def)
  moreover have "(of_char c :: nat) < 256"
    by (rule nat_of_char_less_256)
  ultimately show ?thesis
    by (simp add: unat_of_nat)
qed

lemma char_of_u8_of_char [simp, byte_simps]: "char_of_u8 (u8_of_char c) = c"
  by (simp add: char_of_u8_def unat_u8_of_char)

lemma u8_of_char_of_u8 [simp, byte_simps]: "u8_of_char (char_of_u8 w) = w"
proof -
  have "unat w < 256"
    using unsigned_less [of w] by simp
  then have "unat (u8_of_char (char_of_u8 w)) = unat w"
    by (simp add: unat_u8_of_char char_of_u8_def)
  then show ?thesis by (rule unsigned_word_eqI)
qed

lemma map_char_of_u8_of_char [simp]: "map (\<lambda>x. char_of_u8 (u8_of_char x)) cs = cs"
  by simp

subsection \<open>Small words have no high bits\<close>

lemma high_bit_zero:
  assumes "unat w < 2 ^ n" and "n \<le> k"
  shows "\<not> bit (w :: 'a::len word) k"
proof
  assume "bit w k"
  then have "bit (unat w) k"
    by (simp add: bit_unsigned_iff bit_imp_le_length)
  then have "2 ^ k \<le> unat w"
    by (auto simp: bit_iff_odd intro: ccontr)
  moreover have "(2::nat) ^ n \<le> 2 ^ k"
    using assms(2) by simp
  ultimately show False
    using assms(1) by simp
qed

lemma low_bit: "bit (w :: 'a::len word) k \<Longrightarrow> unat w < 2 ^ n \<Longrightarrow> k < n"
  using high_bit_zero [of w n k] by force

subsection \<open>cctype in the C locale\<close>

definition isspace :: "char \<Rightarrow> bool" where
  "isspace c \<longleftrightarrow> c \<in> {CHR '' '', CHR 0x09, CHR 0x0A, CHR 0x0B, CHR 0x0C, CHR 0x0D}"

definition isdigit :: "char \<Rightarrow> bool" where
  "isdigit c \<longleftrightarrow> c \<in> set ''0123456789''"

definition isxdigit :: "char \<Rightarrow> bool" where
  "isxdigit c \<longleftrightarrow> c \<in> set ''0123456789abcdefABCDEF''"

text \<open>The value of one digit, as \<open>strtol\<close> and \<open>strtoll\<close> read it.\<close>

definition digit_value :: "char \<Rightarrow> nat" where
  "digit_value c =
     (let n = of_char c in
      if n \<ge> 97 then n - 87 else if n \<ge> 65 then n - 55 else n - 48)"

text \<open>The character of a digit below 16, as \<open>%X\<close> and \<open>%d\<close> print it.\<close>

definition digit_char :: "nat \<Rightarrow> char" where
  "digit_char n = char_of (if n < 10 then 48 + n else 55 + n)"

definition hex_value :: "string \<Rightarrow> nat" where
  "hex_value cs = foldl (\<lambda>n c. 16 * n + digit_value c) 0 cs"

end
