(* ===== verification/Utf.thy ===== *)
theory Utf
  imports Prelude
begin

text \<open>
  \<open>include/shan/unicode/utf.h\<close>: surrogates, and the conversions between UTF-32, UTF-16 and
  UTF-8. \<open>char16_t\<close> is a 16-bit word, \<open>char32_t\<close> a 32-bit word, \<open>std::string\<close> a list of
  characters and \<open>std::u16string\<close> a list of 16-bit words. \<open>utf8_to_utf32\<close> reads through a
  \<open>const char*\<close>, so it takes the characters from the pointer to the end of the allocation and
  returns the code point together with \<open>*used\<close>.
\<close>

definition is_lead_surrogate :: "u16 \<Rightarrow> bool" where
  "is_lead_surrogate utf16 \<longleftrightarrow> utf16 AND 0xFC00 = 0xD800"

definition is_trail_surrogate :: "u16 \<Rightarrow> bool" where
  "is_trail_surrogate utf16 \<longleftrightarrow> utf16 AND 0xFC00 = 0xDC00"

definition surrogate_pair_to_utf32 :: "u16 \<Rightarrow> u16 \<Rightarrow> u32" where
  "surrogate_pair_to_utf32 lead trail =
     (push_bit 10 (ucast (lead AND 0x03FF)) + ucast (trail AND 0x03FF)) + 0x00010000"

definition utf32_to_utf16 :: "u32 \<Rightarrow> u16 list" where
  "utf32_to_utf16 utf32 =
     (if utf32 \<le> 0xffff then [ucast utf32]
      else [ucast (0xD800 OR drop_bit 10 (utf32 - 0x10000)), ucast (0xDC00 OR (utf32 AND 0x3FF))])"

text \<open>\<open>static_cast<char>\<close> of a \<open>char32_t\<close> keeps the low byte.\<close>

definition cast_char :: "u32 \<Rightarrow> char" where
  "cast_char w = char_of_u8 (ucast w)"

definition utf32_to_utf8 :: "u32 \<Rightarrow> string" where
  "utf32_to_utf8 utfnn =
     (if utfnn < 0x80 then [cast_char utfnn]
      else if utfnn < 0x800 then
        [cast_char (drop_bit 6 utfnn OR 0xc0), cast_char ((utfnn AND 0x3f) OR 0x80)]
      else if utfnn < 0x10000 then
        [cast_char (drop_bit 12 utfnn OR 0xe0),
         cast_char ((drop_bit 6 utfnn AND 0x3f) OR 0x80),
         cast_char ((utfnn AND 0x3f) OR 0x80)]
      else if utfnn < 0x200000 then
        [cast_char (drop_bit 18 utfnn OR 0xf0),
         cast_char ((drop_bit 12 utfnn AND 0x3f) OR 0x80),
         cast_char ((drop_bit 6 utfnn AND 0x3f) OR 0x80),
         cast_char ((utfnn AND 0x3f) OR 0x80)]
      else [])"

definition utf16_to_utf8 :: "u16 \<Rightarrow> string" where
  "utf16_to_utf8 utfnn = utf32_to_utf8 (ucast utfnn)"

text \<open>\<open>utf8[i] & 0xff\<close>: one read through the pointer.\<close>

definition utf8_at :: "string \<Rightarrow> nat \<Rightarrow> u32 result" where
  "utf8_at utf8 i = bind_result (deref (drop i utf8)) (\<lambda>c. Inr (ucast (u8_of_char c)))"

definition utf8_to_utf32 :: "string \<Rightarrow> (u32 \<times> nat) result" where
  "utf8_to_utf32 utf8 =
     bind_result (utf8_at utf8 0) (\<lambda>first_byte.
       if first_byte \<le> 0x7f then Inr (first_byte AND 0x7f, 1)
       else if first_byte \<le> 0xdf then
         bind_result (utf8_at utf8 1) (\<lambda>b1.
           Inr (push_bit 6 (first_byte AND 0x1f) OR (b1 AND 0x3f), 2))
       else if first_byte \<le> 0xef then
         bind_result (utf8_at utf8 1) (\<lambda>b1.
         bind_result (utf8_at utf8 2) (\<lambda>b2.
           Inr (push_bit 6 (push_bit 6 (first_byte AND 0x0f) OR (b1 AND 0x3f)) OR (b2 AND 0x3f), 3)))
       else if first_byte \<le> 0xf7 then
         bind_result (utf8_at utf8 1) (\<lambda>b1.
         bind_result (utf8_at utf8 2) (\<lambda>b2.
         bind_result (utf8_at utf8 3) (\<lambda>b3.
           Inr (push_bit 6 (push_bit 6 (push_bit 6 (first_byte AND 0x07) OR (b1 AND 0x3f))
                  OR (b2 AND 0x3f)) OR (b3 AND 0x3f), 4))))
       else Inr (0, 0))"

definition utf8_to_utf16 :: "string \<Rightarrow> (u16 list \<times> nat) result" where
  "utf8_to_utf16 utf8 =
     bind_result (utf8_to_utf32 utf8) (\<lambda>(utf32, used). Inr (utf32_to_utf16 utf32, used))"

section \<open>UTF-8\<close>

lemma six_bit_masks:
  "(0x3f :: 'a::len word) = mask 6" "(0x1f :: 'a::len word) = mask 5" "(0x0f :: 'a::len word) = mask 4"
  "(0x07 :: 'a::len word) = mask 3" "(0x7f :: 'a::len word) = mask 7"
  "(0x80 :: 'a::len word) = push_bit 7 (mask 1)" "(0xc0 :: 'a::len word) = push_bit 6 (mask 2)"
  "(0xe0 :: 'a::len word) = push_bit 5 (mask 3)" "(0xf0 :: 'a::len word) = push_bit 4 (mask 4)"
  by (simp_all add: mask_eq_exp_minus_1 push_bit_eq_mult)

lemma utf8_at_simps [simp]:
  "utf8_at (c # cs) 0 = Inr (ucast (u8_of_char c))"
  "utf8_at (c # cs) (Suc n) = utf8_at cs n"
  "utf8_at [] n = Inl (Undefined Out_of_bounds)"
  by (simp_all add: utf8_at_def)

lemma utf8_at_numeral [simp]:
  "utf8_at (c # cs) (numeral k) = utf8_at cs (pred_numeral k)"
  by (simp add: numeral_eq_Suc)

lemma u8_of_cast_char [simp]: "u8_of_char (cast_char w) = ucast w"
  by (simp add: cast_char_def)

lemma utf32_to_utf8_length:
  "length (utf32_to_utf8 cp) =
     (if cp < 0x80 then 1 else if cp < 0x800 then 2 else if cp < 0x10000 then 3
      else if cp < 0x200000 then 4 else 0)"
  by (simp add: utf32_to_utf8_def)

text \<open>The value of a lead byte: marker bits above a payload that stays below them.\<close>

lemma or_marker:
  assumes "unat v < 2 ^ n"
  shows "v OR push_bit n q = v + (push_bit n q :: u32)"
proof -
  have "v AND push_bit n q = 0"
    by (rule bit_word_eqI) (auto simp: bit_simps dest: low_bit [OF _ assms])
  then show ?thesis
    by (simp add: disjunctive_add_eq_or)
qed

lemma lead_markers:
  "unat v < 32 \<Longrightarrow> v OR 0xc0 = v + (0xc0 :: u32)"
  "unat v < 16 \<Longrightarrow> v OR 0xe0 = v + (0xe0 :: u32)"
  "unat v < 8 \<Longrightarrow> v OR 0xf0 = v + (0xf0 :: u32)"
  using or_marker [of v 5 6] or_marker [of v 4 14] or_marker [of v 3 30]
  by (simp_all add: push_bit_eq_mult)

lemma trunc_small: "unat w < 256 \<Longrightarrow> ucast (ucast w :: u8) = (w :: u32)"
  by (rule bit_word_eqI) (auto simp: bit_simps dest: low_bit [where n = 8])

lemma unat_drop_bit_u32: "unat (drop_bit n (w :: u32)) = unat w div 2 ^ n"
  by (simp add: unat_drop_bit_eq drop_bit_eq_div [where 'a = nat])

lemma unat_lead_2: "cp < 0x800 \<Longrightarrow> unat (drop_bit 6 cp OR 0xc0 :: u32) = unat cp div 64 + 192"
  by (simp add: lead_markers unat_drop_bit_u32 word_less_nat_alt less_mult_imp_div_less unat_word_ariths)

lemma unat_lead_3: "cp < 0x10000 \<Longrightarrow> unat (drop_bit 12 cp OR 0xe0 :: u32) = unat cp div 4096 + 224"
  by (simp add: lead_markers unat_drop_bit_u32 word_less_nat_alt less_mult_imp_div_less unat_word_ariths)

lemma unat_lead_4: "cp < 0x200000 \<Longrightarrow> unat (drop_bit 18 cp OR 0xf0 :: u32) = unat cp div 262144 + 240"
  by (simp add: lead_markers unat_drop_bit_u32 word_less_nat_alt less_mult_imp_div_less unat_word_ariths)

text \<open>Masking off the marker of a byte recovers its payload.\<close>

lemma low_byte_mask:
  "k \<le> 8 \<Longrightarrow> ucast (ucast w :: u8) AND mask k = w AND (mask k :: u32)"
  by (rule bit_word_eqI) (auto simp: bit_simps)

lemma payload:
  "ucast (ucast (w OR 0xc0) :: u8) AND 0x1f = w AND (0x1f :: u32)"
  "ucast (ucast (w OR 0xe0) :: u8) AND 0x0f = w AND (0x0f :: u32)"
  "ucast (ucast (w OR 0xf0) :: u8) AND 0x07 = w AND (0x07 :: u32)"
  "ucast (ucast (w AND 0x3f OR 0x80) :: u8) AND 0x3f = w AND (0x3f :: u32)"
  using low_byte_mask [of 5 "w OR 0xc0"] low_byte_mask [of 4 "w OR 0xe0"]
    low_byte_mask [of 3 "w OR 0xf0"] low_byte_mask [of 6 "w AND 0x3f OR 0x80"]
  by (simp_all add: mask_numeral bit.conj_disj_distrib2 and.assoc)

lemma join_six:
  "push_bit 6 (drop_bit (n + 6) w) OR (drop_bit n w AND 0x3f) = drop_bit n (w :: u32)"
  unfolding six_bit_masks by (rule bit_word_eqI) (auto simp: bit_simps)

lemmas join_sixes = join_six [of 12, simplified] join_six [of 6, simplified] join_six [of 0, simplified]

lemma mask_small: "unat w < 2 ^ n \<Longrightarrow> w AND mask n = (w :: u32)"
  by (rule bit_word_eqI) (auto simp: bit_simps dest: low_bit)

lemma lead_payload:
  "cp < 0x800 \<Longrightarrow> drop_bit 6 cp AND 0x1f = (drop_bit 6 cp :: u32)"
  "cp < 0x10000 \<Longrightarrow> drop_bit 12 cp AND 0x0f = (drop_bit 12 cp :: u32)"
  "cp < 0x200000 \<Longrightarrow> drop_bit 18 cp AND 0x07 = (drop_bit 18 cp :: u32)"
  "cp < 0x80 \<Longrightarrow> cp AND 0x7f = (cp :: u32)"
  unfolding six_bit_masks
  by (rule mask_small; simp add: unat_drop_bit_u32 word_less_nat_alt less_mult_imp_div_less)+

lemma lead_range_2:
  fixes cp :: u32
  assumes "\<not> cp < 0x80" and "cp < 0x800"
  shows "\<not> ucast (ucast (drop_bit 6 cp OR 0xc0) :: u8) \<le> (0x7f :: u32)"
    and "ucast (ucast (drop_bit 6 cp OR 0xc0) :: u8) \<le> (0xdf :: u32)"
  using assms by (auto simp: word_le_nat_alt word_less_nat_alt trunc_small unat_lead_2)

lemma lead_range_3:
  fixes cp :: u32
  assumes "\<not> cp < 0x800" and "cp < 0x10000"
  shows "\<not> ucast (ucast (drop_bit 12 cp OR 0xe0) :: u8) \<le> (0xdf :: u32)"
    and "ucast (ucast (drop_bit 12 cp OR 0xe0) :: u8) \<le> (0xef :: u32)"
  using assms by (auto simp: word_le_nat_alt word_less_nat_alt trunc_small unat_lead_3)

lemma lead_range_4:
  fixes cp :: u32
  assumes "\<not> cp < 0x10000" and "cp < 0x200000"
  shows "\<not> ucast (ucast (drop_bit 18 cp OR 0xf0) :: u8) \<le> (0xef :: u32)"
    and "ucast (ucast (drop_bit 18 cp OR 0xf0) :: u8) \<le> (0xf7 :: u32)"
  using assms by (auto simp: word_le_nat_alt word_less_nat_alt trunc_small unat_lead_4)

lemma decode_2:
  assumes "\<not> ucast (u8_of_char c0) \<le> (0x7f :: u32)" and "ucast (u8_of_char c0) \<le> (0xdf :: u32)"
  shows "utf8_to_utf32 (c0 # c1 # cs) =
    Inr (push_bit 6 (ucast (u8_of_char c0) AND 0x1f) OR (ucast (u8_of_char c1) AND 0x3f), 2)"
  using assms by (simp add: utf8_to_utf32_def)

lemma decode_3:
  assumes "\<not> ucast (u8_of_char c0) \<le> (0xdf :: u32)" and "ucast (u8_of_char c0) \<le> (0xef :: u32)"
  shows "utf8_to_utf32 (c0 # c1 # c2 # cs) =
    Inr (push_bit 6 (push_bit 6 (ucast (u8_of_char c0) AND 0x0f) OR (ucast (u8_of_char c1) AND 0x3f))
      OR (ucast (u8_of_char c2) AND 0x3f), 3)"
  using assms by (auto simp: utf8_to_utf32_def word_le_nat_alt)

lemma decode_4:
  assumes "\<not> ucast (u8_of_char c0) \<le> (0xef :: u32)" and "ucast (u8_of_char c0) \<le> (0xf7 :: u32)"
  shows "utf8_to_utf32 (c0 # c1 # c2 # c3 # cs) =
    Inr (push_bit 6 (push_bit 6 (push_bit 6 (ucast (u8_of_char c0) AND 0x07)
      OR (ucast (u8_of_char c1) AND 0x3f)) OR (ucast (u8_of_char c2) AND 0x3f))
      OR (ucast (u8_of_char c3) AND 0x3f), 4)"
  using assms by (auto simp: utf8_to_utf32_def word_le_nat_alt)

lemma utf8_to_utf32_encoded:
  assumes "cp < 0x200000"
  shows "utf8_to_utf32 (utf32_to_utf8 cp @ rest) = Inr (cp, length (utf32_to_utf8 cp))"
proof -
  note joins = u8_of_cast_char payload lead_payload join_sixes
  consider "cp < 0x80" | "\<not> cp < 0x80" "cp < 0x800" | "\<not> cp < 0x800" "cp < 0x10000"
    | "\<not> cp < 0x10000" "cp < 0x200000"
    using assms by blast
  then show ?thesis
  proof cases
    case 1
    then show ?thesis
      by (simp add: utf8_to_utf32_def utf32_to_utf8_def trunc_small word_less_nat_alt
          word_le_nat_alt lead_payload)
  next
    case 2
    then have "utf8_to_utf32 (utf32_to_utf8 cp @ rest) = Inr (cp, 2)"
      by (simp only: utf32_to_utf8_def if_True if_False append_Cons append_Nil)
        (simp only: decode_2 lead_range_2 joins not_False_eq_True)
    with 2 show ?thesis
      by (simp add: utf32_to_utf8_length)
  next
    case 3
    then have "\<not> cp < 0x80"
      by (auto simp: word_less_nat_alt)
    with 3 have "utf8_to_utf32 (utf32_to_utf8 cp @ rest) = Inr (cp, 3)"
      by (simp only: utf32_to_utf8_def if_True if_False append_Cons append_Nil)
        (simp only: decode_3 lead_range_3 joins not_False_eq_True)
    with 3 \<open>\<not> cp < 0x80\<close> show ?thesis
      by (simp add: utf32_to_utf8_length)
  next
    case 4
    then have small: "\<not> cp < 0x80" "\<not> cp < 0x800"
      by (auto simp: word_less_nat_alt)
    with 4 have "utf8_to_utf32 (utf32_to_utf8 cp @ rest) = Inr (cp, 4)"
      by (simp only: utf32_to_utf8_def if_True if_False append_Cons append_Nil)
        (simp only: decode_4 lead_range_4 joins not_False_eq_True)
    with 4 small show ?thesis
      by (simp add: utf32_to_utf8_length)
  qed
qed

section \<open>Surrogate pairs\<close>

lemma surrogate_masks:
  "(0x3FF :: 'a::len word) = mask 10" "(0xFC00 :: 'a::len word) = push_bit 10 (mask 6)"
  by (simp_all add: mask_eq_exp_minus_1 push_bit_eq_mult)

text \<open>Both halves are a marker above ten payload bits.\<close>

lemma ten_bit_half:
  fixes x :: u32
  assumes "unat x < 1024"
  shows "(ucast (0xD800 OR x) :: u16) AND 0xFC00 = 0xD800"
    and "(ucast (0xDC00 OR x) :: u16) AND 0xFC00 = 0xDC00"
    and "ucast ((ucast (0xD800 OR x) :: u16) AND 0x3FF) = x"
    and "ucast ((ucast (0xDC00 OR x) :: u16) AND 0x3FF) = x"
proof -
  have high: "(ucast x :: u16) AND 0xFC00 = 0"
    unfolding surrogate_masks
    by (rule bit_word_eqI) (use assms in \<open>auto simp: bit_simps dest: low_bit [where n = 10]\<close>)
  have low: "(ucast x :: u16) AND 0x3FF = ucast x"
    unfolding surrogate_masks
    by (rule bit_word_eqI) (use assms in \<open>auto simp: bit_simps dest: low_bit [where n = 10]\<close>)
  have widen: "ucast (ucast x :: u16) = x"
    by (rule bit_word_eqI) (use assms in \<open>auto simp: bit_simps dest: low_bit [where n = 10]\<close>)
  show "(ucast (0xD800 OR x) :: u16) AND 0xFC00 = 0xD800"
    "(ucast (0xDC00 OR x) :: u16) AND 0xFC00 = 0xDC00"
    by (simp_all add: unsigned_or_eq bit.conj_disj_distrib2 high)
  show "ucast ((ucast (0xD800 OR x) :: u16) AND 0x3FF) = x"
    "ucast ((ucast (0xDC00 OR x) :: u16) AND 0x3FF) = x"
    by (simp_all add: unsigned_or_eq bit.conj_disj_distrib2 low widen)
qed

lemma utf32_to_utf16_pair:
  assumes "0x10000 \<le> cp" and "cp \<le> 0x10FFFF"
  shows "\<exists>lead trail. utf32_to_utf16 cp = [lead, trail] \<and> is_lead_surrogate lead
    \<and> is_trail_surrogate trail \<and> surrogate_pair_to_utf32 lead trail = cp"
proof -
  let ?x = "drop_bit 10 (cp - 0x10000)" and ?y = "cp AND 0x3FF"
  have range: "65536 \<le> unat cp" "unat cp \<le> 0x10FFFF"
    using assms by (simp_all add: word_le_nat_alt)
  have x: "unat ?x = (unat cp - 65536) div 1024"
    using assms by (simp add: unat_drop_bit_u32 unat_sub)
  have y: "unat ?y = unat cp mod 1024"
    unfolding surrogate_masks by (simp add: take_bit_eq_mask [symmetric] take_bit_eq_mod unat_mod_distrib)
  have small: "unat ?x < 1024" "unat ?y < 1024"
    using range by (simp_all add: x y)
  obtain k where k: "unat cp = k + 65536"
    using range(1) by (metis add.commute le_Suc_ex)
  have "(k + 65536) mod 1024 = k mod 1024"
    using mod_mult_self2 [of k 1024 64] by simp
  moreover have "k < 0x100000"
    using range(2) k by simp
  moreover have "k div 1024 * 1024 + k mod 1024 = k"
    by simp
  ultimately have "unat (push_bit 10 ?x + ?y + 0x10000) = unat cp"
    by (simp add: unat_word_ariths push_bit_eq_mult x y k)
  then have "push_bit 10 ?x + ?y + 0x10000 = cp"
    by (rule unsigned_word_eqI)
  moreover have "\<not> cp \<le> 0xffff"
    using range by (simp add: word_le_nat_alt)
  ultimately show ?thesis
    using ten_bit_half [OF small(1)] ten_bit_half [OF small(2)]
    by (simp add: utf32_to_utf16_def is_lead_surrogate_def is_trail_surrogate_def
        surrogate_pair_to_utf32_def)
qed

section \<open>Properties\<close>

text \<open>C40: UTF-8 round trip. Every code point below \<open>0x200000\<close> is encoded in one to four bytes, and
  decoding those bytes gives it back and reports exactly their number as used, whatever follows.\<close>

theorem utf8_roundtrip:
  assumes "cp < 0x200000"
  shows "utf8_to_utf32 (utf32_to_utf8 cp @ rest) = Inr (cp, length (utf32_to_utf8 cp)) \<and>
    length (utf32_to_utf8 cp) \<in> {1..4}"
  using utf8_to_utf32_encoded [OF assms] assms by (simp add: utf32_to_utf8_length)

theorem utf8_roundtrip_witness:
  "utf8_to_utf32 (utf32_to_utf8 0x1F600 @ ''!'') = Inr (0x1F600, length (utf32_to_utf8 0x1F600)) \<and>
    length (utf32_to_utf8 0x1F600) \<in> {1..4}"
  by (rule utf8_roundtrip) simp

text \<open>UTF-16 round trip. A code point of a supplementary plane becomes a lead and a trail
  surrogate, and the pair is the code point again; one of the basic plane is a single unit.\<close>

theorem utf16_roundtrip:
  assumes "cp \<le> 0x10FFFF"
  shows "(cp \<le> 0xffff \<and> utf32_to_utf16 cp = [ucast cp]) \<or>
    (\<exists>lead trail. utf32_to_utf16 cp = [lead, trail] \<and> is_lead_surrogate lead \<and> is_trail_surrogate trail \<and>
      surrogate_pair_to_utf32 lead trail = cp)"
proof (cases "cp \<le> 0xffff")
  case False
  then have "0x10000 \<le> cp" by (simp add: word_le_nat_alt)
  then show ?thesis using utf32_to_utf16_pair [OF _ assms] by blast
qed (simp add: utf32_to_utf16_def)

theorem utf16_roundtrip_witness:
  "\<exists>lead trail. utf32_to_utf16 0x1F600 = [lead, trail] \<and> is_lead_surrogate lead \<and> is_trail_surrogate trail \<and>
      surrogate_pair_to_utf32 lead trail = 0x1F600"
  using utf16_roundtrip [of "0x1F600"] by simp

end
