(* ===== verification/Istream.thy ===== *)
theory Istream
  imports Prelude
begin

text \<open>
  \<open>std::istream\<close> as the parsers use it: \<open>get\<close>, \<open>unget\<close> and \<open>peek\<close>. The state is the
  characters already extracted (most recent first), the characters still to come, and the
  \<open>eofbit\<close> and \<open>failbit\<close> flags (\<open>failbit\<close> stands for \<open>failbit\<close> and \<open>badbit\<close>, which
  the callers do not tell apart). An \<open>int_type\<close> is \<open>None\<close> for \<open>traits_type::eof()\<close> and
  \<open>Some c\<close> for a character; the functions of \<open>cctype\<close> are false on end of file.
\<close>

record istream =
  consumed :: string
  upcoming :: string
  eofbit :: bool
  failbit :: bool

definition istream_of :: "string \<Rightarrow> istream" where
  "istream_of cs = \<lparr>consumed = [], upcoming = cs, eofbit = False, failbit = False\<rparr>"

definition good :: "istream \<Rightarrow> bool" where
  "good s \<longleftrightarrow> \<not> eofbit s \<and> \<not> failbit s"

definition get :: "istream \<Rightarrow> char option \<times> istream" where
  "get s =
     (if \<not> good s then (None, s\<lparr>failbit := True\<rparr>)
      else case upcoming s of
        [] \<Rightarrow> (None, s\<lparr>eofbit := True, failbit := True\<rparr>)
      | c # cs \<Rightarrow> (Some c, s\<lparr>consumed := c # consumed s, upcoming := cs\<rparr>))"

definition unget :: "istream \<Rightarrow> istream" where
  "unget s =
     (if failbit s then s\<lparr>eofbit := False\<rparr>
      else case consumed s of
        [] \<Rightarrow> s\<lparr>eofbit := False, failbit := True\<rparr>
      | c # cs \<Rightarrow> s\<lparr>eofbit := False, consumed := cs, upcoming := c # upcoming s\<rparr>)"

definition peek :: "istream \<Rightarrow> char option \<times> istream" where
  "peek s =
     (if \<not> good s then (None, s\<lparr>failbit := True\<rparr>)
      else case upcoming s of
        [] \<Rightarrow> (None, s\<lparr>eofbit := True\<rparr>)
      | c # cs \<Rightarrow> (Some c, s))"

definition isspace_ch :: "char option \<Rightarrow> bool" where
  "isspace_ch ch = (case ch of None \<Rightarrow> False | Some c \<Rightarrow> isspace c)"

definition isdigit_ch :: "char option \<Rightarrow> bool" where
  "isdigit_ch ch = (case ch of None \<Rightarrow> False | Some c \<Rightarrow> isdigit c)"

definition isxdigit_ch :: "char option \<Rightarrow> bool" where
  "isxdigit_ch ch = (case ch of None \<Rightarrow> False | Some c \<Rightarrow> isxdigit c)"

lemma ch_class_simps [simp]:
  "isspace_ch None = False" "isspace_ch (Some c) = isspace c"
  "isdigit_ch None = False" "isdigit_ch (Some c) = isdigit c"
  "isxdigit_ch None = False" "isxdigit_ch (Some c) = isxdigit c"
  by (simp_all add: isspace_ch_def isdigit_ch_def isxdigit_ch_def)

section \<open>A stream in good standing\<close>

text \<open>\<open>stream_at p r\<close> has extracted \<open>p\<close> (most recent first) and has \<open>r\<close> to come.\<close>

definition stream_at :: "string \<Rightarrow> string \<Rightarrow> istream" where
  "stream_at p r = \<lparr>consumed = p, upcoming = r, eofbit = False, failbit = False\<rparr>"

definition stream_end :: "string \<Rightarrow> istream" where
  "stream_end p = \<lparr>consumed = p, upcoming = [], eofbit = True, failbit = True\<rparr>"

lemma istream_of_stream_at: "istream_of cs = stream_at [] cs"
  by (simp add: istream_of_def stream_at_def)

lemma get_stream_at [simp]:
  "get (stream_at p (c # r)) = (Some c, stream_at (c # p) r)"
  "get (stream_at p []) = (None, stream_end p)"
  by (simp_all add: get_def stream_at_def stream_end_def good_def)

lemma unget_stream_at [simp]: "unget (stream_at (c # p) r) = stream_at p (c # r)"
  by (simp add: unget_def stream_at_def)

lemma peek_stream_at [simp]: "peek (stream_at p (c # r)) = (Some c, stream_at p (c # r))"
  by (simp add: peek_def stream_at_def good_def)

text \<open>
  The number of characters a stream can still deliver: \<open>get\<close> takes one away and \<open>unget\<close> of
  the character just read gives it back. The loops over a stream end because of it.
\<close>

definition remaining :: "istream \<Rightarrow> nat" where
  "remaining s = (if good s then length (upcoming s) else 0)"

lemma remaining_get: "get s = (Some c, s') \<Longrightarrow> remaining s = Suc (remaining s')"
  by (auto simp: get_def remaining_def good_def split: if_splits list.splits)

lemma remaining_get_eof: "get s = (None, s') \<Longrightarrow> remaining s' = 0"
  by (auto simp: get_def remaining_def good_def split: if_splits list.splits)

lemma remaining_get_le: "get s = (ch, s') \<Longrightarrow> remaining s' \<le> remaining s"
  by (cases ch) (auto dest: remaining_get remaining_get_eof)

lemma get_SomeD: "get s = (Some c, s') \<Longrightarrow> 0 < remaining s"
  by (auto dest: remaining_get)

lemma remaining_peek: "peek s = (ch, s') \<Longrightarrow> s' = s \<or> remaining s' = 0 \<and> consumed s' = consumed s \<and> upcoming s' = upcoming s"
  by (auto simp: peek_def remaining_def good_def split: if_splits list.splits)

end
