(* ===== verification/Json_Base.thy ===== *)
theory Json_Base
  imports Istream
begin

text \<open>
  What the JSON classes of \<open>src/include/shan/json/\<close> share: the two \<open>__skip_sp\<close> helpers of
  \<open>value.h\<close>, the \<open>INVALID_FORMAT\<close> exits that end every \<open>parse\<close> function (one text in the
  sources, repeated in each class), and the \<open>*(++it)\<close> idiom of the \<open>unpack\<close> functions.

  A \<open>const char*\<close> is the list of characters from the pointer to the end of the allocation, the
  terminating NUL included; \<open>cctype\<close> calls on a negative \<open>char\<close> are taken as false.
\<close>

section \<open>Error exits\<close>

definition unexpected_end :: fault where
  "unexpected_end = Bad_format_error ''Invalid JSON format: unexpected end.''"

definition unexpected_char :: "char \<Rightarrow> fault" where
  "unexpected_char c = Bad_format_error (''Invalid JSON format: '' @ [CHR 0x27, c, CHR 0x27])"

definition invalid_format :: "string \<Rightarrow> 'a result" where
  "invalid_format it =
     bind_result (deref it) (\<lambda>c. Inl (if c \<noteq> CHR 0x00 then unexpected_char c else unexpected_end))"

definition invalid_format_stream :: "char option \<Rightarrow> 'a result" where
  "invalid_format_stream ch =
     Inl (case ch of None \<Rightarrow> unexpected_end | Some c \<Rightarrow> unexpected_char c)"

definition invalid_messagepack :: fault where
  "invalid_messagepack = Bad_format_error ''Invalid MessagePack format.''"

lemma invalid_format_simps [simp]:
  "invalid_format (c # it) = Inl (if c \<noteq> CHR 0x00 then unexpected_char c else unexpected_end)"
  "invalid_format [] = Inl (Undefined Out_of_bounds)"
  "invalid_format_stream None = Inl unexpected_end"
  "invalid_format_stream (Some c) = Inl (unexpected_char c)"
  by (simp_all add: invalid_format_def invalid_format_stream_def)

lemma invalid_format_not_Inr [simp]: "invalid_format it \<noteq> Inr x"
  by (cases it) simp_all

section \<open>Skipping white space\<close>

fun skip_sp :: "string \<Rightarrow> string result" where
  "skip_sp [] = Inl (Undefined Out_of_bounds)"
| "skip_sp (c # it) = (if isspace c then skip_sp it else Inr (c # it))"

function skip_sp_stream :: "istream \<Rightarrow> char option \<times> istream" where
  "skip_sp_stream s =
     (let (ch, s') = get s in if isspace_ch ch then skip_sp_stream s' else (ch, s'))"
  by pat_completeness auto
termination
proof (relation "measure remaining")
  fix s ch s' x
  assume "x = get s" and "(ch, s') = x" and "isspace_ch ch"
  then show "(s', s) \<in> measure remaining"
    using remaining_get [of s _ s'] by (cases ch) (auto dest: sym)
qed simp

declare skip_sp_stream.simps [simp del]

lemma skip_sp_nonspace: "\<not> isspace c \<Longrightarrow> skip_sp (c # it) = Inr (c # it)"
  by simp

lemma skip_sp_length: "skip_sp it = Inr it' \<Longrightarrow> length it' \<le> length it \<and> it' \<noteq> []"
  by (induction it) (auto split: if_splits)

section \<open>Reading bytes\<close>

text \<open>\<open>*(++it)\<close>: the byte after \<open>it\<close>, and the pointer moved to it.\<close>

definition advance :: "u8 list \<Rightarrow> (u8 \<times> u8 list) result" where
  "advance it =
     (case it of x # y # r \<Rightarrow> Inr (y, y # r) | _ \<Rightarrow> Inl (Undefined Out_of_bounds))"

text \<open>\<open>n\<close> times \<open>temp = (temp << 8) | *(++it)\<close> in a \<open>temp\<close> of the given width.\<close>

fun shift_in :: "nat \<Rightarrow> 'a::len word \<Rightarrow> u8 list \<Rightarrow> ('a word \<times> u8 list) result" where
  "shift_in 0 temp it = Inr (temp, it)"
| "shift_in (Suc n) temp it =
     bind_result (advance it) (\<lambda>(b, it). shift_in n (push_bit 8 temp OR ucast b) it)"

text \<open>\<open>n\<close> times \<open>len = (len << 8) + *(++it)\<close>; at most four bytes, so \<open>size_t\<close> cannot wrap.\<close>

fun shift_in_len :: "nat \<Rightarrow> nat \<Rightarrow> u8 list \<Rightarrow> (nat \<times> u8 list) result" where
  "shift_in_len 0 len it = Inr (len, it)"
| "shift_in_len (Suc n) len it =
     bind_result (advance it) (\<lambda>(b, it). shift_in_len n (256 * len + unat b) it)"

lemma advance_simps [simp]:
  "advance (x # y # r) = Inr (y, y # r)"
  "advance [x] = Inl (Undefined Out_of_bounds)"
  "advance [] = Inl (Undefined Out_of_bounds)"
  by (simp_all add: advance_def)

lemma shift_in_bytes:
  "shift_in (length bs) temp (x # bs @ rest) =
     Inr (foldl (\<lambda>t b. push_bit 8 t OR ucast b) temp bs, last (x # bs) # rest)"
  by (induction bs arbitrary: temp x) simp_all

lemma shift_in_len_bytes:
  "shift_in_len (length bs) len (x # bs @ rest) =
     Inr (foldl (\<lambda>n b. 256 * n + unat b) len bs, last (x # bs) # rest)"
  by (induction bs arbitrary: len x) simp_all

lemma shift_in_short:
  "length it \<le> Suc n \<Longrightarrow> shift_in (Suc n) temp it = Inl (Undefined Out_of_bounds)"
proof (induction n arbitrary: temp it)
  case 0
  then show ?case by (cases it; cases "tl it") auto
next
  case (Suc n)
  show ?case
  proof (cases "advance it")
    case (Inr p)
    then have "length (snd p) \<le> Suc n"
      using Suc.prems by (auto simp: advance_def split: list.splits)
    with Inr Suc.IH show ?thesis
      by (simp add: shift_in.simps(2) [of "Suc n"] split_beta del: shift_in.simps)
  qed (auto simp: advance_def split: list.splits)
qed

end
