(* ===== verification/Libc_Number.thy ===== *)
theory Libc_Number
  imports Prelude
begin

text \<open>
  The numeric conversions of the C and C++ library that \<open>json/number.h\<close> calls:
  \<open>std::to_string(long long)\<close>, \<open>strtoll\<close> with base 10, \<open>strtol\<close> with base 16,
  \<open>strtod\<close>, \<open>sprintf\<close> with \<open>"%.15f"\<close> and \<open>"%04X"\<close>, and the casts between
  \<open>int64_t\<close>, \<open>float\<close> and \<open>double\<close>. A \<open>double\<close> is its IEEE 754 binary64 bit pattern;
  conversions round to nearest, ties to even. Each function is defined for the texts the sources
  pass to it, which are digit strings the caller has already checked.
\<close>

section \<open>Decimal integers\<close>

fun dec_digits :: "nat \<Rightarrow> string" where
  "dec_digits n = (if n < 10 then [digit_char n] else dec_digits (n div 10) @ [digit_char (n mod 10)])"

declare dec_digits.simps [simp del]

definition to_string :: "int \<Rightarrow> string" where
  "to_string i = (if i < 0 then CHR ''-'' # dec_digits (nat (- i)) else dec_digits (nat i))"

definition dec_value :: "string \<Rightarrow> nat" where
  "dec_value cs = foldl (\<lambda>n c. 10 * n + digit_value c) 0 cs"

text \<open>\<open>strtoll\<close> saturates at the ends of \<open>long long\<close>.\<close>

definition clamp64 :: "int \<Rightarrow> int" where
  "clamp64 i = max (- (2 ^ 63)) (min (2 ^ 63 - 1) i)"

definition strtoll :: "string \<Rightarrow> u64" where
  "strtoll s =
     (case s of
        [] \<Rightarrow> 0
      | c # cs \<Rightarrow>
          if c = CHR ''-'' then word_of_int (clamp64 (- int (dec_value (takeWhile isdigit cs))))
          else word_of_int (clamp64 (int (dec_value (takeWhile isdigit s)))))"

section \<open>binary64\<close>

definition dbl_negative :: "u64 \<Rightarrow> bool" where
  "dbl_negative d \<longleftrightarrow> bit d 63"

definition dbl_exponent :: "u64 \<Rightarrow> nat" where
  "dbl_exponent d = (unat d div 2 ^ 52) mod 2 ^ 11"

definition dbl_fraction :: "u64 \<Rightarrow> nat" where
  "dbl_fraction d = unat d mod 2 ^ 52"

definition dbl_finite :: "u64 \<Rightarrow> bool" where
  "dbl_finite d \<longleftrightarrow> dbl_exponent d \<noteq> 2047"

text \<open>The magnitude of a finite double as numerator and denominator.\<close>

definition dbl_ratio :: "u64 \<Rightarrow> nat \<times> nat" where
  "dbl_ratio d =
     (let e = dbl_exponent d; f = dbl_fraction d in
      if e = 0 then (f, 2 ^ 1074)
      else if e \<ge> 1075 then ((f + 2 ^ 52) * 2 ^ (e - 1075), 1)
      else (f + 2 ^ 52, 2 ^ (1075 - e)))"

definition round_half_even :: "nat \<Rightarrow> nat \<Rightarrow> nat" where
  "round_half_even num den =
     (let q = num div den; r = num mod den in
      if 2 * r < den then q
      else if 2 * r > den then q + 1
      else if even q then q else q + 1)"

fun ilog2 :: "nat \<Rightarrow> nat" where
  "ilog2 n = (if n \<le> 1 then 0 else Suc (ilog2 (n div 2)))"

declare ilog2.simps [simp del]

text \<open>The exponent \<open>k\<close> with \<open>2 ^ k \<le> num / den < 2 ^ (k + 1)\<close>.\<close>

definition ratio_log2 :: "nat \<Rightarrow> nat \<Rightarrow> int" where
  "ratio_log2 num den =
     (if num \<ge> den then int (ilog2 (num div den))
      else - int (ilog2 ((den + num - 1) div num - 1) + 1))"

text \<open>
  The double nearest to \<open>num / den\<close>. The unit in the last place is \<open>2 ^ ulp\<close>, at least
  \<open>2 ^ (- 1074)\<close>; the biased exponent and the fraction come out of one sum, so a carry out of
  the fraction moves to the next binade. At or above the binade of infinity the result is infinity.
\<close>

definition double_of_ratio :: "bool \<Rightarrow> nat \<Rightarrow> nat \<Rightarrow> u64" where
  "double_of_ratio neg num den =
     (let sign = (if neg then 0x8000000000000000 else 0 :: u64) in
      if num = 0 then sign
      else
        let ulp = max (- 1074) (ratio_log2 num den - 52);
            q = (if ulp \<ge> 0 then round_half_even num (den * 2 ^ nat ulp)
                 else round_half_even (num * 2 ^ nat (- ulp)) den);
            mag = nat (ulp + 1074) * 2 ^ 52 + q
        in if mag \<ge> 0x7FF0000000000000 then sign OR 0x7FF0000000000000 else sign OR of_nat mag)"

definition strtod :: "string \<Rightarrow> u64" where
  "strtod s =
     (let neg = (s \<noteq> [] \<and> hd s = CHR ''-'');
          body = (if neg then tl s else s);
          ip = takeWhile isdigit body;
          rest = dropWhile isdigit body;
          has_frac = (rest \<noteq> [] \<and> hd rest = CHR ''.'');
          fp = (if has_frac then takeWhile isdigit (tl rest) else []);
          rest = (if has_frac then dropWhile isdigit (tl rest) else rest);
          ex = (if rest \<noteq> [] \<and> hd rest = CHR ''e'' then tl rest else []);
          exneg = (ex \<noteq> [] \<and> hd ex = CHR ''-'');
          exsigned = (exneg \<or> (ex \<noteq> [] \<and> hd ex = CHR ''+''));
          exval = dec_value (takeWhile isdigit (if exsigned then tl ex else ex));
          scale = (if exneg then - int exval else int exval) - int (length fp);
          digits = dec_value (ip @ fp)
      in if scale \<ge> 0 then double_of_ratio neg (digits * 10 ^ nat scale) 1
         else double_of_ratio neg digits (10 ^ nat (- scale)))"

text \<open>\<open>sprintf(buf, "%.15f", d)\<close>, for finite values, infinities and NaNs.\<close>

definition pad_zeros :: "nat \<Rightarrow> string \<Rightarrow> string" where
  "pad_zeros n cs = replicate (n - length cs) (CHR ''0'') @ cs"

definition format_15f :: "u64 \<Rightarrow> string" where
  "format_15f d =
     (let sign = (if dbl_negative d then ''-'' else '''') in
      if \<not> dbl_finite d then sign @ (if dbl_fraction d = 0 then ''inf'' else ''nan'')
      else
        let (num, den) = dbl_ratio d;
            n = round_half_even (num * 10 ^ 15) den
        in sign @ dec_digits (n div 10 ^ 15) @ ''.'' @ pad_zeros 15 (dec_digits (n mod 10 ^ 15)))"

text \<open>\<open>sprintf(buf, "\\u%04X", c)\<close> for a character code.\<close>

definition format_u04X :: "nat \<Rightarrow> string" where
  "format_u04X n =
     CHR 0x5C # CHR ''u'' # map digit_char [n div 4096 mod 16, n div 256 mod 16, n div 16 mod 16, n mod 16]"

section \<open>Casts\<close>

definition double_of_int64 :: "u64 \<Rightarrow> u64" where
  "double_of_int64 i = double_of_ratio (sint i < 0) (nat \<bar>sint i\<bar>) 1"

text \<open>Truncation towards zero; undefined when the value does not fit.\<close>

definition int64_of_double :: "u64 \<Rightarrow> u64 result" where
  "int64_of_double d =
     (if \<not> dbl_finite d then Inl (Undefined Conversion_range)
      else
        let (num, den) = dbl_ratio d;
            i = (if dbl_negative d then - int (num div den) else int (num div den))
        in if - (2 ^ 63) \<le> i \<and> i < 2 ^ 63 then Inr (word_of_int i) else Inl (Undefined Conversion_range))"

text \<open>\<open>float\<close> to \<open>double\<close> is exact; a NaN becomes quiet and keeps its payload.\<close>

definition double_of_float :: "u32 \<Rightarrow> u64" where
  "double_of_float f =
     (let neg = bit f 31;
          sign = (if neg then 0x8000000000000000 else 0 :: u64);
          e = (unat f div 2 ^ 23) mod 2 ^ 8;
          m = unat f mod 2 ^ 23
      in if e = 255 then
           sign OR 0x7FF0000000000000
             OR (if m = 0 then 0 else 0x0008000000000000 OR of_nat (m * 2 ^ 29))
         else if e = 0 then double_of_ratio neg m (2 ^ 149)
         else sign OR of_nat ((e + 896) * 2 ^ 52 + m * 2 ^ 29))"

section \<open>Digits and their values\<close>

lemma less_16_cases:
  "n < 16 \<Longrightarrow> n \<in> {0, 1, 2, 3, 4, 5, 6, 7, 8, 9, 10, 11, 12, 13, 14, 15 :: nat}"
  unfolding insert_iff empty_iff by presburger

lemma of_char_digit_char: "n < 16 \<Longrightarrow> of_char (digit_char n) = (if n < 10 then 48 + n else 55 + n)"
  by (simp add: digit_char_def)

lemma digit_char_values:
  "digit_char 0 = CHR ''0''" "digit_char (Suc 0) = CHR ''1''" "digit_char 2 = CHR ''2''"
  "digit_char 3 = CHR ''3''" "digit_char 4 = CHR ''4''" "digit_char 5 = CHR ''5''"
  "digit_char 6 = CHR ''6''" "digit_char 7 = CHR ''7''" "digit_char 8 = CHR ''8''"
  "digit_char 9 = CHR ''9''" "digit_char 10 = CHR ''A''" "digit_char 11 = CHR ''B''"
  "digit_char 12 = CHR ''C''" "digit_char 13 = CHR ''D''" "digit_char 14 = CHR ''E''"
  "digit_char 15 = CHR ''F''"
  by code_simp+

lemma digit_value_digit_char: "n < 16 \<Longrightarrow> digit_value (digit_char n) = n"
  by (simp add: digit_value_def of_char_digit_char Let_def)

lemma isdigit_digit_char: "n < 10 \<Longrightarrow> isdigit (digit_char n)"
  using less_16_cases [of n] by (auto simp: isdigit_def digit_char_values)

lemma isxdigit_digit_char: "n < 16 \<Longrightarrow> isxdigit (digit_char n)"
  using less_16_cases [of n] by (auto simp: isxdigit_def digit_char_values)

lemma dec_digits_ne [simp]: "dec_digits n \<noteq> []"
  by (subst dec_digits.simps) simp

lemma dec_digits_digits: "c \<in> set (dec_digits n) \<Longrightarrow> isdigit c"
proof (induction n rule: dec_digits.induct)
  case (1 n)
  then show ?case
    using isdigit_digit_char [of n] isdigit_digit_char [of "n mod 10"]
    by (subst (asm) (2) dec_digits.simps) (auto split: if_splits)
qed

lemma dec_value_append1: "dec_value (cs @ [c]) = 10 * dec_value cs + digit_value c"
  by (simp add: dec_value_def)

lemma dec_value_dec_digits: "dec_value (dec_digits n) = n"
proof (induction n rule: dec_digits.induct)
  case (1 n)
  show ?case
  proof (cases "n < 10")
    case True
    then show ?thesis
      using digit_value_digit_char [of n] by (subst dec_digits.simps) (simp add: dec_value_def)
  next
    case False
    then show ?thesis
      using 1 digit_value_digit_char [of "n mod 10"] by (subst dec_digits.simps) (simp add: dec_value_append1)
  qed
qed

lemma takeWhile_dec_digits: "takeWhile isdigit (dec_digits n) = dec_digits n"
  by (simp add: takeWhile_eq_all_conv dec_digits_digits)

lemma dec_digits_no_minus: "hd (dec_digits n) \<noteq> CHR ''-''"
  using dec_digits_digits [of "hd (dec_digits n)" n] hd_in_set [OF dec_digits_ne [of n]]
  by (auto simp: isdigit_def)

lemma clamp64_id: "- (2 ^ 63) \<le> i \<Longrightarrow> i < 2 ^ 63 \<Longrightarrow> clamp64 i = i"
  by (simp add: clamp64_def)

lemma strtoll_to_string: "strtoll (to_string (sint w)) = (w :: u64)"
proof -
  have range: "- (2 ^ 63) \<le> sint w" "sint w < 2 ^ 63"
    using sint_ge [of w] sint_lt [of w] by simp_all
  show ?thesis
  proof (cases "sint w < 0")
    case True
    then show ?thesis
      using range by (simp add: strtoll_def to_string_def takeWhile_dec_digits dec_value_dec_digits clamp64_id)
  next
    case False
    then have ts: "to_string (sint w) = dec_digits (nat (sint w))"
      by (simp add: to_string_def)
    obtain c cs where d: "dec_digits (nat (sint w)) = c # cs" and c: "c \<noteq> CHR ''-''"
      using dec_digits_no_minus [of "nat (sint w)"] dec_digits_ne [of "nat (sint w)"]
      by (cases "dec_digits (nat (sint w))") auto
    have "dec_value (takeWhile isdigit (c # cs)) = nat (sint w)"
      using takeWhile_dec_digits dec_value_dec_digits d by metis
    then have "strtoll (to_string (sint w)) = word_of_int (clamp64 (int (nat (sint w))))"
      unfolding ts d strtoll_def by (simp only: list.case c if_False)
    with False range show ?thesis by (simp add: clamp64_id)
  qed
qed

lemma base16_digits:
  assumes "(n :: nat) < 65536"
  shows "n = 16 * (16 * (16 * (n div 4096 mod 16) + n div 256 mod 16) + n div 16 mod 16) + n mod 16"
proof -
  have "n div 4096 mod 16 = n div 4096" using assms by simp
  moreover have "n div 256 = 16 * (n div 4096) + n div 256 mod 16"
    using div_mult_mod_eq [of "n div 256" 16] by (simp add: div_mult2_eq [symmetric])
  moreover have "n div 16 = 16 * (n div 256) + n div 16 mod 16"
    using div_mult_mod_eq [of "n div 16" 16] by (simp add: div_mult2_eq [symmetric])
  moreover have "n = 16 * (n div 16) + n mod 16" by simp
  ultimately show ?thesis by presburger
qed

lemma hex_value_format: "n < 65536 \<Longrightarrow> hex_value (drop 2 (format_u04X n)) = n"
  using base16_digits [of n] by (simp add: hex_value_def format_u04X_def digit_value_digit_char)

end
