(* ===== verification/Byte_Order.thy ===== *)
theory Byte_Order
  imports Prelude
begin

text \<open>
  \<open>include/shan/util/util.h\<close>: byte swapping and host/network byte order.

  The union \<open>__is_le\<close> makes the byte order of the host observable. It is the argument
  \<open>le\<close> of every definition here (true on a little-endian host), so each theorem holds for
  both kinds of host. \<open>host_bytes16\<close>, \<open>host_bytes32\<close> and \<open>host_bytes64\<close> are the object
  representation of an integer in memory, and \<open>be_bytes16\<close>, \<open>be_bytes32\<close>,
  \<open>be_bytes64\<close> the network (big-endian) sequence, the abstract contract of
  \<open>hton\<close>: the memory image of \<open>hton x\<close> is the big-endian sequence of \<open>x\<close> on every host.
\<close>

section \<open>Swapping\<close>

definition swap_bo16 :: "u16 \<Rightarrow> u16" where
  "swap_bo16 x = (push_bit 8 (x AND 0xff)) OR (drop_bit 8 x)"

definition swap_bo32 :: "u32 \<Rightarrow> u32" where
  "swap_bo32 x =
     push_bit 24 x OR (push_bit 8 x AND 0xff0000) OR (drop_bit 8 x AND 0xff00) OR drop_bit 24 x"

definition swap_bo64 :: "u64 \<Rightarrow> u64" where
  "swap_bo64 x =
     push_bit 56 x OR (push_bit 40 x AND 0xff000000000000)
     OR (push_bit 24 x AND 0xff0000000000) OR (push_bit 8 x AND 0xff00000000)
     OR (drop_bit 8 x AND 0xff000000) OR (drop_bit 24 x AND 0xff0000)
     OR (drop_bit 40 x AND 0xff00) OR drop_bit 56 x"

section \<open>Host and network order\<close>

definition hton16 :: "bool \<Rightarrow> u16 \<Rightarrow> u16" where
  "hton16 le x = (if le then swap_bo16 x else x)"

definition ntoh16 :: "bool \<Rightarrow> u16 \<Rightarrow> u16" where
  "ntoh16 le x = hton16 le x"

definition hton32 :: "bool \<Rightarrow> u32 \<Rightarrow> u32" where
  "hton32 le x = (if le then swap_bo32 x else x)"

definition ntoh32 :: "bool \<Rightarrow> u32 \<Rightarrow> u32" where
  "ntoh32 le x = hton32 le x"

definition hton64 :: "bool \<Rightarrow> u64 \<Rightarrow> u64" where
  "hton64 le x = (if le then swap_bo64 x else x)"

definition ntoh64 :: "bool \<Rightarrow> u64 \<Rightarrow> u64" where
  "ntoh64 le x = hton64 le x"

section \<open>Memory images\<close>

definition be_bytes16 :: "u16 \<Rightarrow> u8 list" where
  "be_bytes16 w = [ucast (drop_bit 8 w), ucast w]"

definition be_bytes32 :: "u32 \<Rightarrow> u8 list" where
  "be_bytes32 w = [ucast (drop_bit 24 w), ucast (drop_bit 16 w), ucast (drop_bit 8 w), ucast w]"

definition be_bytes64 :: "u64 \<Rightarrow> u8 list" where
  "be_bytes64 w =
     [ucast (drop_bit 56 w), ucast (drop_bit 48 w), ucast (drop_bit 40 w), ucast (drop_bit 32 w),
      ucast (drop_bit 24 w), ucast (drop_bit 16 w), ucast (drop_bit 8 w), ucast w]"

definition host_bytes16 :: "bool \<Rightarrow> u16 \<Rightarrow> u8 list" where
  "host_bytes16 le w = (if le then rev (be_bytes16 w) else be_bytes16 w)"

definition host_bytes32 :: "bool \<Rightarrow> u32 \<Rightarrow> u8 list" where
  "host_bytes32 le w = (if le then rev (be_bytes32 w) else be_bytes32 w)"

definition host_bytes64 :: "bool \<Rightarrow> u64 \<Rightarrow> u8 list" where
  "host_bytes64 le w = (if le then rev (be_bytes64 w) else be_bytes64 w)"

text \<open>Reading an object representation back, most significant byte first.\<close>

definition be_value :: "u8 list \<Rightarrow> 'a::len word" where
  "be_value bs = foldl (\<lambda>w b. push_bit 8 w OR ucast b) 0 bs"

definition host_value :: "bool \<Rightarrow> u8 list \<Rightarrow> 'a::len word" where
  "host_value le bs = be_value (if le then rev bs else bs)"

section \<open>Masks\<close>

lemma byte_masks:
  "(0xff :: 'a::len word) = mask 8"
  "(0xff00 :: 'a::len word) = push_bit 8 (mask 8)"
  "(0xff0000 :: 'a::len word) = push_bit 16 (mask 8)"
  "(0xff000000 :: 'a::len word) = push_bit 24 (mask 8)"
  "(0xff00000000 :: 'a::len word) = push_bit 32 (mask 8)"
  "(0xff0000000000 :: 'a::len word) = push_bit 40 (mask 8)"
  "(0xff000000000000 :: 'a::len word) = push_bit 48 (mask 8)"
  by (simp_all add: mask_eq_exp_minus_1 push_bit_eq_mult)

lemma bit_swap_bo16:
  "bit (swap_bo16 x) n \<longleftrightarrow> n < 16 \<and> bit x (if n < 8 then 8 + n else n - 8)"
  unfolding swap_bo16_def byte_masks by (auto simp: bit_simps dest: bit_imp_le_length)

lemma bit_swap_bo32:
  "bit (swap_bo32 x) n \<longleftrightarrow>
     n < 32 \<and> bit x (if n < 8 then 24 + n else if n < 16 then 8 + n else if n < 24 then n - 8 else n - 24)"
  unfolding swap_bo32_def byte_masks by (auto simp: bit_simps dest: bit_imp_le_length)

lemma bit_swap_bo64:
  "bit (swap_bo64 x) n \<longleftrightarrow>
     n < 64 \<and> bit x (if n < 8 then 56 + n else if n < 16 then 40 + n else if n < 24 then 24 + n
       else if n < 32 then 8 + n else if n < 40 then n - 8 else if n < 48 then n - 24
       else if n < 56 then n - 40 else n - 56)"
proof -
  have beyond: "\<And>k. 64 \<le> k \<Longrightarrow> \<not> bit x k"
    using bit_imp_le_length [of x] by force
  consider "n < 8" | "8 \<le> n" "n < 16" | "16 \<le> n" "n < 24" | "24 \<le> n" "n < 32" | "32 \<le> n" "n < 40"
    | "40 \<le> n" "n < 48" | "48 \<le> n" "n < 56" | "56 \<le> n" "n < 64" | "64 \<le> n"
    by linarith
  then show ?thesis
    unfolding swap_bo64_def byte_masks by cases (simp_all add: bit_simps beyond less_diff_conv2)
qed

lemmas bit_swaps = bit_swap_bo16 bit_swap_bo32 bit_swap_bo64

section \<open>Swapping reverses the bytes\<close>

lemma be_bytes16_swap: "be_bytes16 (swap_bo16 x) = rev (be_bytes16 x)"
  by (auto simp: be_bytes16_def bit_simps bit_swaps intro!: bit_word_eqI)

lemma be_bytes32_swap: "be_bytes32 (swap_bo32 x) = rev (be_bytes32 x)"
  by (auto simp: be_bytes32_def bit_simps bit_swaps intro!: bit_word_eqI)

lemma be_bytes64_swap: "be_bytes64 (swap_bo64 x) = rev (be_bytes64 x)"
  by (auto simp: be_bytes64_def bit_simps bit_swaps intro!: bit_word_eqI)

lemmas be_bytes_swap = be_bytes16_swap be_bytes32_swap be_bytes64_swap

lemma swap_bo16_involution: "swap_bo16 (swap_bo16 x) = x"
  by (rule bit_word_eqI) (auto simp: bit_swaps)

lemma swap_bo32_involution: "swap_bo32 (swap_bo32 x) = x"
  by (rule bit_word_eqI) (auto simp: bit_swaps)

lemma swap_bo64_involution: "swap_bo64 (swap_bo64 x) = x"
  by (rule bit_word_eqI) (auto simp: bit_swaps)

lemmas swap_involution [simp] = swap_bo16_involution swap_bo32_involution swap_bo64_involution

lemma ntoh_hton [simp]:
  "ntoh16 le (hton16 le v) = v" "ntoh32 le (hton32 le w) = w" "ntoh64 le (hton64 le x) = x"
  by (simp_all add: ntoh16_def hton16_def ntoh32_def hton32_def ntoh64_def hton64_def)

section \<open>Reassembling an integer from its bytes\<close>

lemma join_byte:
  "push_bit 8 (drop_bit (n + 8) w) OR ucast (ucast (drop_bit n w) :: u8) = drop_bit n (w :: 'a::len word)"
  by (rule bit_word_eqI) (auto simp: bit_simps dest: bit_imp_le_length)

lemma top_byte:
  "LENGTH('a) \<le> n + 8 \<Longrightarrow> ucast (ucast (drop_bit n w) :: u8) = drop_bit n (w :: 'a::len word)"
  by (rule bit_word_eqI) (auto simp: bit_simps dest: bit_imp_le_length)

lemmas join_bytes = join_byte [of 48, simplified] join_byte [of 40, simplified]
  join_byte [of 32, simplified] join_byte [of 24, simplified] join_byte [of 16, simplified]
  join_byte [of 8, simplified] join_byte [of 0, simplified]

lemma be_value_be_bytes:
  "be_value (be_bytes16 v) = v" "be_value (be_bytes32 w) = w" "be_value (be_bytes64 x) = x"
  unfolding be_value_def be_bytes16_def be_bytes32_def be_bytes64_def
  by (simp_all add: top_byte join_bytes)

lemma be_bytes_length [simp]:
  "length (be_bytes16 v) = 2" "length (be_bytes32 w) = 4" "length (be_bytes64 x) = 8"
  by (simp_all add: be_bytes16_def be_bytes32_def be_bytes64_def)

lemma host_bytes_length [simp]:
  "length (host_bytes16 le v) = 2" "length (host_bytes32 le w) = 4" "length (host_bytes64 le x) = 8"
  by (simp_all add: host_bytes16_def host_bytes32_def host_bytes64_def)

lemma host_value_host_bytes [simp]:
  "host_value le (host_bytes16 le v) = v" "host_value le (host_bytes32 le w) = w"
  "host_value le (host_bytes64 le x) = x"
  by (simp_all add: host_value_def host_bytes16_def host_bytes32_def host_bytes64_def
      be_value_be_bytes)

lemma host_bytes_hton:
  "host_bytes16 le (hton16 le v) = be_bytes16 v"
  "host_bytes32 le (hton32 le w) = be_bytes32 w"
  "host_bytes64 le (hton64 le x) = be_bytes64 x"
  by (simp_all add: host_bytes16_def host_bytes32_def host_bytes64_def hton16_def hton32_def
      hton64_def be_bytes_swap)

lemma ntoh_host_value_be_bytes:
  "ntoh16 le (host_value le (be_bytes16 v)) = v"
  "ntoh32 le (host_value le (be_bytes32 w)) = w"
  "ntoh64 le (host_value le (be_bytes64 x)) = x"
  by (simp_all flip: host_bytes_hton [of le])

end
