(* ===== verification/Streambuf.thy ===== *)
theory Streambuf
  imports Byte_Order
begin

text \<open>
  \<open>include/shan/util/streambuf.h\<close>: the growable byte buffer the JSON packer and the network
  channels write to and read from.

  The pointers the class inherits from \<open>std::streambuf\<close> are offsets from \<open>&_buffer[0]\<close>:
  \<open>gnext\<close> is \<open>gptr()\<close>, \<open>gend\<close> is \<open>egptr()\<close>, \<open>pnext\<close> is \<open>pptr()\<close>, \<open>pend\<close> is \<open>epptr()\<close>;
  \<open>eback()\<close> is always offset 0. \<open>_mark\<close> is \<open>None\<close> for the null pointer. Sizes are naturals;
  \<open>pbump\<close> and \<open>gbump\<close> take an \<open>int\<close>, so the casts of the sources are written out
  (\<open>cast_int\<close>); a sum of a pointer and a size that may leave the address space is undefined behaviour (\<open>beyond\<close>).
  Failure of the allocator is not modelled.

  The abstract view is \<open>content\<close>, the bytes between \<open>gptr()\<close> and \<open>pptr()\<close>; \<open>sb_inv\<close> is the
  invariant of the pointers. The locale \<open>byte_sink\<close> is the contract the packers rely on.
\<close>

record streambuf =
  base_size :: nat
  buffer :: "u8 list"
  gnext :: nat
  gend :: nat
  pnext :: nat
  pend :: nat
  mark :: "nat option"

definition min_size :: nat where "min_size = 128"

definition def_size :: nat where "def_size = 4096"

section \<open>Construction and queries\<close>

definition streambuf_new :: "nat \<Rightarrow> streambuf" where
  "streambuf_new sz =
     (let base = max sz min_size in
      \<lparr>base_size = base, buffer = replicate base 0, gnext = 0, gend = 0, pnext = 0, pend = base,
       mark = None\<rparr>)"

text \<open>The \<open>poolable\<close> reset: the argument is ignored.\<close>

definition pool_reset :: "nat \<Rightarrow> streambuf \<Rightarrow> streambuf" where
  "pool_reset sz sb =
     sb\<lparr>gnext := 0, gend := 0, pnext := 0, pend := length (buffer sb), mark := None\<rparr>"

definition alloc_size :: "streambuf \<Rightarrow> nat" where
  "alloc_size sb = length (buffer sb)"

definition in_size :: "streambuf \<Rightarrow> nat" where
  "in_size sb = pnext sb - gnext sb"

definition out_size :: "streambuf \<Rightarrow> nat" where
  "out_size sb = pend sb - pnext sb"

section \<open>Making room\<close>

text \<open>\<open>std::numeric_limits<std::size_t>::max() >> 1\<close>\<close>

definition size_limit :: nat where "size_limit = 2 ^ 63 - 1"

text \<open>The doubling loop. It does not end when \<open>pend\<close> is 0, which the invariant excludes.\<close>

partial_function (option) grow_pend :: "nat \<Rightarrow> nat \<Rightarrow> nat \<Rightarrow> nat option" where
  "grow_pend n pnxt pnd =
     (if n > pnd - pnxt \<and> pnd \<le> size_limit then grow_pend n pnxt (2 * pnd) else Some pnd)"

text \<open>\<open>memmove(&_buffer[0], &_buffer[0] + from, len)\<close>\<close>

definition move_front :: "nat \<Rightarrow> nat \<Rightarrow> u8 list \<Rightarrow> u8 list" where
  "move_front from len buf = take len (drop from buf) @ drop len buf"

definition resize :: "nat \<Rightarrow> u8 list \<Rightarrow> u8 list" where
  "resize n buf = take n buf @ replicate (n - length buf) 0"

definition reserve :: "nat \<Rightarrow> streambuf \<Rightarrow> streambuf result" where
  "reserve n sb =
     (if n \<le> pend sb - pnext sb then Inr sb
      else
        let pnxt = pnext sb - gnext sb;
            buf = (if gnext sb > 0 then move_front (gnext sb) pnxt (buffer sb) else buffer sb)
        in bind_result
          (if n > pend sb - pnxt then
             (case grow_pend n pnxt (pend sb) of
                None \<Rightarrow> Inl Out_of_fuel
              | Some pnd \<Rightarrow>
                  if n > pnd - pnxt then Inl (Buffer_error ''too big buffer requested'')
                  else Inr (pnd, resize (max pnd 1) buf))
           else if pend sb > (base_size sb * 2) mod 2 ^ 64 \<and> pnxt + n < pend sb div 2 then
             Inr (pend sb div 2, take pnxt buf @ replicate (pend sb div 2 - pnxt) 0)
           else Inr (pend sb, buf))
          (\<lambda>(pnd, buf'). Inr (sb\<lparr>buffer := buf', gnext := 0, gend := pnxt, pnext := pnxt, pend := pnd,
             mark := None\<rparr>)))"

text \<open>\<open>static_cast<int>\<close> of a \<open>size_t\<close>, and the pointer moved by it.\<close>

definition cast_int :: "nat \<Rightarrow> int" where
  "cast_int n = sint (of_nat n :: u32)"

definition bump :: "nat \<Rightarrow> nat \<Rightarrow> nat result" where
  "bump p n =
     (let q = int p + cast_int n in if q < 0 then Inl (Undefined Out_of_bounds) else Inr (nat q))"

definition prepare :: "nat \<Rightarrow> streambuf \<Rightarrow> (nat \<times> streambuf) result" where
  "prepare n sb = bind_result (reserve n sb) (\<lambda>sb. Inr (pnext sb, sb))"

text \<open>The test \<open>p + n > limit\<close> of \<open>commit\<close> and \<open>consume\<close> adds a \<open>size_t\<close> to a pointer. Addresses are below \<open>2 ^ 63\<close>, so
  the sum stays in the address space when \<open>n\<close> is below \<open>2 ^ 63\<close>; for a larger \<open>n\<close> it may wrap around, which is
  undefined, and the test then says that there is room.\<close>

definition beyond :: "nat \<Rightarrow> nat \<Rightarrow> nat \<Rightarrow> bool result" where
  "beyond p n limit = (if 2 ^ 63 \<le> n then Inl (Undefined Pointer_overflow) else Inr (p + n > limit))"

definition commit :: "nat \<Rightarrow> streambuf \<Rightarrow> streambuf result" where
  "commit n sb =
     bind_result (beyond (pnext sb) n (pend sb)) (\<lambda>too_far.
       let k = (if too_far then pend sb - pnext sb else n) in
       bind_result (bump (pnext sb) k) (\<lambda>p. Inr (sb\<lparr>pnext := p, gend := p\<rparr>)))"

definition consume :: "nat \<Rightarrow> streambuf \<Rightarrow> streambuf result" where
  "consume n sb =
     (let sb = (if gend sb < pnext sb then sb\<lparr>gend := pnext sb\<rparr> else sb) in
      bind_result (beyond (gnext sb) n (pnext sb)) (\<lambda>too_far.
        let k = (if too_far then pnext sb - gnext sb else n) in
        bind_result (bump (gnext sb) k) (\<lambda>g. Inr (sb\<lparr>gnext := g\<rparr>))))"

section \<open>Memory copies\<close>

text \<open>\<open>memcpy\<close> into the buffer and out of it, with the bounds the C++ leaves unchecked.\<close>

definition store :: "nat \<Rightarrow> u8 list \<Rightarrow> streambuf \<Rightarrow> streambuf result" where
  "store p bs sb =
     (if p + length bs \<le> length (buffer sb)
      then Inr (sb\<lparr>buffer := take p (buffer sb) @ bs @ drop (p + length bs) (buffer sb)\<rparr>)
      else Inl (Undefined Out_of_bounds))"

definition fetch :: "nat \<Rightarrow> nat \<Rightarrow> streambuf \<Rightarrow> u8 list result" where
  "fetch p n sb =
     (if p + n \<le> length (buffer sb) then Inr (take n (drop p (buffer sb)))
      else Inl (Undefined Out_of_bounds))"

definition sb_append :: "streambuf \<Rightarrow> streambuf \<Rightarrow> (streambuf \<times> streambuf) result" where
  "sb_append sb other =
     (let size = in_size other in
      bind_result (reserve size sb) (\<lambda>sb.
      bind_result (fetch (gnext other) size other) (\<lambda>bs.
      bind_result (store (pnext sb) bs sb) (\<lambda>sb.
      bind_result (commit size sb) (\<lambda>sb.
      bind_result (consume (in_size other) other) (\<lambda>other.
        Inr (sb, other)))))))"

definition set_mark :: "streambuf \<Rightarrow> streambuf" where
  "set_mark sb = sb\<lparr>mark := Some (gnext sb)\<rparr>"

definition reset :: "streambuf \<Rightarrow> streambuf" where
  "reset sb = (case mark sb of None \<Rightarrow> sb | Some m \<Rightarrow> sb\<lparr>gnext := m\<rparr>)"

section \<open>Reading\<close>

definition read :: "nat \<Rightarrow> streambuf \<Rightarrow> (u8 list \<times> streambuf) result" where
  "read size_in_byte sb =
     (let size = min (in_size sb) size_in_byte in
      bind_result (fetch (gnext sb) size sb) (\<lambda>bs.
      bind_result (consume size sb) (\<lambda>sb. Inr (bs, sb))))"

text \<open>The common shape of the typed reads: the size check, then \<open>read\<close> into a local.\<close>

definition read_checked :: "nat \<Rightarrow> string \<Rightarrow> streambuf \<Rightarrow> (u8 list \<times> streambuf) result" where
  "read_checked n msg sb =
     (if in_size sb < n then Inl (Not_enough_error msg) else read n sb)"

definition read_int8 :: "bool \<Rightarrow> streambuf \<Rightarrow> (u8 \<times> streambuf) result" where
  "read_int8 le sb =
     bind_result (read_checked 1 ''not enough data in read_int8().'' sb) (\<lambda>(bs, sb).
       Inr (host_value le bs, sb))"

definition read_int16 :: "bool \<Rightarrow> streambuf \<Rightarrow> (u16 \<times> streambuf) result" where
  "read_int16 le sb =
     bind_result (read_checked 2 ''not enough data in read_int16().'' sb) (\<lambda>(bs, sb).
       Inr (ntoh16 le (host_value le bs), sb))"

definition read_int32 :: "bool \<Rightarrow> streambuf \<Rightarrow> (u32 \<times> streambuf) result" where
  "read_int32 le sb =
     bind_result (read_checked 4 ''not enough data in read_int32().'' sb) (\<lambda>(bs, sb).
       Inr (ntoh32 le (host_value le bs), sb))"

definition read_int64 :: "bool \<Rightarrow> streambuf \<Rightarrow> (u64 \<times> streambuf) result" where
  "read_int64 le sb =
     bind_result (read_checked 8 ''not enough data in read_int64().'' sb) (\<lambda>(bs, sb).
       Inr (ntoh64 le (host_value le bs), sb))"

definition read_uint8 :: "bool \<Rightarrow> streambuf \<Rightarrow> (u8 \<times> streambuf) result" where
  "read_uint8 le sb =
     bind_result (read_checked 1 ''not enough data in read_uint8().'' sb) (\<lambda>(bs, sb).
       Inr (host_value le bs, sb))"

definition read_uint16 :: "bool \<Rightarrow> streambuf \<Rightarrow> (u16 \<times> streambuf) result" where
  "read_uint16 le sb =
     bind_result (read_checked 2 ''not enough data in read_uint16().'' sb) (\<lambda>(bs, sb).
       Inr (ntoh16 le (host_value le bs), sb))"

definition read_uint32 :: "bool \<Rightarrow> streambuf \<Rightarrow> (u32 \<times> streambuf) result" where
  "read_uint32 le sb =
     bind_result (read_checked 4 ''not enough data in read_uint32().'' sb) (\<lambda>(bs, sb).
       Inr (ntoh32 le (host_value le bs), sb))"

definition read_uint64 :: "bool \<Rightarrow> streambuf \<Rightarrow> (u64 \<times> streambuf) result" where
  "read_uint64 le sb =
     bind_result (read_checked 8 ''not enough data in read_uint64().'' sb) (\<lambda>(bs, sb).
       Inr (ntoh64 le (host_value le bs), sb))"

text \<open>\<open>float\<close> and \<open>double\<close> by their bits, without a byte swap.\<close>

definition read_float :: "bool \<Rightarrow> streambuf \<Rightarrow> (u32 \<times> streambuf) result" where
  "read_float le sb =
     bind_result (read_checked 4 ''not enough data in read_float().'' sb) (\<lambda>(bs, sb).
       Inr (host_value le bs, sb))"

definition read_double :: "bool \<Rightarrow> streambuf \<Rightarrow> (u64 \<times> streambuf) result" where
  "read_double le sb =
     bind_result (read_checked 8 ''not enough data in read_double().'' sb) (\<lambda>(bs, sb).
       Inr (host_value le bs, sb))"

section \<open>Writing\<close>

definition write_bytes :: "u8 list \<Rightarrow> streambuf \<Rightarrow> streambuf result" where
  "write_bytes bs sb =
     bind_result (reserve (length bs) sb) (\<lambda>sb.
     bind_result (store (pnext sb) bs sb) (\<lambda>sb.
     bind_result (bump (pnext sb) (length bs)) (\<lambda>p. Inr (sb\<lparr>pnext := p\<rparr>))))"

definition write_int8 :: "u8 \<Rightarrow> streambuf \<Rightarrow> streambuf result" where
  "write_int8 v sb = write_bytes [v] sb"

definition write_int16 :: "bool \<Rightarrow> u16 \<Rightarrow> streambuf \<Rightarrow> streambuf result" where
  "write_int16 le v sb = write_bytes (host_bytes16 le (hton16 le v)) sb"

definition write_int32 :: "bool \<Rightarrow> u32 \<Rightarrow> streambuf \<Rightarrow> streambuf result" where
  "write_int32 le v sb = write_bytes (host_bytes32 le (hton32 le v)) sb"

definition write_int64 :: "bool \<Rightarrow> u64 \<Rightarrow> streambuf \<Rightarrow> streambuf result" where
  "write_int64 le v sb = write_bytes (host_bytes64 le (hton64 le v)) sb"

definition write_uint8 :: "u8 \<Rightarrow> streambuf \<Rightarrow> streambuf result" where
  "write_uint8 v sb = write_bytes [v] sb"

definition write_uint16 :: "bool \<Rightarrow> u16 \<Rightarrow> streambuf \<Rightarrow> streambuf result" where
  "write_uint16 le v sb = write_bytes (host_bytes16 le (hton16 le v)) sb"

definition write_uint32 :: "bool \<Rightarrow> u32 \<Rightarrow> streambuf \<Rightarrow> streambuf result" where
  "write_uint32 le v sb = write_bytes (host_bytes32 le (hton32 le v)) sb"

definition write_uint64 :: "bool \<Rightarrow> u64 \<Rightarrow> streambuf \<Rightarrow> streambuf result" where
  "write_uint64 le v sb = write_bytes (host_bytes64 le (hton64 le v)) sb"

definition write_float :: "bool \<Rightarrow> u32 \<Rightarrow> streambuf \<Rightarrow> streambuf result" where
  "write_float le v sb = write_bytes (host_bytes32 le v) sb"

definition write_double :: "bool \<Rightarrow> u64 \<Rightarrow> streambuf \<Rightarrow> streambuf result" where
  "write_double le v sb = write_bytes (host_bytes64 le v) sb"

text \<open>
  \<open>write_string(const char*)\<close> passes \<open>&str\<close>, the address of the pointer parameter, to
  \<open>write\<close>. The bytes copied are those found in memory from the parameter on: first the
  representation of the pointer, then whatever follows it. \<open>frame\<close> is that memory.
\<close>

definition write_string_cstr :: "u8 list \<Rightarrow> string \<Rightarrow> streambuf \<Rightarrow> streambuf result" where
  "write_string_cstr frame str sb =
     (let size = length str in
      if size \<le> length frame then write_bytes (take size frame) sb else Inl (Undefined Out_of_bounds))"

definition write_string :: "string \<Rightarrow> streambuf \<Rightarrow> streambuf result" where
  "write_string str sb = write_bytes (map u8_of_char str) sb"

section \<open>The std::streambuf virtuals\<close>

text \<open>\<open>None\<close> is \<open>traits_type::eof()\<close>.\<close>

definition underflow :: "streambuf \<Rightarrow> (u8 option \<times> streambuf) result" where
  "underflow sb =
     (if gnext sb < pnext sb then
        bind_result (fetch (gnext sb) 1 sb) (\<lambda>bs. Inr (Some (hd bs), sb\<lparr>gend := pnext sb\<rparr>))
      else Inr (None, sb))"

definition overflow :: "u8 option \<Rightarrow> streambuf \<Rightarrow> streambuf result" where
  "overflow c sb =
     (case c of
        None \<Rightarrow> Inr sb
      | Some b \<Rightarrow>
          bind_result (if pnext sb = pend sb then reserve 1 sb else Inr sb) (\<lambda>sb.
          bind_result (store (pnext sb) [b] sb) (\<lambda>sb.
          bind_result (bump (pnext sb) 1) (\<lambda>p. Inr (sb\<lparr>pnext := p\<rparr>)))))"

section \<open>Abstract view and invariant\<close>

definition content :: "streambuf \<Rightarrow> u8 list" where
  "content sb = take (pnext sb - gnext sb) (drop (gnext sb) (buffer sb))"

definition sb_inv :: "streambuf \<Rightarrow> bool" where
  "sb_inv sb \<longleftrightarrow> gnext sb \<le> gend sb \<and> gend sb \<le> pnext sb \<and> pnext sb \<le> pend sb
     \<and> pend sb = length (buffer sb) \<and> min_size \<le> pend sb \<and> min_size \<le> base_size sb
     \<and> base_size sb < 2 ^ 63 \<and> (case mark sb of None \<Rightarrow> True | Some m \<Rightarrow> m \<le> gnext sb)"

lemma sb_invD:
  assumes "sb_inv sb"
  shows "gnext sb \<le> gend sb" "gend sb \<le> pnext sb" "pnext sb \<le> pend sb"
    "pend sb = length (buffer sb)" "gnext sb \<le> pnext sb" "0 < pend sb"
  using assms by (auto simp: sb_inv_def min_size_def)

lemma length_content: "sb_inv sb \<Longrightarrow> length (content sb) = in_size sb"
  using sb_invD [of sb] by (auto simp: content_def in_size_def)

subsection \<open>Casts and the doubling loop\<close>

lemma cast_int_small: "n < 2 ^ 31 \<Longrightarrow> cast_int n = int n"
  by (simp add: cast_int_def signed_of_nat signed_take_bit_int_eq_self)

lemma bump_small: "n < 2 ^ 31 \<Longrightarrow> bump p n = Inr (p + n)"
  by (simp add: bump_def cast_int_small nat_int_add)

lemma grow_pend_returns:
  assumes "0 < pnd"
  shows "\<exists>p \<ge> pnd. grow_pend n pnxt pnd = Some p \<and> (n \<le> p - pnxt \<or> size_limit < p)"
  using assms
proof (induction "Suc size_limit - pnd" arbitrary: pnd rule: less_induct)
  case less
  show ?case
  proof (cases "n > pnd - pnxt \<and> pnd \<le> size_limit")
    case True
    with less.prems have "Suc size_limit - 2 * pnd < Suc size_limit - pnd"
      by linarith
    then obtain p where "2 * pnd \<le> p" "grow_pend n pnxt (2 * pnd) = Some p"
      "n \<le> p - pnxt \<or> size_limit < p"
      using less.hyps [of "2 * pnd"] less.prems by auto
    with True show ?thesis
      by (subst grow_pend.simps) auto
  next
    case False
    then show ?thesis
      by (subst grow_pend.simps) auto
  qed
qed

lemma grow_pend_bound: "grow_pend n pnxt pnd = Some p \<Longrightarrow> p \<le> max pnd (2 * (n + pnxt))"
proof (induction rule: grow_pend.raw_induct [rotated, consumes 1])
  case (1 f n pnxt pnd p)
  show ?case
  proof (cases "n > pnd - pnxt \<and> pnd \<le> size_limit")
    case True
    then have "p \<le> max (2 * pnd) (2 * (n + pnxt))" using 1 by simp
    then show ?thesis using True by auto
  next
    case False
    then have "p = pnd" using 1(2) by (simp only: if_False option.inject)
    then show ?thesis by simp
  qed
qed

subsection \<open>reserve keeps the content and makes the room asked for\<close>

lemma take_move_front:
  "g + len \<le> length buf \<Longrightarrow> take len (move_front g len buf) = take len (drop g buf)"
  by (simp add: move_front_def)

lemma length_move_front [simp]:
  "g + len \<le> length buf \<Longrightarrow> length (move_front g len buf) = length buf"
  by (simp add: move_front_def)

lemma take_resize: "k \<le> n \<Longrightarrow> k \<le> length buf \<Longrightarrow> take k (resize n buf) = take k buf"
  by (simp add: resize_def min_def)

lemma length_resize [simp]: "length (resize n buf) = n"
  by (simp add: resize_def)

text \<open>The rest of \<open>reserve\<close> when there is not enough room, with the bytes that are kept and the shifted buffer.\<close>

definition kept_size :: "streambuf \<Rightarrow> nat" where
  "kept_size sb = pnext sb - gnext sb"

definition shifted :: "streambuf \<Rightarrow> u8 list" where
  "shifted sb = (if gnext sb > 0 then move_front (gnext sb) (kept_size sb) (buffer sb) else buffer sb)"

definition repositioned :: "nat \<Rightarrow> u8 list \<Rightarrow> streambuf \<Rightarrow> streambuf" where
  "repositioned p buf sb =
     sb\<lparr>buffer := buf, gnext := 0, gend := kept_size sb, pnext := kept_size sb, pend := p, mark := None\<rparr>"

lemma reserve_moves:
  assumes "sb_inv sb" and "\<not> n \<le> pend sb - pnext sb"
  shows "reserve n sb =
    (if n > pend sb - kept_size sb then
       (case grow_pend n (kept_size sb) (pend sb) of
          None \<Rightarrow> Inl Out_of_fuel
        | Some pnd \<Rightarrow>
            if n > pnd - kept_size sb then Inl (Buffer_error ''too big buffer requested'')
            else Inr (repositioned pnd (resize (max pnd 1) (shifted sb)) sb))
     else if pend sb > base_size sb * 2 \<and> kept_size sb + n < pend sb div 2 then
       Inr (repositioned (pend sb div 2) (take (kept_size sb) (shifted sb) @ replicate (pend sb div 2 - kept_size sb) 0) sb)
     else Inr (repositioned (pend sb) (shifted sb) sb))"
proof -
  have base: "(base_size sb * 2) mod 2 ^ 64 = base_size sb * 2" using assms(1) by (simp add: sb_inv_def)
  show ?thesis
    unfolding reserve_def Let_def base kept_size_def [symmetric] shifted_def [symmetric] using assms(2)
    by (simp add: repositioned_def split: option.splits)
qed

lemma shifted_facts:
  assumes "sb_inv sb"
  shows "length (shifted sb) = pend sb" "kept_size sb \<le> pend sb" "in_size sb = kept_size sb"
    "take (kept_size sb) (shifted sb) = content sb" "length (content sb) = kept_size sb"
proof -
  have fits: "gnext sb + kept_size sb \<le> length (buffer sb)" using sb_invD [OF assms] by (simp add: kept_size_def)
  then show "length (shifted sb) = pend sb" using sb_invD(4) [OF assms] by (simp add: shifted_def)
  show "kept_size sb \<le> pend sb" using sb_invD [OF assms] by (simp add: kept_size_def)
  show size: "in_size sb = kept_size sb" by (simp add: in_size_def kept_size_def)
  show "take (kept_size sb) (shifted sb) = content sb"
    using fits by (auto simp: shifted_def content_def kept_size_def take_move_front)
  show "length (content sb) = kept_size sb" using length_content [OF assms] size by simp
qed

lemma repositioned_ok:
  assumes "sb_inv sb" and "kept_size sb \<le> p" "length b = p" "take (kept_size sb) b = content sb" "min_size \<le> p"
  shows "sb_inv (repositioned p b sb)" "content (repositioned p b sb) = content sb"
    "pend (repositioned p b sb) - pnext (repositioned p b sb) = p - kept_size sb"
  using assms by (auto simp: sb_inv_def content_def repositioned_def)

lemma reserve_ok:
  assumes inv: "sb_inv sb" and room: "in_size sb + n \<le> 2 ^ 63"
  shows "\<exists>sb'. reserve n sb = Inr sb' \<and> sb_inv sb' \<and> content sb' = content sb
    \<and> n \<le> pend sb' - pnext sb'"
proof (cases "n \<le> pend sb - pnext sb")
  case True
  with inv show ?thesis by (simp add: reserve_def)
next
  case False
  let ?q = "kept_size sb"
  note moves = reserve_moves [OF inv False] and facts = shifted_facts [OF inv]
  have min: "min_size \<le> pend sb" using inv by (simp add: sb_inv_def)
  consider (grow) "n > pend sb - ?q"
    | (shrink) "n \<le> pend sb - ?q" "pend sb > base_size sb * 2 \<and> ?q + n < pend sb div 2"
    | (keep) "n \<le> pend sb - ?q" "\<not> (pend sb > base_size sb * 2 \<and> ?q + n < pend sb div 2)"
    by linarith
  then show ?thesis
  proof cases
    case grow
    obtain p where p: "pend sb \<le> p" "grow_pend n ?q (pend sb) = Some p" "n \<le> p - ?q \<or> size_limit < p"
      using grow_pend_returns sb_invD(6) [OF inv] by blast
    have fits: "n \<le> p - ?q" using p(3) room facts(3) by (auto simp: size_limit_def)
    have "max p 1 = p" using p(1) sb_invD(6) [OF inv] by simp
    then show ?thesis
      using repositioned_ok [OF inv, of p "resize p (shifted sb)"] grow p fits facts min by (simp add: moves take_resize)
  next
    case shrink
    have "min_size \<le> pend sb div 2" using shrink(2) inv by (auto simp: sb_inv_def)
    moreover have "n \<le> pend sb div 2 - ?q" "?q \<le> pend sb div 2" using shrink(2) by linarith+
    ultimately show ?thesis
      using repositioned_ok [OF inv, of "pend sb div 2" "content sb @ replicate (pend sb div 2 - ?q) 0"] shrink facts
      by (simp add: moves)
  next
    case keep
    then show ?thesis using repositioned_ok [OF inv, of "pend sb" "shifted sb"] facts min by (auto simp: moves)
  qed
qed

subsection \<open>Writing appends, reading removes from the front\<close>

lemma store_ok:
  assumes "sb_inv sb" and "length bs \<le> pend sb - pnext sb"
  shows "store (pnext sb) bs sb =
    Inr (sb\<lparr>buffer := take (pnext sb) (buffer sb) @ bs @ drop (pnext sb + length bs) (buffer sb)\<rparr>)"
  using assms sb_invD [OF assms(1)] by (simp add: store_def)

lemma stored_content:
  assumes inv: "sb_inv sb" and fits: "length bs \<le> pend sb - pnext sb"
  defines "sb' \<equiv> sb\<lparr>buffer := take (pnext sb) (buffer sb) @ bs @ drop (pnext sb + length bs) (buffer sb),
      pnext := pnext sb + length bs\<rparr>"
  shows "sb_inv sb'" and "content sb' = content sb @ bs"
    and "sb_inv (sb'\<lparr>gend := pnext sb + length bs\<rparr>)" and "content (sb'\<lparr>gend := e\<rparr>) = content sb'"
proof -
  show "sb_inv sb'" "sb_inv (sb'\<lparr>gend := pnext sb + length bs\<rparr>)"
    using inv fits sb_invD [OF inv] by (auto simp: sb_inv_def sb'_def split: option.splits)
  show "content sb' = content sb @ bs"
    using sb_invD [OF inv] fits by (simp add: content_def sb'_def drop_take)
  show "content (sb'\<lparr>gend := e\<rparr>) = content sb'"
    by (simp add: content_def)
qed

lemma write_bytes_ok:
  assumes "sb_inv sb" and "in_size sb + length bs \<le> 2 ^ 63" and "length bs < 2 ^ 31"
  shows "\<exists>sb'. write_bytes bs sb = Inr sb' \<and> sb_inv sb' \<and> content sb' = content sb @ bs"
proof -
  obtain s1 where s1: "reserve (length bs) sb = Inr s1" "sb_inv s1" "content s1 = content sb"
    "length bs \<le> pend s1 - pnext s1"
    using reserve_ok [OF assms(1,2)] by blast
  then show ?thesis
    using stored_content [OF s1(2,4)] assms(3)
    by (simp add: write_bytes_def store_ok bump_small)
qed

text \<open>\<open>memcpy\<close> into the prepared area followed by \<open>commit\<close>, as the string packer and
  \<open>append\<close> do it.\<close>

lemma prepare_commit_ok:
  assumes "sb_inv sb" and "in_size sb + length bs \<le> 2 ^ 63" and "length bs < 2 ^ 31"
  shows "\<exists>p s1 sb'. prepare (length bs) sb = Inr (p, s1) \<and>
    bind_result (store p bs s1) (commit (length bs)) = Inr sb' \<and> sb_inv sb' \<and> content sb' = content sb @ bs"
proof -
  obtain s1 where s1: "reserve (length bs) sb = Inr s1" "sb_inv s1" "content s1 = content sb"
    "length bs \<le> pend s1 - pnext s1"
    using reserve_ok [OF assms(1,2)] by blast
  moreover have "\<not> pnext s1 + length bs > pend s1"
    using s1(4) sb_invD(3) [OF s1(2)] by linarith
  ultimately show ?thesis
    using stored_content [OF s1(2,4)] assms(3)
    by (simp add: prepare_def commit_def beyond_def store_ok bump_small)
qed

lemma consume_ok:
  assumes inv: "sb_inv sb" and le: "n \<le> in_size sb" and "n < 2 ^ 31"
  shows "\<exists>sb'. consume n sb = Inr sb' \<and> sb_inv sb' \<and> content sb' = drop n (content sb)
    \<and> mark sb' = mark sb \<and> buffer sb' = buffer sb \<and> pnext sb' = pnext sb"
proof -
  have "\<not> gnext sb + n > pnext sb"
    using le sb_invD [OF inv] by (simp add: in_size_def)
  then show ?thesis
    using inv le assms(3) sb_invD [OF inv]
    by (auto simp: consume_def beyond_def bump_small sb_inv_def content_def drop_take in_size_def Let_def
        add.commute split: option.splits)
qed

lemma fetch_front:
  assumes "sb_inv sb" and "n \<le> in_size sb"
  shows "fetch (gnext sb) n sb = Inr (take n (content sb))"
  using assms(2) sb_invD [OF assms(1)] by (simp add: fetch_def content_def in_size_def min_def)

lemma read_ok:
  assumes "sb_inv sb" and "n \<le> in_size sb" and "n < 2 ^ 31"
  shows "\<exists>sb'. read n sb = Inr (take n (content sb), sb') \<and> sb_inv sb' \<and> content sb' = drop n (content sb)
    \<and> mark sb' = mark sb \<and> buffer sb' = buffer sb \<and> pnext sb' = pnext sb"
  using consume_ok [OF assms] assms(2) by (auto simp: read_def fetch_front [OF assms(1)] min_def)

subsection \<open>Typed reads and writes\<close>

lemma read_checked_ok:
  assumes "sb_inv sb" and "content sb = bs @ rest" and "length bs = n" and "n < 2 ^ 31"
  shows "\<exists>sb'. (\<forall>msg. read_checked n msg sb = Inr (bs, sb')) \<and> sb_inv sb' \<and> content sb' = rest"
proof -
  have "n \<le> in_size sb"
    using assms(2,3) length_content [OF assms(1)] by simp
  with read_ok [OF assms(1) this assms(4)] assms(2,3) show ?thesis
    by (auto simp: read_checked_def)
qed

lemma read_checked_short:
  assumes "in_size sb < n"
  shows "read_checked n msg sb = Inl (Not_enough_error msg)"
  using assms by (simp add: read_checked_def)

lemma read_back:
  assumes inv: "sb_inv sb"
  shows "content sb = b # rest \<Longrightarrow> \<exists>sb'. read_uint8 le sb = Inr (b, sb') \<and> sb_inv sb' \<and> content sb' = rest"
    and "content sb = be_bytes16 v @ rest \<Longrightarrow>
      \<exists>sb'. read_uint16 le sb = Inr (v, sb') \<and> sb_inv sb' \<and> content sb' = rest"
    and "content sb = be_bytes32 w @ rest \<Longrightarrow>
      \<exists>sb'. read_uint32 le sb = Inr (w, sb') \<and> sb_inv sb' \<and> content sb' = rest"
    and "content sb = be_bytes64 x @ rest \<Longrightarrow>
      \<exists>sb'. read_uint64 le sb = Inr (x, sb') \<and> sb_inv sb' \<and> content sb' = rest"
    and "content sb = host_bytes32 le w @ rest \<Longrightarrow>
      \<exists>sb'. read_float le sb = Inr (w, sb') \<and> sb_inv sb' \<and> content sb' = rest"
    and "content sb = host_bytes64 le x @ rest \<Longrightarrow>
      \<exists>sb'. read_double le sb = Inr (x, sb') \<and> sb_inv sb' \<and> content sb' = rest"
proof -
  show "\<exists>sb'. read_uint8 le sb = Inr (b, sb') \<and> sb_inv sb' \<and> content sb' = rest" if "content sb = b # rest"
    using read_checked_ok [OF inv, of "[b]" rest 1] that
    by (auto simp: read_uint8_def host_value_def be_value_def)
  show "\<exists>sb'. read_uint16 le sb = Inr (v, sb') \<and> sb_inv sb' \<and> content sb' = rest"
    if "content sb = be_bytes16 v @ rest"
    using read_checked_ok [OF inv that, of 2] by (auto simp: read_uint16_def ntoh_host_value_be_bytes)
  show "\<exists>sb'. read_uint32 le sb = Inr (w, sb') \<and> sb_inv sb' \<and> content sb' = rest"
    if "content sb = be_bytes32 w @ rest"
    using read_checked_ok [OF inv that, of 4] by (auto simp: read_uint32_def ntoh_host_value_be_bytes)
  show "\<exists>sb'. read_uint64 le sb = Inr (x, sb') \<and> sb_inv sb' \<and> content sb' = rest"
    if "content sb = be_bytes64 x @ rest"
    using read_checked_ok [OF inv that, of 8] by (auto simp: read_uint64_def ntoh_host_value_be_bytes)
  show "\<exists>sb'. read_float le sb = Inr (w, sb') \<and> sb_inv sb' \<and> content sb' = rest"
    if "content sb = host_bytes32 le w @ rest"
    using read_checked_ok [OF inv that, of 4] by (auto simp: read_float_def)
  show "\<exists>sb'. read_double le sb = Inr (x, sb') \<and> sb_inv sb' \<and> content sb' = rest"
    if "content sb = host_bytes64 le x @ rest"
    using read_checked_ok [OF inv that, of 8] by (auto simp: read_double_def)
qed

lemma signed_reads:
  "in_size sb \<ge> 1 \<Longrightarrow> read_int8 le sb = read_uint8 le sb"
  "in_size sb \<ge> 2 \<Longrightarrow> read_int16 le sb = read_uint16 le sb"
  "in_size sb \<ge> 4 \<Longrightarrow> read_int32 le sb = read_uint32 le sb"
  "in_size sb \<ge> 8 \<Longrightarrow> read_int64 le sb = read_uint64 le sb"
  by (simp_all add: read_int8_def read_uint8_def read_int16_def read_uint16_def read_int32_def
      read_uint32_def read_int64_def read_uint64_def read_checked_def)

lemma streambuf_new_inv: "sz < 2 ^ 63 \<Longrightarrow> sb_inv (streambuf_new sz) \<and> content (streambuf_new sz) = []"
  by (auto simp: streambuf_new_def sb_inv_def content_def min_size_def Let_def)

lemma pool_reset_inv: "sb_inv sb \<Longrightarrow> sb_inv (pool_reset sz sb) \<and> content (pool_reset sz sb) = []"
  by (auto simp: pool_reset_def sb_inv_def content_def)

subsection \<open>Mark and reset\<close>

lemma mark_read_reset:
  assumes "sb_inv sb" and "n \<le> in_size sb" and "n < 2 ^ 31"
  shows "\<exists>sb'. read n (set_mark sb) = Inr (take n (content sb), sb') \<and> content sb' = drop n (content sb)
    \<and> content (reset sb') = content sb \<and> sb_inv (reset sb')"
proof -
  let ?m = "set_mark sb"
  have inv: "sb_inv ?m" and size: "n \<le> in_size ?m" and same: "content ?m = content sb"
    using assms(1,2) by (auto simp: set_mark_def sb_inv_def in_size_def content_def)
  obtain s1 where s1: "read n ?m = Inr (take n (content ?m), s1)" "sb_inv s1" "content s1 = drop n (content ?m)"
    "mark s1 = Some (gnext sb)" "buffer s1 = buffer sb" "pnext s1 = pnext sb"
    using read_ok [OF inv size assms(3)] by (auto simp: set_mark_def)
  then have "content (reset s1) = content sb" "sb_inv (reset s1)"
    using sb_invD [OF assms(1)] by (auto simp: reset_def content_def sb_inv_def)
  with s1 same show ?thesis by auto
qed

section \<open>The contract of a byte sink\<close>

text \<open>
  What a packer needs of its destination: an operation that appends bytes to an abstract content
  and keeps the invariant, as long as the destination stays below \<open>capacity\<close> and one
  chunk below \<open>chunk\<close>. \<open>appends f bs\<close> says that a routine appends exactly \<open>bs\<close>;
  the packers are compositions of such routines.
\<close>

locale byte_sink =
  fixes sink_inv :: "'s \<Rightarrow> bool"
    and sink_content :: "'s \<Rightarrow> u8 list"
    and put :: "u8 list \<Rightarrow> 's \<Rightarrow> 's result"
    and capacity :: nat
    and chunk :: nat
  assumes put_ok: "sink_inv s \<Longrightarrow> length (sink_content s) + length bs \<le> capacity \<Longrightarrow> length bs < chunk \<Longrightarrow>
      \<exists>s'. put bs s = Inr s' \<and> sink_inv s' \<and> sink_content s' = sink_content s @ bs"
    and chunk_pos: "1 < chunk"
begin

definition appends :: "('s \<Rightarrow> 's result) \<Rightarrow> u8 list \<Rightarrow> bool" where
  "appends f bs \<longleftrightarrow> (\<forall>s. sink_inv s \<longrightarrow> length (sink_content s) + length bs \<le> capacity \<longrightarrow>
     (\<exists>s'. f s = Inr s' \<and> sink_inv s' \<and> sink_content s' = sink_content s @ bs))"

lemma appendsD:
  assumes "appends f bs" and "sink_inv s" and "length (sink_content s) + length bs \<le> capacity"
  shows "\<exists>s'. f s = Inr s' \<and> sink_inv s' \<and> sink_content s' = sink_content s @ bs"
  using assms by (auto simp: appends_def)

lemma appends_put: "length bs < chunk \<Longrightarrow> appends (put bs) bs"
  using put_ok by (auto simp: appends_def)

lemma appends_byte: "appends (put [b]) [b]"
  using chunk_pos by (simp add: appends_put)

lemma appends_nil: "appends Inr []"
  by (simp add: appends_def)

lemma appends_bind:
  assumes f: "appends f bs" and g: "appends g cs" and ds: "ds = bs @ cs"
  shows "appends (\<lambda>s. bind_result (f s) g) ds"
  unfolding appends_def
proof (intro allI impI)
  fix s
  assume inv: "sink_inv s" and room: "length (sink_content s) + length ds \<le> capacity"
  obtain s1 where s1: "f s = Inr s1" "sink_inv s1" "sink_content s1 = sink_content s @ bs"
    using appendsD [OF f inv] room ds by auto
  moreover obtain s2 where "g s1 = Inr s2" "sink_inv s2" "sink_content s2 = sink_content s1 @ cs"
    using appendsD [OF g s1(2)] s1(3) room ds by auto
  ultimately show "\<exists>s'. bind_result (f s) g = Inr s' \<and> sink_inv s' \<and> sink_content s' = sink_content s @ ds"
    using ds by simp
qed

end

lemma content_room:
  "sb_inv sb \<Longrightarrow> length (content sb) + n \<le> 2 ^ 63 \<Longrightarrow> in_size sb + n \<le> 2 ^ 63"
  by (simp add: length_content)

interpretation sb_sink: byte_sink sb_inv content write_bytes "2 ^ 63" "2 ^ 31"
proof
  fix s :: streambuf and bs :: "u8 list"
  assume "sb_inv s" "length (content s) + length bs \<le> 2 ^ 63" "length bs < 2 ^ 31"
  then show "\<exists>s'. write_bytes bs s = Inr s' \<and> sb_inv s' \<and> content s' = content s @ bs"
    by (simp only: write_bytes_ok content_room)
qed simp

section \<open>Sequences of calls\<close>

datatype sb_call =
    Call_write "u8 list"
  | Call_read nat
  | Call_prepare nat
  | Call_commit nat
  | Call_consume nat
  | Call_mark
  | Call_reset
  | Call_pool_reset nat
  | Call_underflow
  | Call_overflow "u8 option"

fun sb_exec :: "sb_call \<Rightarrow> streambuf \<Rightarrow> streambuf result" where
  "sb_exec (Call_write bs) sb = write_bytes bs sb"
| "sb_exec (Call_read n) sb = bind_result (read n sb) (\<lambda>(bs, sb). Inr sb)"
| "sb_exec (Call_prepare n) sb = bind_result (prepare n sb) (\<lambda>(p, sb). Inr sb)"
| "sb_exec (Call_commit n) sb = commit n sb"
| "sb_exec (Call_consume n) sb = consume n sb"
| "sb_exec Call_mark sb = Inr (set_mark sb)"
| "sb_exec Call_reset sb = Inr (reset sb)"
| "sb_exec (Call_pool_reset n) sb = Inr (pool_reset n sb)"
| "sb_exec Call_underflow sb = bind_result (underflow sb) (\<lambda>(c, sb). Inr sb)"
| "sb_exec (Call_overflow c) sb = overflow c sb"

fun sb_run :: "sb_call list \<Rightarrow> streambuf \<Rightarrow> streambuf result" where
  "sb_run [] sb = Inr sb"
| "sb_run (c # cs) sb = bind_result (sb_exec c sb) (sb_run cs)"

text \<open>The bytes that \<open>write\<close> adds and the request of \<open>prepare\<close> are below 2 GiB; the sizes given to \<open>commit\<close> and
  \<open>consume\<close> may be any that the pointers can be moved by, and the size given to \<open>read\<close> any at all.\<close>

fun call_allowed :: "sb_call \<Rightarrow> bool" where
  "call_allowed (Call_write bs) \<longleftrightarrow> length bs < 2 ^ 31"
| "call_allowed (Call_prepare n) \<longleftrightarrow> n < 2 ^ 31"
| "call_allowed (Call_commit n) \<longleftrightarrow> n < 2 ^ 63"
| "call_allowed (Call_consume n) \<longleftrightarrow> n < 2 ^ 63"
| "call_allowed _ \<longleftrightarrow> True"

text \<open>Buffers below 2 GiB, where the casts to \<open>int\<close> lose nothing.\<close>

definition small_buffer :: "streambuf \<Rightarrow> bool" where
  "small_buffer sb \<longleftrightarrow> alloc_size sb < 2 ^ 31"

lemma small_sizes:
  assumes "sb_inv sb" and "small_buffer sb"
  shows "in_size sb < 2 ^ 31" "pend sb < 2 ^ 31" "pend sb - pnext sb < 2 ^ 31"
  using assms sb_invD [OF assms(1)] by (auto simp: small_buffer_def alloc_size_def in_size_def)

lemma commit_inv:
  assumes inv: "sb_inv sb" and small: "small_buffer sb" and "n < 2 ^ 63"
  shows "\<exists>sb'. commit n sb = Inr sb' \<and> sb_inv sb'"
proof -
  define k where "k = (if pnext sb + n > pend sb then pend sb - pnext sb else n)"
  have k: "pnext sb + k \<le> pend sb" "k < 2 ^ 31"
    using small_sizes [OF inv small] sb_invD(3) [OF inv] by (auto simp: k_def)
  then have "commit n sb = Inr (sb\<lparr>pnext := pnext sb + k, gend := pnext sb + k\<rparr>)"
    using assms(3) by (simp add: commit_def beyond_def k_def [symmetric] bump_small)
  then show ?thesis
    using inv k(1) sb_invD [OF inv] by (auto simp: sb_inv_def split: option.splits)
qed

lemma consume_inv:
  assumes inv: "sb_inv sb" and small: "small_buffer sb" and "n < 2 ^ 63"
  shows "\<exists>sb'. consume n sb = Inr sb' \<and> sb_inv sb'"
proof (cases "n \<le> in_size sb")
  case True
  then show ?thesis
    using consume_ok [OF inv True] small_sizes [OF inv small] by auto
next
  case False
  then have "consume n sb = consume (in_size sb) sb"
    using sb_invD [OF inv] assms(3) small_sizes(1) [OF inv small]
    by (auto simp: consume_def beyond_def in_size_def Let_def)
  then show ?thesis
    using consume_ok [OF inv, of "in_size sb"] small_sizes [OF inv small] by auto
qed

lemma read_inv:
  assumes inv: "sb_inv sb" and small: "small_buffer sb"
  shows "\<exists>bs sb'. read n sb = Inr (bs, sb') \<and> sb_inv sb'"
proof -
  let ?k = "min (in_size sb) n"
  have "read n sb = read ?k sb"
    by (simp add: read_def)
  moreover have "?k \<le> in_size sb" "?k < 2 ^ 31"
    using small_sizes(1) [OF inv small] by auto
  ultimately show ?thesis
    using read_ok [OF inv] by metis
qed

lemma overflow_inv:
  assumes inv: "sb_inv sb" and "in_size sb + 1 \<le> 2 ^ 63"
  shows "\<exists>sb'. overflow c sb = Inr sb' \<and> sb_inv sb'"
proof (cases c)
  case None
  with inv show ?thesis by (simp add: overflow_def)
next
  case (Some b)
  obtain s1 where s1: "(if pnext sb = pend sb then reserve 1 sb else Inr sb) = Inr s1" "sb_inv s1"
    "1 \<le> pend s1 - pnext s1"
  proof (cases "pnext sb = pend sb")
    case True
    then show ?thesis using reserve_ok [OF inv assms(2)] that by auto
  next
    case False
    then show ?thesis using inv sb_invD(3) [OF inv] that [of sb] by simp
  qed
  with stored_content(1) [of s1 "[b]"] store_ok [of s1 "[b]"] show ?thesis
    by (simp add: overflow_def Some bump_small)
qed

lemma mark_reset_inv: "sb_inv sb \<Longrightarrow> sb_inv (set_mark sb)" "sb_inv sb \<Longrightarrow> sb_inv (reset sb)"
  by (auto simp: set_mark_def reset_def sb_inv_def split: option.splits)

lemma sb_exec_inv:
  assumes inv: "sb_inv sb" and small: "small_buffer sb" and size: "call_allowed c"
  shows "\<exists>sb'. sb_exec c sb = Inr sb' \<and> sb_inv sb'"
proof -
  have room: "k < 2 ^ 31 \<Longrightarrow> in_size sb + k \<le> 2 ^ 63" for k
    using small_sizes(1) [OF inv small] by simp
  show ?thesis
  proof (cases c)
    case (Call_write bs)
    then show ?thesis
      using write_bytes_ok [OF inv, of bs] room size by auto
  next
    case (Call_read n)
    then show ?thesis using read_inv [OF inv small, of n] by auto
  next
    case (Call_prepare n)
    then show ?thesis
      using reserve_ok [OF inv, of n] room [of n] size by (auto simp: prepare_def)
  next
    case (Call_overflow x)
    then show ?thesis using overflow_inv [OF inv] room [of 1] by auto
  next
    case Call_underflow
    then show ?thesis
      using inv sb_invD [OF inv] by (auto simp: underflow_def fetch_def sb_inv_def split: option.splits)
  next
    case (Call_commit n)
    then show ?thesis using commit_inv [OF inv small] size by simp
  next
    case (Call_consume n)
    then show ?thesis using consume_inv [OF inv small] size by simp
  qed (simp_all add: mark_reset_inv pool_reset_inv inv)
qed

text \<open>The states a program can bring a buffer into with these calls, below 2 GiB.\<close>

inductive sb_reachable :: "streambuf \<Rightarrow> bool" where
  reach_new: "sz < 2 ^ 31 \<Longrightarrow> sb_reachable (streambuf_new sz)"
| reach_call: "sb_reachable sb \<Longrightarrow> small_buffer sb \<Longrightarrow> call_allowed c \<Longrightarrow> sb_exec c sb = Inr sb' \<Longrightarrow>
    sb_reachable sb'"

lemma sb_reachable_inv: "sb_reachable sb \<Longrightarrow> sb_inv sb"
proof (induction rule: sb_reachable.induct)
  case (reach_new sz)
  then show ?case using streambuf_new_inv [of sz] by simp
next
  case (reach_call sb c sb')
  then show ?case using sb_exec_inv [of sb c] by auto
qed

lemma sb_append_ok:
  assumes inv: "sb_inv sb" and other: "sb_inv oth" and "in_size oth < 2 ^ 31"
    and room: "in_size sb + in_size oth \<le> 2 ^ 63"
  shows "\<exists>sb' oth'. sb_append sb oth = Inr (sb', oth') \<and> sb_inv sb' \<and> sb_inv oth' \<and>
    content sb' = content sb @ content oth \<and> content oth' = []"
proof -
  have len: "length (content oth) = in_size oth" by (rule length_content [OF other])
  have "fetch (gnext oth) (in_size oth) oth = Inr (content oth)"
    using fetch_front [OF other le_refl] len by simp
  moreover obtain p s1 sb' where "prepare (in_size oth) sb = Inr (p, s1)"
    "bind_result (store p (content oth) s1) (commit (in_size oth)) = Inr sb'" "sb_inv sb'"
    "content sb' = content sb @ content oth"
    using prepare_commit_ok [OF inv, of "content oth"] assms len by auto
  moreover obtain oth' where "consume (in_size oth) oth = Inr oth'" "sb_inv oth'" "content oth' = []"
    using consume_ok [OF other le_refl assms(3)] len by auto
  ultimately show ?thesis
    by (auto simp: sb_append_def prepare_def bind_result_eq_Inr Let_def)
qed

section \<open>Properties\<close>

text \<open>C7: A \<open>streambuf\<close> is a byte queue. Whatever the buffer has to do to make room (move, double,
  shrink), \<open>write\<close> appends to the unread bytes and \<open>read\<close> takes from their front.\<close>

theorem streambuf_is_queue:
  assumes "sb_inv sb" and "in_size sb + length bs < 2 ^ 31" and "n \<le> in_size sb + length bs"
  shows "\<exists>sb1 sb2. write_bytes bs sb = Inr sb1 \<and> content sb1 = content sb @ bs \<and>
    read n sb1 = Inr (take n (content sb @ bs), sb2) \<and> content sb2 = drop n (content sb @ bs) \<and> sb_inv sb2"
proof -
  obtain sb1 where w: "write_bytes bs sb = Inr sb1" "sb_inv sb1" "content sb1 = content sb @ bs"
    using write_bytes_ok [OF assms(1), of bs] assms(2) by auto
  have "n \<le> in_size sb1"
    using assms length_content [OF w(2)] length_content [OF assms(1)] w(3) by simp
  then obtain sb2 where "read n sb1 = Inr (take n (content sb1), sb2)" "sb_inv sb2" "content sb2 = drop n (content sb1)"
    using read_ok [OF w(2), of n] assms by auto
  with w show ?thesis by auto
qed

theorem streambuf_is_queue_witness:
  "\<exists>sb1 sb2. write_bytes [1, 2, 3] (streambuf_new 0) = Inr sb1 \<and> content sb1 = [1, 2, 3] \<and>
    read 2 sb1 = Inr ([1, 2], sb2) \<and> content sb2 = [3] \<and> sb_inv sb2"
  using streambuf_is_queue [of "streambuf_new 0" "[1, 2, 3]" 2] streambuf_new_inv [of 0]
    length_content [of "streambuf_new 0"] by simp

text \<open>C8: Typed integers survive the wire between hosts of any byte order: what \<open>write_uint16\<close>,
  \<open>write_uint32\<close> and \<open>write_uint64\<close> put into a buffer on a host of byte order \<open>le\<close> is
  big-endian, and a host of byte order \<open>le'\<close> that is handed those bytes reads the same integers in
  the same order.\<close>

theorem typed_wire_roundtrip:
  assumes "sb_inv sb" and "content sb = []"
  shows "\<exists>s1 s2 s3. write_uint16 le a sb = Inr s1 \<and> write_uint32 le b s1 = Inr s2 \<and> write_uint64 le c s2 = Inr s3 \<and>
    content s3 = be_bytes16 a @ be_bytes32 b @ be_bytes64 c \<and>
    (\<exists>d1 d2 d3. read_uint16 le' s3 = Inr (a, d1) \<and> read_uint32 le' d1 = Inr (b, d2) \<and>
       read_uint64 le' d2 = Inr (c, d3) \<and> content d3 = [])"
proof -
  obtain s1 where s1: "write_uint16 le a sb = Inr s1" "sb_inv s1" "content s1 = be_bytes16 a"
    using write_bytes_ok [OF assms(1), of "be_bytes16 a"] length_content [OF assms(1)] assms(2)
    by (auto simp: write_uint16_def host_bytes_hton)
  obtain s2 where s2: "write_uint32 le b s1 = Inr s2" "sb_inv s2" "content s2 = be_bytes16 a @ be_bytes32 b"
    using write_bytes_ok [OF s1(2), of "be_bytes32 b"] length_content [OF s1(2)] s1(3)
    by (auto simp: write_uint32_def host_bytes_hton)
  obtain s3 where s3: "write_uint64 le c s2 = Inr s3" "sb_inv s3"
      "content s3 = be_bytes16 a @ be_bytes32 b @ be_bytes64 c"
    using write_bytes_ok [OF s2(2), of "be_bytes64 c"] length_content [OF s2(2)] s2(3)
    by (auto simp: write_uint64_def host_bytes_hton)
  obtain d1 where d1: "read_uint16 le' s3 = Inr (a, d1)" "sb_inv d1" "content d1 = be_bytes32 b @ be_bytes64 c"
    using read_back(2) [OF s3(2,3)] by force
  obtain d2 where d2: "read_uint32 le' d1 = Inr (b, d2)" "sb_inv d2" "content d2 = be_bytes64 c @ []"
    using read_back(3) [OF d1(2,3)] by force
  obtain d3 where "read_uint64 le' d2 = Inr (c, d3)" "content d3 = []"
    using read_back(4) [OF d2(2,3)] by blast
  with s1 s2 s3 d1 d2 show ?thesis by blast
qed

theorem typed_wire_roundtrip_witness:
  "\<exists>s1 s2 s3. write_uint16 True 0x1234 (streambuf_new 0) = Inr s1 \<and> write_uint32 True 5 s1 = Inr s2 \<and>
    write_uint64 True 6 s2 = Inr s3 \<and> content s3 = be_bytes16 0x1234 @ be_bytes32 5 @ be_bytes64 6 \<and>
    (\<exists>d1 d2 d3. read_uint16 False s3 = Inr (0x1234, d1) \<and> read_uint32 False d1 = Inr (5, d2) \<and>
       read_uint64 False d2 = Inr (6, d3) \<and> content d3 = [])"
  by (rule typed_wire_roundtrip) (use streambuf_new_inv [of 0] in simp_all)

text \<open>C9: No reachable buffer below 2 GiB faults: the untyped calls of the class, in any order, keep the pointers in order
  and stay inside the allocation, when what is written or asked for is below 2 GiB and the sizes given to \<open>commit\<close>
  and \<open>consume\<close> are below \<open>2 ^ 63\<close>, so that the pointer sums of their tests do not wrap around.\<close>

theorem streambuf_safe:
  assumes "sb_reachable sb" and "small_buffer sb" and "call_allowed c"
  shows "\<exists>sb'. sb_exec c sb = Inr sb' \<and> sb_inv sb'"
  by (rule sb_exec_inv [OF sb_reachable_inv [OF assms(1)] assms(2,3)])

theorem streambuf_safe_witness:
  "\<exists>sb'. sb_exec (Call_consume 7) (streambuf_new 4096) = Inr sb' \<and> sb_inv sb'"
proof (rule streambuf_safe)
  show "sb_reachable (streambuf_new 4096)" by (rule reach_new) simp
qed (simp_all add: small_buffer_def alloc_size_def streambuf_new_def min_size_def)

text \<open>\<open>mark\<close>, any amount of reading, then \<open>reset\<close> gives back exactly the bytes that were
  unread at the mark.\<close>

theorem mark_reset_restores:
  assumes "sb_inv sb" and "n \<le> in_size sb" and "n < 2 ^ 31"
  shows "\<exists>sb'. read n (set_mark sb) = Inr (take n (content sb), sb') \<and> content (reset sb') = content sb"
  using mark_read_reset [OF assms] by blast

theorem mark_reset_restores_witness:
  "\<exists>sb'. read 0 (set_mark (streambuf_new 0)) = Inr ([], sb') \<and> content (reset sb') = []"
  using mark_reset_restores [of "streambuf_new 0" 0] streambuf_new_inv [of 0] by simp

text \<open>\<open>append\<close> moves all unread bytes of the other buffer behind its own and empties the other.\<close>

theorem append_moves:
  assumes "sb_inv sb" and "sb_inv oth" and "in_size sb + in_size oth < 2 ^ 31"
  shows "\<exists>sb' oth'. sb_append sb oth = Inr (sb', oth') \<and> sb_inv sb' \<and> sb_inv oth' \<and>
    content sb' = content sb @ content oth \<and> content oth' = []"
  using assms by (intro sb_append_ok) simp_all

theorem append_moves_witness:
  "\<exists>sb' oth'. sb_append (streambuf_new 0) (streambuf_new 200) = Inr (sb', oth') \<and> sb_inv sb' \<and> sb_inv oth' \<and>
    content sb' = [] \<and> content oth' = []"
  using append_moves [of "streambuf_new 0" "streambuf_new 200"] streambuf_new_inv [of 0] streambuf_new_inv [of 200]
    length_content [of "streambuf_new 0"] length_content [of "streambuf_new 200"] by simp

text \<open>C38: \<open>reserve\<close> never allocates more than it has or than twice the bytes that are kept and asked for; when it
  gives memory back it halves the allocation, still has room, and does not go below the base size.\<close>

theorem reserve_bounds:
  assumes "sb_inv sb" and "reserve n sb = Inr sb'"
  shows "length (buffer sb') \<le> max (length (buffer sb)) (2 * (in_size sb + n)) \<and>
    (length (buffer sb') < length (buffer sb) \<longrightarrow>
      length (buffer sb') = length (buffer sb) div 2 \<and> base_size sb \<le> length (buffer sb') \<and>
      in_size sb + n < length (buffer sb'))"
proof (cases "n \<le> pend sb - pnext sb")
  case True
  then show ?thesis using assms(2) by (simp add: reserve_def)
next
  case False
  note moves = reserve_moves [OF assms(1) False] and facts = shifted_facts [OF assms(1)]
  have len: "length (buffer sb) = pend sb" "0 < pend sb" using sb_invD(4,6) [OF assms(1)] by simp_all
  show ?thesis
  proof (cases "n > pend sb - kept_size sb")
    case True
    obtain p where p: "grow_pend n (kept_size sb) (pend sb) = Some p" "pend sb \<le> p"
      using grow_pend_returns [OF len(2)] by blast
    then have "length (buffer sb') = p"
      using assms(2) True len by (auto simp: moves repositioned_def split: if_splits)
    then show ?thesis using p grow_pend_bound [OF p(1)] len facts(3) by (simp add: add.commute)
  next
    case False
    then show ?thesis
      using assms(2) len facts by (auto simp: moves repositioned_def split: if_splits)
  qed
qed

theorem reserve_bounds_witness:
  "\<exists>sb'. reserve 5000 (streambuf_new 4096) = Inr sb' \<and> length (buffer sb') \<le> max (length (buffer (streambuf_new 4096))) 10000"
proof -
  have inv: "sb_inv (streambuf_new 4096)" and size: "in_size (streambuf_new 4096) = 0"
    using streambuf_new_inv [of 4096] by (simp_all add: in_size_def streambuf_new_def Let_def)
  obtain sb' where "reserve 5000 (streambuf_new 4096) = Inr sb'"
    using reserve_ok [OF inv, of 5000] size by auto
  with reserve_bounds [OF inv this] size show ?thesis by auto
qed

end
