(* ===== verification/Json_Number.thy ===== *)
theory Json_Number
  imports Json_Base Libc_Number Streambuf
begin

text \<open>
  \<open>src/include/shan/json/number.h\<close>. A \<open>number\<close> is a flag, a 64-bit union read as
  \<open>int64_t\<close> or as \<open>double\<close> (here its bit pattern), and the text it prints. The host's byte
  order is the argument \<open>le\<close> where the code calls \<open>hton64\<close>, \<open>ntoh32\<close> or \<open>ntoh64\<close>.

  Shown: the MessagePack form of every number reads back, whatever follows it; packing to a
  \<open>streambuf\<close> appends the bytes that packing to a vector appends; the text of an integer parses
  back; parsing a text whose digits are a JSON number consumes exactly that number.
\<close>

record number =
  integral :: bool
  val :: u64
  str_rep :: string

section \<open>Construction\<close>

definition number_default :: number where
  "number_default = \<lparr>integral = True, val = 0, str_rep = []\<rparr>"

text \<open>\<open>str.find_last_not_of('0')\<close>: \<open>None\<close> is \<open>npos\<close>.\<close>

definition find_last_not_of :: "char \<Rightarrow> string \<Rightarrow> nat option" where
  "find_last_not_of c s =
     (let n = length (dropWhile (\<lambda>x. x = c) (rev s)) in if n = 0 then None else Some (n - 1))"

definition double_to_string :: "u64 \<Rightarrow> string result" where
  "double_to_string d =
     (let str = format_15f d in
      if length str + 1 > 64 then Inl (Undefined Buffer_overflow)
      else case find_last_not_of (CHR ''0'') str of
        None \<Rightarrow> Inl (Undefined Out_of_bounds)
      | Some pos \<Rightarrow>
          Inr (if str ! pos = CHR ''.'' \<and> pos < length str - 1 then take (pos + 2) str
               else take (pos + 1) str))"

definition number_of_int :: "u64 \<Rightarrow> number" where
  "number_of_int i = \<lparr>integral = True, val = i, str_rep = to_string (sint i)\<rparr>"

definition number_of_real :: "u64 \<Rightarrow> number result" where
  "number_of_real d =
     bind_result (double_to_string d) (\<lambda>s. Inr \<lparr>integral = False, val = d, str_rep = s\<rparr>)"

definition int_val :: "number \<Rightarrow> u64 result" where
  "int_val num = (if integral num then Inr (val num) else int64_of_double (val num))"

definition real_val :: "number \<Rightarrow> u64" where
  "real_val num = (if integral num then double_of_int64 (val num) else val num)"

definition number_str :: "number \<Rightarrow> string" where
  "number_str num = str_rep num"

section \<open>MessagePack\<close>

text \<open>\<open>static_cast<uint8_t>((v >> n) & 0xff)\<close>\<close>

definition byte_at :: "nat \<Rightarrow> u64 \<Rightarrow> u8" where
  "byte_at n v = ucast (drop_bit n v AND 0xff)"

definition number_pack :: "bool \<Rightarrow> number \<Rightarrow> u8 list \<Rightarrow> u8 list" where
  "number_pack le num packed =
     (let v = val num; i = sint v in
      if integral num then
        if i \<ge> -32 \<and> i \<le> 127 then packed @ [ucast v]
        else if i \<ge> -128 \<and> i \<le> 127 then packed @ [0xd0, byte_at 0 v]
        else if i \<ge> -32768 \<and> i \<le> 32767 then packed @ [0xd1, byte_at 8 v, byte_at 0 v]
        else if i \<ge> -2147483648 \<and> i \<le> 2147483647
        then packed @ [0xd2, byte_at 24 v, byte_at 16 v, byte_at 8 v, byte_at 0 v]
        else packed @ [0xd3, byte_at 56 v, byte_at 48 v, byte_at 40 v, byte_at 32 v,
          byte_at 24 v, byte_at 16 v, byte_at 8 v, byte_at 0 v]
      else
        let temp = hton64 le v in
        packed @ [0xcb,
          ucast (drop_bit 56 (temp AND 0xff00000000000000)),
          ucast (drop_bit 48 (temp AND 0xff000000000000)),
          ucast (drop_bit 40 (temp AND 0xff0000000000)),
          ucast (drop_bit 32 (temp AND 0xff00000000)),
          ucast (drop_bit 24 (temp AND 0xff000000)),
          ucast (drop_bit 16 (temp AND 0xff0000)),
          ucast (drop_bit 8 (temp AND 0xff00)),
          ucast (temp AND 0xff)])"

text \<open>A run of \<open>packed.write_int8(...)\<close> statements.\<close>

fun write_int8s :: "u8 list \<Rightarrow> streambuf \<Rightarrow> streambuf result" where
  "write_int8s [] sb = Inr sb"
| "write_int8s (b # bs) sb = bind_result (write_int8 b sb) (write_int8s bs)"

definition number_pack_sb :: "bool \<Rightarrow> number \<Rightarrow> streambuf \<Rightarrow> streambuf result" where
  "number_pack_sb le num packed =
     (let v = val num; i = sint v in
      if integral num then
        if i \<ge> -32 \<and> i \<le> 127 then write_int8s [ucast v] packed
        else if i \<ge> -128 \<and> i \<le> 127 then write_int8s [0xd0, byte_at 0 v] packed
        else if i \<ge> -32768 \<and> i \<le> 32767 then write_int8s [0xd1, byte_at 8 v, byte_at 0 v] packed
        else if i \<ge> -2147483648 \<and> i \<le> 2147483647
        then write_int8s [0xd2, byte_at 24 v, byte_at 16 v, byte_at 8 v, byte_at 0 v] packed
        else write_int8s [0xd3, byte_at 56 v, byte_at 48 v, byte_at 40 v, byte_at 32 v,
          byte_at 24 v, byte_at 16 v, byte_at 8 v, byte_at 0 v] packed
      else
        let temp = hton64 le v in
        write_int8s [0xcb,
          ucast (drop_bit 56 (temp AND 0xff00000000000000)),
          ucast (drop_bit 48 (temp AND 0xff000000000000)),
          ucast (drop_bit 40 (temp AND 0xff0000000000)),
          ucast (drop_bit 32 (temp AND 0xff00000000)),
          ucast (drop_bit 24 (temp AND 0xff000000)),
          ucast (drop_bit 16 (temp AND 0xff0000)),
          ucast (drop_bit 8 (temp AND 0xff00)),
          ucast (temp AND 0xff)] packed)"

text \<open>\<open>_integral\<close>, the 64 bits of the union, and the last byte read.\<close>

definition number_payload :: "bool \<Rightarrow> u8 list \<Rightarrow> ((bool \<times> u64) \<times> u8 list) result" where
  "number_payload le bytes =
     bind_result (deref bytes) (\<lambda>b.
       if b \<le> 0x7f \<or> b \<ge> 0xe0 then Inr ((True, scast b), bytes)
       else if b = 0xd0 then
         bind_result (shift_in 1 (0 :: u8) bytes) (\<lambda>(temp, it). Inr ((True, scast temp), it))
       else if b = 0xd1 then
         bind_result (shift_in 2 (0 :: u16) bytes) (\<lambda>(temp, it). Inr ((True, scast temp), it))
       else if b = 0xd2 then
         bind_result (shift_in 4 (0 :: u32) bytes) (\<lambda>(temp, it). Inr ((True, scast temp), it))
       else if b = 0xd3 then
         bind_result (shift_in 8 (0 :: u64) bytes) (\<lambda>(temp, it). Inr ((True, temp), it))
       else if b = 0xca then
         bind_result (shift_in 4 (0 :: u32) bytes) (\<lambda>(temp, it).
           Inr ((False, double_of_float (ntoh32 le temp)), it))
       else if b = 0xcb then
         bind_result (shift_in 8 (0 :: u64) bytes) (\<lambda>(temp, it). Inr ((False, ntoh64 le temp), it))
       else Inl invalid_messagepack)"

definition number_unpack :: "bool \<Rightarrow> u8 list \<Rightarrow> (number \<times> u8 list) result" where
  "number_unpack le bytes =
     bind_result (number_payload le bytes) (\<lambda>((is_int, v), it).
       if is_int then Inr (number_of_int v, tl it)
       else bind_result (number_of_real v) (\<lambda>num. Inr (num, tl it)))"

section \<open>Text\<close>

text \<open>\<open>while (isdigit(*it)) { num.push_back(*it); it++; }\<close>\<close>

fun push_digits :: "string \<Rightarrow> string \<Rightarrow> (string \<times> string) result" where
  "push_digits num [] = Inl (Undefined Out_of_bounds)"
| "push_digits num (c # it) =
     (if isdigit c then push_digits (num @ [c]) it else Inr (num, c # it))"

text \<open>A digit that must be there, and the digits after it.\<close>

definition push_digits1 :: "string \<Rightarrow> string \<Rightarrow> (string \<times> string) result" where
  "push_digits1 num it =
     bind_result (deref it) (\<lambda>c.
       if isdigit c then push_digits (num @ [c]) (tl it) else invalid_format it)"

definition number_of_text :: "bool \<Rightarrow> string \<Rightarrow> number" where
  "number_of_text is_int num =
     \<lparr>integral = is_int, val = (if is_int then strtoll num else strtod num), str_rep = num\<rparr>"

definition number_int_part :: "string \<Rightarrow> (string \<times> string) result" where
  "number_int_part it =
     bind_result (deref it) (\<lambda>c.
       if c = CHR ''-'' then push_digits1 [c] (tl it) else push_digits1 [] it)"

definition number_frac_part :: "string \<Rightarrow> string \<Rightarrow> (bool \<times> string \<times> string) result" where
  "number_frac_part num it =
     bind_result (deref it) (\<lambda>c.
       if c = CHR ''.'' then
         bind_result (push_digits1 (num @ [c]) (tl it)) (\<lambda>(num, it). Inr (False, num, it))
       else Inr (True, num, it))"

definition number_exp_part :: "bool \<Rightarrow> string \<Rightarrow> string \<Rightarrow> (bool \<times> string \<times> string) result" where
  "number_exp_part is_int num it =
     bind_result (deref it) (\<lambda>c.
       if c = CHR ''e'' \<or> c = CHR ''E'' then
         bind_result (deref (tl it)) (\<lambda>s.
         bind_result
           (if s = CHR ''-'' \<or> s = CHR ''+'' then push_digits1 (num @ [CHR ''e'', s]) (tl (tl it))
            else push_digits1 (num @ [CHR ''e'']) (tl it)) (\<lambda>(num, it).
         Inr (False, num, it)))
       else Inr (is_int, num, it))"

definition number_parse :: "string \<Rightarrow> (number \<times> string) result" where
  "number_parse json_text =
     bind_result (skip_sp json_text) (\<lambda>it.
     bind_result (number_int_part it) (\<lambda>(num, it).
     bind_result (number_frac_part num it) (\<lambda>(is_int, num, it).
     bind_result (number_exp_part is_int num it) (\<lambda>(is_int, num, it).
     Inr (number_of_text is_int num, it)))))"

section \<open>Streams\<close>

text \<open>\<open>while (isdigit(ch = is.get())) num.push_back(ch);\<close>\<close>

function get_digits :: "string \<Rightarrow> istream \<Rightarrow> string \<times> char option \<times> istream" where
  "get_digits num s =
     (let (ch, s') = get s in
      if isdigit_ch ch then get_digits (num @ [the ch]) s' else (num, ch, s'))"
  by pat_completeness auto
termination
proof (relation "measure (\<lambda>(num, s). remaining s)")
  fix num s ch s' x
  assume "x = get s" and "(ch, s') = x" and "isdigit_ch ch"
  then show "((num @ [the ch], s'), (num, s)) \<in> measure (\<lambda>(num, s). remaining s)"
    using remaining_get [of s _ s'] by (cases ch) (auto dest: sym)
qed simp

declare get_digits.simps [simp del]

definition get_digits1 :: "string \<Rightarrow> char option \<Rightarrow> istream \<Rightarrow> (string \<times> char option \<times> istream) result" where
  "get_digits1 num ch s =
     (if isdigit_ch ch then Inr (get_digits (num @ [the ch]) s) else invalid_format_stream ch)"

definition number_int_part_stream ::
    "char option \<Rightarrow> istream \<Rightarrow> (string \<times> char option \<times> istream) result" where
  "number_int_part_stream ch s =
     (if ch = Some (CHR ''-'') then (let (ch', s) = get s in get_digits1 [the ch] ch' s)
      else get_digits1 [] ch s)"

definition number_frac_part_stream ::
    "string \<Rightarrow> char option \<Rightarrow> istream \<Rightarrow> (bool \<times> string \<times> char option \<times> istream) result" where
  "number_frac_part_stream num ch s =
     (if ch = Some (CHR ''.'') then
        (let (ch', s) = get s in
         bind_result (get_digits1 (num @ [the ch]) ch' s) (\<lambda>(num, ch, s). Inr (False, num, ch, s)))
      else Inr (True, num, ch, s))"

definition number_exp_part_stream ::
    "bool \<Rightarrow> string \<Rightarrow> char option \<Rightarrow> istream \<Rightarrow> (bool \<times> string \<times> char option \<times> istream) result" where
  "number_exp_part_stream is_int num ch s =
     (if ch = Some (CHR ''e'') \<or> ch = Some (CHR ''E'') then
        (let (ch, s) = get s in
         bind_result
           (if ch = Some (CHR ''-'') \<or> ch = Some (CHR ''+'') then
              (let (ch', s) = get s in get_digits1 (num @ [CHR ''e'', the ch]) ch' s)
            else get_digits1 (num @ [CHR ''e'']) ch s) (\<lambda>(num, ch, s).
         Inr (False, num, ch, s)))
      else Inr (is_int, num, ch, s))"

definition number_parse_stream :: "istream \<Rightarrow> (number \<times> istream) result" where
  "number_parse_stream s =
     (let (ch, s) = skip_sp_stream s in
      bind_result (number_int_part_stream ch s) (\<lambda>(num, ch, s).
      bind_result (number_frac_part_stream num ch s) (\<lambda>(is_int, num, ch, s).
      bind_result (number_exp_part_stream is_int num ch s) (\<lambda>(is_int, num, ch, s).
      Inr (number_of_text is_int num, unget s)))))"

section \<open>MessagePack: what is read is what was packed\<close>

lemma scast_ucast_small:
  fixes w :: u64
  assumes "- (2 ^ (LENGTH('a) - 1)) \<le> sint w" and "sint w < 2 ^ (LENGTH('a) - 1)"
    and "LENGTH('a) < 64"
  shows "scast (ucast w :: 'a::len word) = w"
proof -
  have "sint (ucast w :: 'a word) = signed_take_bit (LENGTH('a) - 1) (sint w)"
    using assms(3) by (intro bit_eqI) (auto simp: bit_simps min_def not_less)
  then have "sint (ucast w :: 'a word) = sint w"
    using assms by (simp add: signed_take_bit_int_eq_self)
  then show ?thesis
    by (metis of_int_sint scast_id scast_eq)
qed

lemma byte_at_ucast: "byte_at n v = ucast (drop_bit n v)"
  unfolding byte_at_def byte_masks by (rule bit_word_eqI) (auto simp: bit_simps)

lemma payload_bytes:
  "be_bytes16 (ucast v) = [byte_at 8 v, byte_at 0 v]"
  "be_bytes32 (ucast v) = [byte_at 24 v, byte_at 16 v, byte_at 8 v, byte_at 0 v]"
  by (auto simp: byte_at_ucast be_bytes16_def be_bytes32_def bit_simps intro!: bit_word_eqI)

lemma masked_bytes:
  fixes temp :: u64
  shows "(ucast (drop_bit 56 (temp AND 0xff00000000000000)) :: u8) = byte_at 56 temp"
    "(ucast (drop_bit 48 (temp AND 0xff000000000000)) :: u8) = byte_at 48 temp"
    "(ucast (drop_bit 40 (temp AND 0xff0000000000)) :: u8) = byte_at 40 temp"
    "(ucast (drop_bit 32 (temp AND 0xff00000000)) :: u8) = byte_at 32 temp"
    "(ucast (drop_bit 24 (temp AND 0xff000000)) :: u8) = byte_at 24 temp"
    "(ucast (drop_bit 16 (temp AND 0xff0000)) :: u8) = byte_at 16 temp"
    "(ucast (drop_bit 8 (temp AND 0xff00)) :: u8) = byte_at 8 temp"
    "(ucast (temp AND 0xff) :: u8) = byte_at 0 temp"
proof -
  have top: "(0xff00000000000000 :: u64) = push_bit 56 (mask 8)"
    by (simp add: mask_eq_exp_minus_1 push_bit_eq_mult)
  show "(ucast (drop_bit 56 (temp AND 0xff00000000000000)) :: u8) = byte_at 56 temp"
    "(ucast (drop_bit 48 (temp AND 0xff000000000000)) :: u8) = byte_at 48 temp"
    "(ucast (drop_bit 40 (temp AND 0xff0000000000)) :: u8) = byte_at 40 temp"
    "(ucast (drop_bit 32 (temp AND 0xff00000000)) :: u8) = byte_at 32 temp"
    "(ucast (drop_bit 24 (temp AND 0xff000000)) :: u8) = byte_at 24 temp"
    "(ucast (drop_bit 16 (temp AND 0xff0000)) :: u8) = byte_at 16 temp"
    "(ucast (drop_bit 8 (temp AND 0xff00)) :: u8) = byte_at 8 temp"
    "(ucast (temp AND 0xff) :: u8) = byte_at 0 temp"
    unfolding top byte_masks byte_at_ucast
    by (auto simp: bit_simps intro!: bit_word_eqI dest: bit_imp_le_length)
qed

lemma be_bytes64_byte_at:
  "be_bytes64 v = [byte_at 56 v, byte_at 48 v, byte_at 40 v, byte_at 32 v,
     byte_at 24 v, byte_at 16 v, byte_at 8 v, byte_at 0 v]"
  by (simp add: be_bytes64_def byte_at_ucast)

text \<open>The bytes of a number, without the vector they are appended to.\<close>

definition number_bytes :: "bool \<Rightarrow> number \<Rightarrow> u8 list" where
  "number_bytes le num =
     (let v = val num; i = sint v in
      if integral num then
        if i \<ge> -32 \<and> i \<le> 127 then [ucast v]
        else if i \<ge> -128 \<and> i \<le> 127 then [0xd0, ucast v]
        else if i \<ge> -32768 \<and> i \<le> 32767 then 0xd1 # be_bytes16 (ucast v)
        else if i \<ge> -2147483648 \<and> i \<le> 2147483647 then 0xd2 # be_bytes32 (ucast v)
        else 0xd3 # be_bytes64 v
      else 0xcb # be_bytes64 (hton64 le v))"

lemmas number_bytes_unfold =
  number_bytes_def Let_def payload_bytes masked_bytes be_bytes64_byte_at

lemma number_pack_bytes: "number_pack le num packed = packed @ number_bytes le num"
  by (simp add: number_pack_def number_bytes_unfold byte_at_ucast)

lemma write_int8s_appends: "sb_sink.appends (write_int8s bs) bs"
proof (induction bs)
  case Nil
  then show ?case using sb_sink.appends_nil by (simp add: sb_sink.appends_def)
next
  case (Cons b bs)
  have "sb_sink.appends (\<lambda>sb. bind_result (write_int8 b sb) (write_int8s bs)) (b # bs)"
  proof (rule sb_sink.appends_bind [OF _ Cons.IH])
    show "sb_sink.appends (write_int8 b) [b]"
      unfolding write_int8_def by (rule sb_sink.appends_byte)
  qed simp
  then show ?case by simp
qed

lemma number_pack_sb_eq: "number_pack_sb le num packed = write_int8s (number_bytes le num) packed"
  by (simp add: number_pack_sb_def number_bytes_unfold byte_at_ucast del: write_int8s.simps)

lemma number_pack_sb_appends: "sb_sink.appends (number_pack_sb le num) (number_bytes le num)"
  unfolding number_pack_sb_eq by (rule write_int8s_appends)

lemma number_bytes_length: "length (number_bytes le num) \<le> 9"
  by (simp add: number_bytes_def Let_def)

lemma shift_in_value:
  "bs \<noteq> [] \<Longrightarrow> shift_in (length bs) 0 (x # bs @ rest) = Inr (be_value bs, last bs # rest)"
  by (simp add: shift_in_bytes be_value_def)

lemma be_bytes_ne [simp]: "be_bytes16 a \<noteq> []" "be_bytes32 b \<noteq> []" "be_bytes64 c \<noteq> []"
  by (simp_all add: be_bytes16_def be_bytes32_def be_bytes64_def)

lemma shift_in_be:
  "shift_in 2 (0 :: u16) (x # be_bytes16 a @ rest) = Inr (a, last (be_bytes16 a) # rest)"
  "shift_in 4 (0 :: u32) (x # be_bytes32 b @ rest) = Inr (b, last (be_bytes32 b) # rest)"
  "shift_in 8 (0 :: u64) (x # be_bytes64 c @ rest) = Inr (c, last (be_bytes64 c) # rest)"
  using shift_in_value [where ?'a = 16, of "be_bytes16 a"] shift_in_value [where ?'a = 32, of "be_bytes32 b"]
    shift_in_value [where ?'a = 64, of "be_bytes64 c"]
  by (simp_all add: be_value_be_bytes)

lemma unpack_fixint:
  fixes v :: u64
  assumes "- 32 \<le> sint v" and "sint v \<le> 127"
  shows "(ucast v :: u8) \<le> 0x7f \<or> (ucast v :: u8) \<ge> 0xe0"
proof -
  have "(ucast v :: u8) = word_of_int (sint v)"
    by (rule bit_word_eqI) (auto simp: bit_simps)
  moreover have "uint (word_of_int (sint v) :: u8) = sint v mod 256"
    by (simp only: uint_word_of_int take_bit_eq_mod) simp
  ultimately have "uint (ucast v :: u8) = sint v mod 256" by simp
  moreover have "sint v mod 256 = (if sint v < 0 then sint v + 256 else sint v)"
    using assms mod_add_self2 [of "sint v" 256] mod_pos_pos_trivial [of "sint v + 256" 256]
      mod_pos_pos_trivial [of "sint v" 256] by simp
  ultimately show ?thesis
    using assms by (auto simp: word_le_def)
qed

lemma unpack_int_cases:
  fixes v :: u64
  shows "number_unpack le (0xd0 # ucast v # rest) =
      Inr (number_of_int (scast (ucast v :: u8)), rest)"
    and "number_unpack le (0xd1 # be_bytes16 (ucast v) @ rest) =
      Inr (number_of_int (scast (ucast v :: u16)), rest)"
    and "number_unpack le (0xd2 # be_bytes32 (ucast v) @ rest) =
      Inr (number_of_int (scast (ucast v :: u32)), rest)"
    and "number_unpack le (0xd3 # be_bytes64 v @ rest) = Inr (number_of_int v, rest)"
    and "number_unpack le (0xcb # be_bytes64 (hton64 le v) @ rest) =
      bind_result (number_of_real v) (\<lambda>m. Inr (m, rest))"
  by (simp_all add: number_unpack_def number_payload_def shift_in_be)

lemma number_unpack_bytes:
  "number_unpack le (number_bytes le num @ rest) =
     (if integral num then Inr (number_of_int (val num), rest)
      else bind_result (number_of_real (val num)) (\<lambda>m. Inr (m, rest)))"
proof (cases "integral num \<and> - 32 \<le> sint (val num) \<and> sint (val num) \<le> 127")
  case True
  then have "number_bytes le num = [ucast (val num)]" and "scast (ucast (val num) :: u8) = val num"
    by (simp_all add: number_bytes_def scast_ucast_small)
  with True unpack_fixint [of "val num"] show ?thesis
    by (simp add: number_unpack_def number_payload_def)
next
  case False
  then show ?thesis
    by (auto simp: number_bytes_def Let_def unpack_int_cases scast_ucast_small)
qed

section \<open>The grammar of numbers\<close>

definition digits1 :: "string \<Rightarrow> bool" where
  "digits1 ds \<longleftrightarrow> ds \<noteq> [] \<and> list_all isdigit ds"

text \<open>
  A sign, digits, an optional fraction and an optional exponent, as \<open>number::parse\<close> stores them
  (the exponent letter always as \<open>e\<close>). The number is integral when it has neither.
\<close>

definition frac_part :: "string \<Rightarrow> bool" where
  "frac_part fp \<longleftrightarrow> fp = [] \<or> hd fp = CHR ''.'' \<and> digits1 (tl fp)"

definition exp_part :: "string \<Rightarrow> bool" where
  "exp_part ep \<longleftrightarrow> ep = [] \<or> hd ep = CHR ''e'' \<and>
     (digits1 (tl ep) \<or> (tl ep \<noteq> [] \<and> hd (tl ep) \<in> {CHR ''-'', CHR ''+''} \<and> digits1 (tl (tl ep))))"

definition number_grammar :: "bool \<Rightarrow> string \<Rightarrow> bool" where
  "number_grammar is_int num \<longleftrightarrow>
     (\<exists>sg ip fp ep. num = sg @ ip @ fp @ ep \<and> sg \<in> {[], ''-''} \<and> digits1 ip \<and>
        frac_part fp \<and> exp_part ep \<and> (is_int \<longleftrightarrow> fp = [] \<and> ep = []))"

definition number_ender :: "char \<Rightarrow> bool" where
  "number_ender c \<longleftrightarrow> \<not> isdigit c \<and> c \<notin> {CHR ''.'', CHR ''e'', CHR ''E''}"

lemma not_digits [simp]:
  "\<not> isdigit (CHR ''.'')" "\<not> isdigit (CHR ''e'')" "\<not> isdigit (CHR ''E'')" "\<not> isdigit (CHR ''-'')"
  "\<not> isdigit (CHR ''+'')" "\<not> isdigit (CHR 0x00)"
  by (simp_all add: isdigit_def)

lemma digit_not_space: "isdigit c \<Longrightarrow> \<not> isspace c"
  by (auto simp: isdigit_def isspace_def)

lemma minus_not_space [simp]: "\<not> isspace (CHR ''-'')"
  by (simp add: isspace_def)

lemma push_digits_run:
  "list_all isdigit ds \<Longrightarrow> \<not> isdigit c \<Longrightarrow> push_digits num (ds @ c # rest) = Inr (num @ ds, c # rest)"
  by (induction ds arbitrary: num) simp_all

lemma push_digits1_run:
  "digits1 ds \<Longrightarrow> \<not> isdigit c \<Longrightarrow> push_digits1 num (ds @ c # rest) = Inr (num @ ds, c # rest)"
  by (cases ds) (simp_all add: digits1_def push_digits1_def push_digits_run)

lemma push_digitsD:
  "push_digits num it = Inr (num', it') \<Longrightarrow>
     \<exists>ds. list_all isdigit ds \<and> num' = num @ ds \<and> it = ds @ it' \<and> it' \<noteq> []"
proof (induction num it rule: push_digits.induct)
  case (2 num c it)
  show ?case
  proof (cases "isdigit c")
    case True
    with 2 obtain ds where "list_all isdigit ds" "num' = num @ c # ds" "it = ds @ it'" "it' \<noteq> []"
      by auto
    with True show ?thesis by (intro exI [of _ "c # ds"]) simp
  qed (use 2 in auto)
qed simp

lemma push_digits1D:
  assumes "push_digits1 num it = Inr (num', it')"
  shows "\<exists>ds. digits1 ds \<and> num' = num @ ds \<and> it = ds @ it' \<and> it' \<noteq> []"
proof -
  from assms obtain c r where "it = c # r" "isdigit c" "push_digits (num @ [c]) r = Inr (num', it')"
    by (cases it) (auto simp: push_digits1_def split: if_splits)
  moreover from push_digitsD [OF this(3)] obtain ds
    where "list_all isdigit ds" "num' = num @ c # ds" "r = ds @ it'" "it' \<noteq> []" by auto
  ultimately show ?thesis
    by (intro exI [of _ "c # ds"]) (simp add: digits1_def)
qed

lemma digits1_hd: "digits1 ds \<Longrightarrow> \<exists>c cs. ds = c # cs \<and> isdigit c \<and> c \<noteq> CHR ''-'' \<and> c \<noteq> CHR ''+''"
  by (cases ds) (auto simp: digits1_def)


lemma number_int_part_run:
  assumes "sg \<in> {[], ''-''}" and "digits1 ip" and "\<not> isdigit c"
  shows "number_int_part (sg @ ip @ c # rest) = Inr (sg @ ip, c # rest)"
  using assms digits1_hd [OF assms(2)] push_digits1_run [OF assms(2,3), of "[]"]
    push_digits1_run [OF assms(2,3), of "''-''"]
  by (auto simp: number_int_part_def)

lemma number_frac_part_run:
  assumes "frac_part fp" and "\<not> isdigit c" and "c \<noteq> CHR ''.''"
  shows "number_frac_part num (fp @ c # rest) = Inr (fp = [], num @ fp, c # rest)"
  using assms by (cases fp) (auto simp: frac_part_def number_frac_part_def push_digits1_run)

lemma number_exp_part_run:
  assumes "exp_part ep" and "number_ender c"
  shows "number_exp_part is_int num (ep @ c # rest) = Inr (is_int \<and> ep = [], num @ ep, c # rest)"
proof (cases ep)
  case Nil
  then show ?thesis using assms by (auto simp: number_exp_part_def number_ender_def)
next
  case (Cons e ep')
  have c: "\<not> isdigit c" using assms by (simp add: number_ender_def)
  consider "digits1 ep'" | s ds where "ep' = s # ds" "s \<in> {CHR ''-'', CHR ''+''}" "digits1 ds"
    using assms Cons by (cases ep') (auto simp: exp_part_def)
  then show ?thesis
  proof cases
    case 1
    then show ?thesis
      using assms Cons c digits1_hd [OF 1] push_digits1_run [OF 1 c, of "num @ ''e''" rest]
      by (auto simp: number_exp_part_def exp_part_def)
  next
    case 2
    then show ?thesis
      using assms Cons c push_digits1_run [OF 2(3) c, of "num @ [CHR ''e'', s]" rest]
      by (auto simp: number_exp_part_def exp_part_def)
  qed
qed

lemma number_grammar_ne:
  "number_grammar is_int num \<Longrightarrow> num \<noteq> [] \<and> (hd num = CHR ''-'' \<or> isdigit (hd num))"
  by (auto simp: number_grammar_def digits1_def neq_Nil_conv)

text \<open>The parser consumes exactly a number of the grammar.\<close>

lemma number_parse_grammar:
  assumes "number_grammar is_int num" and "number_ender c"
  shows "number_parse (num @ c # rest) = Inr (number_of_text is_int num, c # rest)"
proof -
  from assms(1) obtain sg ip fp ep where num: "num = sg @ ip @ fp @ ep" and sg: "sg \<in> {[], ''-''}"
    and ip: "digits1 ip" and fp: "frac_part fp" and ep: "exp_part ep" and i: "is_int \<longleftrightarrow> fp = [] \<and> ep = []"
    by (auto simp: number_grammar_def)
  obtain e er where e: "ep @ c # rest = e # er" and e2: "\<not> isdigit e" "e \<noteq> CHR ''.''"
    using ep assms(2) by (cases ep) (auto simp: exp_part_def number_ender_def)
  obtain f fr where f: "fp @ e # er = f # fr" and f2: "\<not> isdigit f"
    using fp e2 by (cases fp) (auto simp: frac_part_def)
  have "skip_sp (num @ c # rest) = Inr (num @ c # rest)"
    using number_grammar_ne [OF assms(1)] by (cases num) (auto dest: digit_not_space)
  moreover have "num @ c # rest = sg @ ip @ f # fr"
    by (simp add: num e flip: f)
  ultimately show ?thesis
    using number_int_part_run [OF sg ip f2, of fr] number_frac_part_run [OF fp e2, of "sg @ ip" er]
      number_exp_part_run [OF ep assms(2), of "fp = []" "sg @ ip @ fp" rest]
    by (simp add: number_parse_def e f i num)
qed

text \<open>Whatever the parser accepts is in the grammar, and its value is the value of its text.\<close>

lemma number_int_partD:
  assumes "number_int_part it = Inr (num, it')"
  shows "\<exists>sg ip. num = sg @ ip \<and> sg \<in> {[], ''-''} \<and> digits1 ip \<and> it = num @ it' \<and> it' \<noteq> []"
proof -
  have "\<exists>sg r. it = sg @ r \<and> sg \<in> {[], ''-''} \<and> push_digits1 sg r = Inr (num, it')"
    using assms by (cases it)
      (auto simp: number_int_part_def split: if_splits intro: exI [of _ "''-''"] exI [of _ "[]"])
  then obtain sg r where r: "it = sg @ r" "sg \<in> {[], ''-''}" "push_digits1 sg r = Inr (num, it')"
    by blast
  from push_digits1D [OF r(3)] obtain ds where "digits1 ds" "num = sg @ ds" "r = ds @ it'" "it' \<noteq> []"
    by blast
  with r show ?thesis by (intro exI [of _ sg] exI [of _ ds]) simp
qed

lemma number_frac_partD:
  assumes "number_frac_part num it = Inr (is_int, num', it')"
  shows "\<exists>fp. num' = num @ fp \<and> frac_part fp \<and> (is_int \<longleftrightarrow> fp = []) \<and> it = fp @ it' \<and> it' \<noteq> []"
proof (cases "\<exists>r. it = CHR ''.'' # r")
  case True
  then obtain r where r: "it = CHR ''.'' # r" by blast
  with assms obtain "push_digits1 (num @ ''.'') r = Inr (num', it')" and "\<not> is_int"
    by (auto simp: number_frac_part_def bind_result_eq_Inr)
  moreover from push_digits1D [OF this(1)] obtain ds
    where "digits1 ds" "num' = num @ ''.'' @ ds" "r = ds @ it'" "it' \<noteq> []" by auto
  ultimately show ?thesis
    using r by (intro exI [of _ "CHR ''.'' # ds"]) (simp add: frac_part_def)
next
  case False
  with assms show ?thesis
    by (cases it) (auto simp: number_frac_part_def frac_part_def split: if_splits)
qed

lemma number_exp_partD:
  assumes "number_exp_part is_int num it = Inr (is_int', num', it')"
  shows "\<exists>ep. num' = num @ ep \<and> exp_part ep \<and> (is_int' \<longleftrightarrow> is_int \<and> ep = []) \<and>
    length it = length ep + length it' \<and> it' \<noteq> []"
proof (cases "\<exists>e r. it = e # r \<and> e \<in> {CHR ''e'', CHR ''E''}")
  case True
  then obtain e r where r: "it = e # r" "e \<in> {CHR ''e'', CHR ''E''}" by blast
  with assms obtain s rs where s: "r = s # rs" by (cases r) (auto simp: number_exp_part_def)
  show ?thesis
  proof (cases "s \<in> {CHR ''-'', CHR ''+''}")
    case True
    with assms r s obtain "push_digits1 (num @ [CHR ''e'', s]) rs = Inr (num', it')" and "\<not> is_int'"
      by (auto simp: number_exp_part_def bind_result_eq_Inr)
    moreover from push_digits1D [OF this(1)] obtain ds
      where "digits1 ds" "num' = num @ [CHR ''e'', s] @ ds" "rs = ds @ it'" "it' \<noteq> []" by auto
    ultimately show ?thesis
      using r s True by (intro exI [of _ "CHR ''e'' # s # ds"]) (simp add: exp_part_def)
  next
    case False
    with assms r s obtain "push_digits1 (num @ ''e'') r = Inr (num', it')" and "\<not> is_int'"
      by (auto simp: number_exp_part_def bind_result_eq_Inr)
    moreover from push_digits1D [OF this(1)] obtain ds
      where "digits1 ds" "num' = num @ ''e'' @ ds" "r = ds @ it'" "it' \<noteq> []" by auto
    ultimately show ?thesis
      using r s False by (intro exI [of _ "CHR ''e'' # ds"]) (simp add: exp_part_def)
  qed
next
  case False
  with assms show ?thesis
    by (cases it) (auto simp: number_exp_part_def exp_part_def split: if_splits)
qed

definition number_wf :: "number \<Rightarrow> bool" where
  "number_wf num \<longleftrightarrow> number_grammar (integral num) (str_rep num) \<and>
     num = number_of_text (integral num) (str_rep num)"

lemma number_parse_sound:
  assumes "number_parse it = Inr (num, it')"
  shows "number_wf num \<and> length it' < length it \<and> it' \<noteq> []"
proof -
  from assms obtain i1 n1 i2 b n2 i3 b' n3 where
    st: "skip_sp it = Inr i1" "number_int_part i1 = Inr (n1, i2)" "number_frac_part n1 i2 = Inr (b, n2, i3)"
      "number_exp_part b n2 i3 = Inr (b', n3, it')" and num: "num = number_of_text b' n3"
    by (auto simp: number_parse_def bind_result_eq_Inr)
  obtain sg ip where ip: "n1 = sg @ ip" "sg \<in> {[], ''-''}" "digits1 ip" "i1 = n1 @ i2"
    using number_int_partD [OF st(2)] by blast
  obtain fp where fp: "n2 = n1 @ fp" "frac_part fp" "b \<longleftrightarrow> fp = []" "i2 = fp @ i3"
    using number_frac_partD [OF st(3)] by blast
  obtain ep where ep: "n3 = n2 @ ep" "exp_part ep" "b' \<longleftrightarrow> b \<and> ep = []"
    "length i3 = length ep + length it'" "it' \<noteq> []"
    using number_exp_partD [OF st(4)] by blast
  have "number_grammar b' n3"
    unfolding number_grammar_def
    by (rule exI [of _ sg], rule exI [of _ ip], rule exI [of _ fp], rule exI [of _ ep])
      (use ip fp ep in simp)
  moreover have "length it' < length it"
    using skip_sp_length [OF st(1)] ip fp ep by (cases ip) (simp_all add: digits1_def)
  ultimately show ?thesis
    using ep by (simp add: number_wf_def num number_of_text_def)
qed

lemma number_of_int_wf: "number_wf (number_of_int w)"
proof -
  have "digits1 (dec_digits n)" for n
    by (simp add: digits1_def list_all_iff dec_digits_digits)
  then have "number_grammar True (to_string (sint w))"
    unfolding number_grammar_def to_string_def frac_part_def exp_part_def
    by (cases "sint w < 0")
      (rule exI [of _ "''-''"], rule exI [of _ "dec_digits (nat (- sint w))"], simp,
       rule exI [of _ "[]"], rule exI [of _ "dec_digits (nat (sint w))"], simp)
  then show ?thesis
    by (simp add: number_wf_def number_of_int_def number_of_text_def strtoll_to_string)
qed

end
