(* ===== verification/Std_Map.thy ===== *)
theory Std_Map
  imports Prelude
begin

text \<open>
  \<open>std::map\<close> as the sources use it: the members of a JSON object (\<open>object_base\<close>) and the
  entries of \<open>util::properties\<close>. The model is the sequence of the pairs in iteration order,
  which is the order of the keys. \<open>map_insert\<close> is \<open>insert\<close> (an existing key keeps its value
  and the second component of the result is false), \<open>map_at\<close> is \<open>at\<close>, \<open>map_index\<close> is
  \<open>operator[]\<close> (which inserts a default value under a missing key).

  The locale \<open>first_wins_dict\<close> states what the clients rely on; the client lemma
  \<open>lookup_insert_all\<close> is about inserting a sequence of pairs, as the object parser, the
  MessagePack reader and the properties loader do.
\<close>

fun map_insert :: "'k::linorder \<Rightarrow> 'v \<Rightarrow> ('k \<times> 'v) list \<Rightarrow> ('k \<times> 'v) list \<times> bool" where
  "map_insert k v [] = ([(k, v)], True)"
| "map_insert k v ((k', v') # m) =
     (if k < k' then ((k, v) # (k', v') # m, True)
      else if k = k' then ((k', v') # m, False)
      else (let (m', inserted) = map_insert k v m in ((k', v') # m', inserted)))"

definition map_at :: "'k \<Rightarrow> ('k \<times> 'v) list \<Rightarrow> 'v result" where
  "map_at k m = (case map_of m k of None \<Rightarrow> Inl Out_of_range | Some v \<Rightarrow> Inr v)"

definition map_index :: "'v \<Rightarrow> 'k::linorder \<Rightarrow> ('k \<times> 'v) list \<Rightarrow> 'v \<times> ('k \<times> 'v) list" where
  "map_index dflt k m =
     (case map_of m k of Some v \<Rightarrow> (v, m) | None \<Rightarrow> (dflt, fst (map_insert k dflt m)))"

definition keys_sorted :: "('k::linorder \<times> 'v) list \<Rightarrow> bool" where
  "keys_sorted m \<longleftrightarrow> sorted_wrt (<) (map fst m)"

lemma keys_sorted_simps [simp]:
  "keys_sorted []"
  "keys_sorted ((k, v) # m) \<longleftrightarrow> (\<forall>k' \<in> fst ` set m. k < k') \<and> keys_sorted m"
  by (simp_all add: keys_sorted_def)

lemma keys_map_insert: "fst ` set (fst (map_insert k v m)) = insert k (fst ` set m)"
  by (induction k v m rule: map_insert.induct) (simp_all add: Let_def split_beta insert_commute)

lemma sorted_map_insert: "keys_sorted m \<Longrightarrow> keys_sorted (fst (map_insert k v m))"
proof (induction k v m rule: map_insert.induct)
  case (2 k v k' v' m)
  have "\<forall>k'' \<in> fst ` set (fst (map_insert k v m)). k' < k''" if "\<not> k < k'" "k \<noteq> k'"
    using 2(2) that unfolding keys_map_insert by auto
  moreover have "\<forall>k'' \<in> fst ` set m. k < k''" if "k < k'"
    using 2(2) that by force
  ultimately show ?case
    using 2 by (auto simp: Let_def split_beta simp del: ball_simps)
qed simp

lemma map_of_sorted_above: "keys_sorted m \<Longrightarrow> (\<forall>k' \<in> fst ` set m. k < k') \<Longrightarrow> map_of m k = None"
  by (auto simp: map_of_eq_None_iff)

lemma lookup_map_insert:
  "keys_sorted m \<Longrightarrow> map_of (fst (map_insert k v m)) j =
     (if j = k \<and> map_of m k = None then Some v else map_of m j)"
proof (induction k v m rule: map_insert.induct)
  case (2 k v k' v' m)
  have "k < k' \<Longrightarrow> map_of m k = None"
    using 2(2) by (intro map_of_sorted_above) auto
  with 2 show ?case
    by (auto simp: Let_def split: prod.splits)
qed auto

lemma map_insert_new: "keys_sorted m \<Longrightarrow> snd (map_insert k v m) \<longleftrightarrow> map_of m k = None"
proof (induction k v m rule: map_insert.induct)
  case (2 k v k' v' m)
  have "k < k' \<Longrightarrow> map_of m k = None"
    using 2(2) by (intro map_of_sorted_above) auto
  with 2 show ?case
    by (auto simp: Let_def split: prod.splits)
qed simp

text \<open>Inserting a key above all others appends the pair.\<close>

lemma map_insert_last:
  "\<forall>k' \<in> fst ` set m. k' < k \<Longrightarrow> map_insert k v m = (m @ [(k, v)], True)"
  by (induction m) (auto simp: Let_def)

section \<open>The contract\<close>

locale first_wins_dict =
  fixes empty :: 'm
    and ins :: "'k \<Rightarrow> 'v \<Rightarrow> 'm \<Rightarrow> 'm"
    and lookup :: "'m \<Rightarrow> 'k \<Rightarrow> 'v option"
    and invar :: "'m \<Rightarrow> bool"
  assumes invar_empty: "invar empty"
    and invar_ins: "invar m \<Longrightarrow> invar (ins k v m)"
    and lookup_empty: "lookup empty k = None"
    and lookup_ins: "invar m \<Longrightarrow>
      lookup (ins k v m) j = (if j = k \<and> lookup m k = None then Some v else lookup m j)"
begin

definition insert_all :: "('k \<times> 'v) list \<Rightarrow> 'm \<Rightarrow> 'm" where
  "insert_all ps m = foldl (\<lambda>m (k, v). ins k v m) m ps"

lemma insert_all_simps [simp]:
  "insert_all [] m = m"
  "insert_all ((k, v) # ps) m = insert_all ps (ins k v m)"
  by (simp_all add: insert_all_def)

lemma invar_insert_all: "invar m \<Longrightarrow> invar (insert_all ps m)"
  by (induction ps arbitrary: m) (auto simp: invar_ins)

lemma lookup_insert_all:
  "invar m \<Longrightarrow> lookup (insert_all ps m) j = (case lookup m j of Some v \<Rightarrow> Some v | None \<Rightarrow> map_of ps j)"
  by (induction ps arbitrary: m) (auto simp: invar_ins lookup_ins split: option.splits)

end

interpretation std_map: first_wins_dict "[] :: ('k::linorder \<times> 'v) list"
  "\<lambda>k v m. fst (map_insert k v m)" map_of keys_sorted
  by unfold_locales (auto simp: sorted_map_insert lookup_map_insert)

lemma insert_all_sorted:
  "keys_sorted (m @ ps) \<Longrightarrow> std_map.insert_all ps m = m @ ps"
proof (induction ps arbitrary: m)
  case (Cons p ps)
  obtain k v where p: "p = (k, v)" by force
  have "\<forall>k' \<in> fst ` set m. k' < k"
    using Cons.prems by (auto simp: p keys_sorted_def sorted_wrt_append)
  with Cons show ?case
    by (simp add: p map_insert_last)
qed simp

end
