(* ===== verification/Json_Value.thy ===== *)
theory Json_Value
  imports Json_Number Std_Map
begin

text \<open>
  The values of \<open>src/include/shan/json/\<close> and the accessors of \<open>value.h\<close>, \<open>array.h\<close> and
  \<open>object.h\<close>. A \<open>value_ptr\<close> is a \<open>json\<close>: \<open>Nullptr\<close> is the null \<open>shared_ptr\<close> (which
  \<open>operator[]\<close> plants under a missing key), the other constructors are the dynamic type of the
  value it points to. Values are trees: sharing of a child between two parents is not modelled,
  no function of the library depends on it. Calling a member through \<open>Nullptr\<close> is the fault
  \<open>Undefined Null_dereference\<close>; \<open>typeid\<close> of a null pointer's target throws \<open>std::bad_typeid\<close>.

  Shown: the accessors of \<open>value\<close> answer exactly for the dynamic types they are meant for, and
  throw \<open>not_allowed_error\<close> for the others; \<open>object::add\<close> keeps the first value of a key and
  keeps the members sorted; \<open>operator[]\<close> of a missing key leaves a value that is not well formed.
\<close>

datatype json =
    Nullptr
  | Null_value
  | True_value
  | False_value
  | Number number
  | String string
  | Array "json list"
  | Object "(string \<times> json) list"

lemma json_induct [case_names Nullptr Null True False Number String Array Object]:
  assumes "P Nullptr" and "P Null_value" and "P True_value" and "P False_value"
    and "\<And>num. P (Number num)" and "\<And>str. P (String str)"
    and "\<And>arr. (\<And>v. v \<in> set arr \<Longrightarrow> P v) \<Longrightarrow> P (Array arr)"
    and "\<And>obj. (\<And>m. m \<in> set obj \<Longrightarrow> P (snd m)) \<Longrightarrow> P (Object obj)"
  shows "P v"
proof (induction v)
  case (Object obj)
  then show ?case by (intro assms(8)) (auto simp: snds.simps)
qed (auto intro: assms)

section \<open>The dynamic type\<close>

fun is_null :: "json \<Rightarrow> bool" where
  "is_null Null_value = True"
| "is_null _ = False"

fun is_bool :: "json \<Rightarrow> bool" where
  "is_bool True_value = True"
| "is_bool False_value = True"
| "is_bool _ = False"

fun is_number :: "json \<Rightarrow> bool" where
  "is_number (Number _) = True"
| "is_number _ = False"

fun is_string :: "json \<Rightarrow> bool" where
  "is_string (String _) = True"
| "is_string _ = False"

fun is_array :: "json \<Rightarrow> bool" where
  "is_array (Array _) = True"
| "is_array _ = False"

fun is_object :: "json \<Rightarrow> bool" where
  "is_object (Object _) = True"
| "is_object _ = False"

section \<open>Containers\<close>

text \<open>\<open>array_base::at\<close> checks the position, \<open>array_base::operator[]\<close> does not.\<close>

definition array_at :: "json list \<Rightarrow> nat \<Rightarrow> json result" where
  "array_at arr pos = (if pos < length arr then Inr (arr ! pos) else Inl Out_of_range)"

definition array_index :: "json list \<Rightarrow> nat \<Rightarrow> json result" where
  "array_index arr pos = (if pos < length arr then Inr (arr ! pos) else Inl (Undefined Out_of_bounds))"

definition object_at :: "(string \<times> json) list \<Rightarrow> string \<Rightarrow> json result" where
  "object_at obj key = map_at key obj"

definition object_index :: "(string \<times> json) list \<Rightarrow> string \<Rightarrow> json \<times> (string \<times> json) list" where
  "object_index obj key = map_index Nullptr key obj"

text \<open>The argument types of the overloads of \<open>add\<close>, and the value each of them stores.\<close>

datatype addend =
    Add_bool bool
  | Add_nullptr
  | Add_string string
  | Add_number number
  | Add_integral u64
  | Add_floating u64
  | Add_array "json list"
  | Add_object "(string \<times> json) list"

fun make_shared :: "addend \<Rightarrow> json result" where
  "make_shared (Add_bool bool_val) = Inr (if bool_val then True_value else False_value)"
| "make_shared Add_nullptr = Inr Null_value"
| "make_shared (Add_string str) = Inr (String str)"
| "make_shared (Add_number num) = Inr (Number num)"
| "make_shared (Add_integral i) = Inr (Number (number_of_int i))"
| "make_shared (Add_floating d) = bind_result (number_of_real d) (\<lambda>num. Inr (Number num))"
| "make_shared (Add_array arr) = Inr (Array arr)"
| "make_shared (Add_object obj) = Inr (Object obj)"

definition array_add :: "addend \<Rightarrow> json list \<Rightarrow> json list result" where
  "array_add x arr = bind_result (make_shared x) (\<lambda>v. Inr (arr @ [v]))"

definition object_add ::
    "string \<Rightarrow> addend \<Rightarrow> (string \<times> json) list \<Rightarrow> ((string \<times> json) list \<times> bool) result" where
  "object_add key x obj = bind_result (make_shared x) (\<lambda>v. Inr (map_insert key v obj))"

section \<open>The accessors of value\<close>

fun value_size :: "json \<Rightarrow> nat result" where
  "value_size Nullptr = Inl (Undefined Null_dereference)"
| "value_size (Object obj) = Inr (length obj)"
| "value_size (Array arr) = Inr (length arr)"
| "value_size (String str) = Inr (length str)"
| "value_size _ = Inl (Not_allowed_error ''The object is not a JSON object or an array. [size]'')"

fun value_at_key :: "json \<Rightarrow> string \<Rightarrow> json result" where
  "value_at_key Nullptr key = Inl (Undefined Null_dereference)"
| "value_at_key (Object obj) key = object_at obj key"
| "value_at_key _ key = Inl (Not_allowed_error ''The object is not a JSON object. [at]'')"

fun value_index_key :: "json \<Rightarrow> string \<Rightarrow> (json \<times> json) result" where
  "value_index_key Nullptr key = Inl (Undefined Null_dereference)"
| "value_index_key (Object obj) key = (let (v, obj') = object_index obj key in Inr (v, Object obj'))"
| "value_index_key _ key = Inl (Not_allowed_error ''The object is not a JSON object. [operator[]]'')"

fun value_at_pos :: "json \<Rightarrow> nat \<Rightarrow> json result" where
  "value_at_pos Nullptr pos = Inl (Undefined Null_dereference)"
| "value_at_pos (Array arr) pos = array_at arr pos"
| "value_at_pos _ pos = Inl (Not_allowed_error ''The object is not an array. [at]'')"

text \<open>The \<open>const\<close> overload of \<open>at\<close> calls \<open>operator[]\<close>, which does not check the position.\<close>

fun value_at_pos_const :: "json \<Rightarrow> nat \<Rightarrow> json result" where
  "value_at_pos_const Nullptr pos = Inl (Undefined Null_dereference)"
| "value_at_pos_const (Array arr) pos = array_index arr pos"
| "value_at_pos_const _ pos = Inl (Not_allowed_error ''The object is not an array. [at]'')"

fun value_index_pos :: "json \<Rightarrow> nat \<Rightarrow> json result" where
  "value_index_pos Nullptr pos = Inl (Undefined Null_dereference)"
| "value_index_pos (Array arr) pos = array_index arr pos"
| "value_index_pos _ pos = Inl (Not_allowed_error ''The object is not an array. [operator[]]'')"

fun value_int_val :: "json \<Rightarrow> u64 result" where
  "value_int_val Nullptr = Inl (Undefined Null_dereference)"
| "value_int_val (Number num) = int_val num"
| "value_int_val _ = Inl (Not_allowed_error ''The object can not be converted to integer. [int_val]'')"

fun value_real_val :: "json \<Rightarrow> u64 result" where
  "value_real_val Nullptr = Inl (Undefined Null_dereference)"
| "value_real_val (Number num) = Inr (real_val num)"
| "value_real_val _ = Inl (Not_allowed_error ''The object can not be converted to double. [real_val]'')"

fun value_bool_val :: "json \<Rightarrow> bool result" where
  "value_bool_val Nullptr = Inl (Undefined Null_dereference)"
| "value_bool_val True_value = Inr True"
| "value_bool_val False_value = Inr False"
| "value_bool_val _ = Inl (Not_allowed_error ''The object can not be converted to bool. [bool_val]'')"

section \<open>Well-formed values\<close>

text \<open>No null pointers, members in key order; the shape every reader builds.\<close>

fun json_wf :: "json \<Rightarrow> bool" where
  "json_wf Nullptr = False"
| "json_wf (Array arr) = (\<forall>v \<in> set arr. json_wf v)"
| "json_wf (Object obj) = (keys_sorted obj \<and> (\<forall>m \<in> set obj. json_wf (snd m)))"
| "json_wf _ = True"

text \<open>Every number of the value satisfies \<open>P\<close>.\<close>

fun json_numbers :: "(number \<Rightarrow> bool) \<Rightarrow> json \<Rightarrow> bool" where
  "json_numbers P (Number num) = P num"
| "json_numbers P (Array arr) = (\<forall>v \<in> set arr. json_numbers P v)"
| "json_numbers P (Object obj) = (\<forall>m \<in> set obj. json_numbers P (snd m))"
| "json_numbers P _ = True"

lemma set_map_insert: "set (fst (map_insert k v m)) \<subseteq> insert (k, v) (set m)"
  by (induction k v m rule: map_insert.induct) (auto simp: Let_def split: prod.splits)

lemma object_insert_wf:
  assumes "json_wf (Object obj)" and "json_wf v"
  shows "json_wf (Object (fst (map_insert k v obj)))"
  using assms set_map_insert [of k v obj] by (auto simp: sorted_map_insert)

lemma object_insert_numbers:
  assumes "json_numbers P (Object obj)" and "json_numbers P v"
  shows "json_numbers P (Object (fst (map_insert k v obj)))"
  using assms set_map_insert [of k v obj] by auto

lemma object_index_missing:
  assumes "map_of obj key = None"
  shows "\<not> json_wf (Object (snd (object_index obj key)))"
proof -
  have "(key, Nullptr) \<in> set (fst (map_insert key Nullptr obj))"
    using assms by (induction obj) (auto simp: Let_def split: prod.splits if_splits)
  then show ?thesis
    using assms by (force simp: object_index_def map_index_def)
qed

section \<open>Nesting depth\<close>

fun json_depth :: "json \<Rightarrow> nat" where
  "json_depth (Array arr) = Suc (Max (insert 0 (set (map json_depth arr))))"
| "json_depth (Object obj) = Suc (Max (insert 0 (set (map (\<lambda>m. json_depth (snd m)) obj))))"
| "json_depth _ = 1"

lemma depth_member: "v \<in> set arr \<Longrightarrow> json_depth v < json_depth (Array arr)"
  by (simp add: less_Suc_eq_le Max_ge)

lemma depth_pair: "m \<in> set obj \<Longrightarrow> json_depth (snd m) < json_depth (Object obj)"
  by (simp add: less_Suc_eq_le Max_ge)

section \<open>Classes\<close>

definition not_allowed :: "'a result \<Rightarrow> bool" where
  "not_allowed r \<longleftrightarrow> (\<exists>msg. r = Inl (Not_allowed_error msg))"

lemma containers_allowed [simp]:
  "\<not> not_allowed (object_at obj key)" "\<not> not_allowed (array_at arr pos)" "\<not> not_allowed (array_index arr pos)"
  "\<not> not_allowed (int_val num)"
  by (auto simp: not_allowed_def object_at_def map_at_def array_at_def array_index_def int_val_def int64_of_double_def bind_result_eq_Inl
      Let_def split: option.splits sum.splits if_splits prod.splits)

text \<open>C37: Every value is of exactly one of the six JSON types, and an accessor of \<open>value\<close> refuses a value exactly when it
  is not of the type the accessor is for.\<close>

theorem accessor_types:
  assumes "v \<noteq> Nullptr"
  shows "length (filter id [is_null v, is_bool v, is_number v, is_string v, is_array v, is_object v]) = 1 \<and>
    not_allowed (value_int_val v) = (\<not> is_number v) \<and> not_allowed (value_real_val v) = (\<not> is_number v) \<and>
    not_allowed (value_bool_val v) = (\<not> is_bool v) \<and>
    not_allowed (value_size v) = (\<not> (is_object v \<or> is_array v \<or> is_string v)) \<and>
    not_allowed (value_at_key v key) = (\<not> is_object v) \<and> not_allowed (value_index_key v key) = (\<not> is_object v) \<and>
    not_allowed (value_at_pos v pos) = (\<not> is_array v) \<and> not_allowed (value_at_pos_const v pos) = (\<not> is_array v) \<and>
    not_allowed (value_index_pos v pos) = (\<not> is_array v)"
  using assms by (cases v) (simp_all, simp_all add: not_allowed_def split: prod.splits)

theorem accessor_types_witness:
  "length (filter id [is_null True_value, is_bool True_value, is_number True_value, is_string True_value,
      is_array True_value, is_object True_value]) = 1 \<and>
    not_allowed (value_int_val True_value) \<and> \<not> not_allowed (value_bool_val True_value)"
  using accessor_types [of True_value] by simp

end
