(* ===== verification/Json_String.thy ===== *)
theory Json_String
  imports Json_Base Libc_Number Utf Streambuf Json_Number
begin

text \<open>
  \<open>src/include/shan/json/string.h\<close>: printing with escapes, the two parsers and MessagePack.
  The contents of a \<open>string\<close> is a list of characters; the parse functions append to the contents
  the object already has (\<open>self\<close>), \<open>unpack\<close> replaces them.

  Shown: a printed string parses back to itself, whatever its characters; the packed form reads
  back when the length fits 32 bits; the loop of the text parser ends because every round consumes
  a character, and an unterminated string runs past the end of the text.
\<close>

section \<open>Printing\<close>

definition print_char :: "char \<Rightarrow> string" where
  "print_char c =
     (if c = CHR 0x22 then [CHR 0x5C, CHR 0x22]
      else if c = CHR 0x5C then [CHR 0x5C, CHR 0x5C]
      else if c = CHR ''/'' then [CHR 0x5C, CHR ''/'']
      else if c = CHR 0x08 then [CHR 0x5C, CHR ''b'']
      else if c = CHR 0x0C then [CHR 0x5C, CHR ''f'']
      else if c = CHR 0x0A then [CHR 0x5C, CHR ''n'']
      else if c = CHR 0x0D then [CHR 0x5C, CHR ''r'']
      else if c = CHR 0x09 then [CHR 0x5C, CHR ''t'']
      else if of_char c \<le> (0x1f :: nat) then format_u04X (of_char c)
      else [c])"

definition string_print :: "string \<Rightarrow> string" where
  "string_print str = [CHR 0x22] @ concat (map print_char str) @ [CHR 0x22]"

section \<open>MessagePack\<close>

text \<open>\<open>static_cast<uint8_t>((len >> n) & 0xff)\<close>, with \<open>len\<close> a \<open>size_t\<close>\<close>

definition len_byte :: "nat \<Rightarrow> nat \<Rightarrow> u8" where
  "len_byte n len = ucast (drop_bit n (of_nat len :: u64) AND 0xff)"

definition string_pack :: "string \<Rightarrow> u8 list \<Rightarrow> u8 list" where
  "string_pack str packed =
     (let len = length str; bytes = map u8_of_char str in
      if len \<le> 0x1f then packed @ [0xa0 OR of_nat len] @ bytes
      else if len \<le> 0xff then packed @ [0xd9, of_nat len] @ bytes
      else if len \<le> 0xffff then packed @ [0xda, len_byte 8 len, len_byte 0 len] @ bytes
      else packed @ [0xdb, len_byte 24 len, len_byte 16 len, len_byte 8 len, len_byte 0 len] @ bytes)"

text \<open>\<open>memcpy(packed.prepare(len), &(*this)[0], len); packed.commit(len);\<close>\<close>

definition copy_into :: "u8 list \<Rightarrow> streambuf \<Rightarrow> streambuf result" where
  "copy_into bytes packed =
     bind_result (prepare (length bytes) packed) (\<lambda>(p, packed).
     bind_result (store p bytes packed) (commit (length bytes)))"

definition string_pack_sb :: "string \<Rightarrow> streambuf \<Rightarrow> streambuf result" where
  "string_pack_sb str packed =
     (let len = length str; bytes = map u8_of_char str in
      if len \<le> 0x1f then
        bind_result (write_int8s [0xa0 OR of_nat len] packed) (copy_into bytes)
      else if len \<le> 0xff then
        bind_result (write_int8s [0xd9, of_nat len] packed) (copy_into bytes)
      else if len \<le> 0xffff then
        bind_result (write_int8s [0xda, len_byte 8 len, len_byte 0 len] packed) (copy_into bytes)
      else
        bind_result (write_int8s [0xdb, len_byte 24 len, len_byte 16 len, len_byte 8 len, len_byte 0 len] packed)
          (copy_into bytes))"

definition string_unpack :: "u8 list \<Rightarrow> (string \<times> u8 list) result" where
  "string_unpack bytes =
     bind_result (deref bytes) (\<lambda>b.
     bind_result
       (if b \<ge> 0xa0 \<and> b \<le> 0xbf then Inr (unat (b AND 0x1f), bytes)
        else if b = 0xd9 then shift_in_len 1 0 bytes
        else if b = 0xda then shift_in_len 2 0 bytes
        else if b = 0xdb then shift_in_len 4 0 bytes
        else Inl invalid_messagepack)
     (\<lambda>(len, it).
       let it = tl it in
       if len \<le> length it then Inr (map char_of_u8 (take len it), drop len it)
       else Inl (Undefined Out_of_bounds)))"

section \<open>Parsing text\<close>

fun read_hex :: "nat \<Rightarrow> string \<Rightarrow> string \<Rightarrow> (string \<times> string) result" where
  "read_hex 0 unicode it = Inr (unicode, it)"
| "read_hex (Suc n) unicode it =
     bind_result (deref it) (\<lambda>c.
       if isxdigit c then read_hex n (unicode @ [c]) (tl it) else invalid_format it)"

text \<open>The second \<open>\uXXXX\<close> after a lead surrogate, the text behind a lead surrogate, and what follows
  any \<open>\u\<close>: the bytes to append and the rest of the text.\<close>

definition trail_escape :: "u16 \<Rightarrow> string \<Rightarrow> (string \<times> string) result" where
  "trail_escape utf16 it =
     bind_result (read_hex 4 [] it) (\<lambda>(unicode, it).
       let trail_surrogate = of_nat (hex_value unicode) :: u16 in
       if is_trail_surrogate trail_surrogate
       then Inr (utf32_to_utf8 (surrogate_pair_to_utf32 utf16 trail_surrogate), it)
       else Inr (utf16_to_utf8 utf16 @ utf16_to_utf8 trail_surrogate, it))"

definition lead_escape :: "u16 \<Rightarrow> string \<Rightarrow> (string \<times> string) result" where
  "lead_escape utf16 it =
     bind_result (deref it) (\<lambda>c.
       if c = CHR 0x5C then
         bind_result (deref (tl it)) (\<lambda>d.
           if d = CHR ''u'' then trail_escape utf16 (tl (tl it)) else Inr (utf16_to_utf8 utf16, it))
       else Inr (utf16_to_utf8 utf16, it))"

definition escape_unicode :: "string \<Rightarrow> (string \<times> string) result" where
  "escape_unicode it =
     bind_result (read_hex 4 [] it) (\<lambda>(unicode, it).
       let utf16 = of_nat (hex_value unicode) :: u16 in
       if is_lead_surrogate utf16 then lead_escape utf16 it else Inr (utf16_to_utf8 utf16, it))"

text \<open>The single-character escapes of the \<open>switch\<close>.\<close>

definition simple_escape :: "char \<Rightarrow> char option" where
  "simple_escape c =
     (if c = CHR 0x22 then Some (CHR 0x22)
      else if c = CHR 0x5C then Some (CHR 0x5C)
      else if c = CHR ''/'' then Some (CHR ''/'')
      else if c = CHR ''b'' then Some (CHR 0x08)
      else if c = CHR ''f'' then Some (CHR 0x0C)
      else if c = CHR ''n'' then Some (CHR 0x0A)
      else if c = CHR ''r'' then Some (CHR 0x0D)
      else if c = CHR ''t'' then Some (CHR 0x09)
      else None)"

definition string_escape :: "string \<Rightarrow> (string \<times> string) result" where
  "string_escape it =
     bind_result (deref it) (\<lambda>c.
       case simple_escape c of
         Some d \<Rightarrow> Inr ([d], tl it)
       | None \<Rightarrow> if c = CHR ''u'' then escape_unicode (tl it) else invalid_format it)"

lemma read_hex_length:
  "read_hex n u it = Inr (u', it') \<Longrightarrow> length it' + n = length it"
proof (induction n arbitrary: u it)
  case (Suc n)
  then show ?case by (cases it) (auto split: if_splits)
qed simp

lemma trail_escape_length: "trail_escape w it = Inr (s, it') \<Longrightarrow> length it' \<le> length it"
  by (auto simp: trail_escape_def Let_def bind_result_eq_Inr split: if_splits dest!: read_hex_length)

lemma lead_escape_length: "lead_escape w it = Inr (s, it') \<Longrightarrow> length it' \<le> length it"
  by (auto simp: lead_escape_def bind_result_eq_Inr deref_eq_Inr split: if_splits dest!: trail_escape_length)

lemma escape_unicode_length: "escape_unicode it = Inr (s, it') \<Longrightarrow> length it' \<le> length it"
  by (auto simp: escape_unicode_def Let_def bind_result_eq_Inr split: if_splits
      dest!: read_hex_length lead_escape_length)

lemma string_escape_length: "string_escape it = Inr (s, it') \<Longrightarrow> length it' < length it"
  by (cases it) (auto simp: string_escape_def split: option.splits if_splits dest: escape_unicode_length)

function string_loop :: "string \<Rightarrow> string \<Rightarrow> (string \<times> string) result" where
  "string_loop self it =
     bind_result (deref it) (\<lambda>c.
       if c = CHR 0x5C then
         bind_result (string_escape (tl it)) (\<lambda>(s, it). string_loop (self @ s) it)
       else if c = CHR 0x22 then Inr (self, tl it)
       else string_loop (self @ [c]) (tl it))"
  by pat_completeness auto
termination
  by (relation "measure (\<lambda>(self, it). length it)")
    (auto simp: deref_eq_Inr dest!: string_escape_length)

declare string_loop.simps [simp del]

definition string_parse :: "string \<Rightarrow> string \<Rightarrow> (string \<times> string) result" where
  "string_parse self json_text =
     bind_result (skip_sp json_text) (\<lambda>it.
     bind_result (deref it) (\<lambda>c.
       if c = CHR 0x22 then string_loop self (tl it) else invalid_format it))"

section \<open>Parsing a stream\<close>

fun get_hex :: "nat \<Rightarrow> string \<Rightarrow> istream \<Rightarrow> (string \<times> istream) result" where
  "get_hex 0 unicode s = Inr (unicode, s)"
| "get_hex (Suc n) unicode s =
     (let (ch, s) = get s in
      if isxdigit_ch ch then get_hex n (unicode @ [the ch]) s else invalid_format_stream ch)"

definition trail_escape_stream :: "u16 \<Rightarrow> istream \<Rightarrow> (string \<times> istream) result" where
  "trail_escape_stream utf16 s =
     bind_result (get_hex 4 [] s) (\<lambda>(unicode, s).
       let trail_surrogate = of_nat (hex_value unicode) :: u16 in
       if is_trail_surrogate trail_surrogate
       then Inr (utf32_to_utf8 (surrogate_pair_to_utf32 utf16 trail_surrogate), s)
       else Inr (utf16_to_utf8 utf16 @ utf16_to_utf8 trail_surrogate, s))"

definition lead_escape_stream :: "u16 \<Rightarrow> istream \<Rightarrow> (string \<times> istream) result" where
  "lead_escape_stream utf16 s =
     (let (ch, s) = get s in
      if ch = Some (CHR 0x5C) then
        (let (pk, s) = peek s in
         if pk = Some (CHR ''u'') then (let (_, s) = get s in trail_escape_stream utf16 s)
         else Inr (utf16_to_utf8 utf16, unget s))
      else Inr (utf16_to_utf8 utf16, unget s))"

definition escape_unicode_stream :: "istream \<Rightarrow> (string \<times> istream) result" where
  "escape_unicode_stream s =
     bind_result (get_hex 4 [] s) (\<lambda>(unicode, s).
       let utf16 = of_nat (hex_value unicode) :: u16 in
       if is_lead_surrogate utf16 then lead_escape_stream utf16 s else Inr (utf16_to_utf8 utf16, s))"

definition string_escape_stream :: "istream \<Rightarrow> (string \<times> istream) result" where
  "string_escape_stream s =
     (let (ch, s) = get s in
      case ch of
        None \<Rightarrow> invalid_format_stream ch
      | Some c \<Rightarrow>
          (case simple_escape c of
             Some d \<Rightarrow> Inr ([d], s)
           | None \<Rightarrow> if c = CHR ''u'' then escape_unicode_stream s else invalid_format_stream ch))"

text \<open>The readers never end up with more to read than they started with.\<close>

lemma unget_get:
  "get s = (Some c, s') \<Longrightarrow> unget s' = s"
  by (auto simp: get_def unget_def good_def split: if_splits list.splits)

lemma unget_get_eof: "get s = (None, s') \<Longrightarrow> remaining (unget s') = 0"
  by (auto simp: get_def unget_def good_def remaining_def split: if_splits list.splits)

lemma unget_peek_get:
  "get s = (Some c, s') \<Longrightarrow> peek s' = (ch, s'') \<Longrightarrow> unget s'' = s"
  by (auto simp: get_def peek_def unget_def good_def split: if_splits list.splits)

lemma get_hex_remaining: "get_hex n u s = Inr (u', s') \<Longrightarrow> remaining s' \<le> remaining s"
proof (induction n arbitrary: u s)
  case (Suc n)
  obtain ch s1 where g: "get s = (ch, s1)" by force
  with Suc show ?case
    by (cases ch) (fastforce split: if_splits dest: remaining_get_le)+
qed simp

lemma trail_escape_stream_remaining: "trail_escape_stream w s = Inr (t, s') \<Longrightarrow> remaining s' \<le> remaining s"
  by (auto simp: trail_escape_stream_def Let_def bind_result_eq_Inr split: if_splits dest!: get_hex_remaining)

lemma lead_escape_stream_remaining:
  assumes "lead_escape_stream w s1 = Inr (t, s')"
  shows "remaining s' \<le> remaining s1"
proof -
  obtain ch s2 where g: "get s1 = (ch, s2)" by force
  obtain pk s3 where p: "peek s2 = (pk, s3)" by force
  obtain d s4 where g4: "get s3 = (d, s4)" by force
  have "remaining s4 \<le> remaining s1"
    using remaining_get_le [OF g] remaining_get_le [OF g4] remaining_peek [OF p] by auto
  moreover have "remaining (unget s2) \<le> remaining s1" "ch \<noteq> None \<Longrightarrow> unget s3 = s1"
    using unget_get unget_get_eof unget_peek_get [OF _ p] g by (cases ch; force)+
  ultimately show ?thesis
    using assms
    by (auto simp: lead_escape_stream_def g p g4 split: if_splits dest!: trail_escape_stream_remaining)
qed

lemma escape_unicode_stream_remaining:
  "escape_unicode_stream s = Inr (t, s') \<Longrightarrow> remaining s' \<le> remaining s"
  by (auto simp: escape_unicode_stream_def Let_def bind_result_eq_Inr split: if_splits
      dest!: get_hex_remaining lead_escape_stream_remaining)

lemma string_escape_stream_remaining:
  "string_escape_stream s = Inr (t, s') \<Longrightarrow> remaining s' \<le> remaining s"
  by (auto simp: string_escape_stream_def split: prod.splits option.splits if_splits
      dest!: escape_unicode_stream_remaining remaining_get_le intro: le_trans)

function string_loop_stream :: "string \<Rightarrow> istream \<Rightarrow> (string \<times> istream) result" where
  "string_loop_stream self s =
     (let (ch, s') = get s in
      case ch of
        None \<Rightarrow> invalid_format_stream ch
      | Some c \<Rightarrow>
          if c = CHR 0x5C then
            bind_result (string_escape_stream s') (\<lambda>(t, s''). string_loop_stream (self @ t) s'')
          else if c = CHR 0x22 then Inr (self, s')
          else string_loop_stream (self @ [c]) s')"
  by pat_completeness auto
termination
proof (relation "measure (\<lambda>(self, s). remaining s)")
  fix self s x ch s' c y t s''
  assume "x = get s" and "(ch, s') = x" and "ch = Some c" and "string_escape_stream s' = Inr y"
    and "(t, s'') = y"
  then show "((self @ t, s''), (self, s)) \<in> measure (\<lambda>(self, s). remaining s)"
    using remaining_get [of s c s'] string_escape_stream_remaining [of s' t s''] by (auto dest: sym)
next
  fix self s x ch s' c
  assume "x = get s" and "(ch, s') = x" and "ch = Some c"
  then show "((self @ [c], s'), (self, s)) \<in> measure (\<lambda>(self, s). remaining s)"
    using remaining_get [of s c s'] by (auto dest: sym)
qed simp

declare string_loop_stream.simps [simp del]

definition string_parse_stream :: "string \<Rightarrow> istream \<Rightarrow> (string \<times> istream) result" where
  "string_parse_stream self s =
     (let (ch, s) = skip_sp_stream s in
      if ch \<noteq> Some (CHR 0x22) then invalid_format_stream ch else string_loop_stream self s)"

section \<open>A printed string parses back\<close>

lemma string_loop_plain:
  "c \<noteq> CHR 0x5C \<Longrightarrow> c \<noteq> CHR 0x22 \<Longrightarrow> string_loop self (c # it) = string_loop (self @ [c]) it"
  by (subst string_loop.simps) simp

lemma string_loop_quote: "string_loop self (CHR 0x22 # it) = Inr (self, it)"
  by (subst string_loop.simps) simp

lemma string_loop_escape:
  "string_escape it = Inr (s, it') \<Longrightarrow> string_loop self (CHR 0x5C # it) = string_loop (self @ s) it'"
  by (subst string_loop.simps) simp

lemma simple_escapes:
  "simple_escape (CHR 0x22) = Some (CHR 0x22)" "simple_escape (CHR 0x5C) = Some (CHR 0x5C)"
  "simple_escape (CHR ''/'') = Some (CHR ''/'')" "simple_escape (CHR ''b'') = Some (CHR 0x08)"
  "simple_escape (CHR ''f'') = Some (CHR 0x0C)" "simple_escape (CHR ''n'') = Some (CHR 0x0A)"
  "simple_escape (CHR ''r'') = Some (CHR 0x0D)" "simple_escape (CHR ''t'') = Some (CHR 0x09)"
  "simple_escape (CHR ''u'') = None"
  by (simp_all add: simple_escape_def)

lemma read_hex_run:
  "list_all isxdigit ds \<Longrightarrow> read_hex (length ds) u (ds @ it) = Inr (u @ ds, it)"
  by (induction ds arbitrary: u) simp_all

lemma read_hex_format:
  "read_hex 4 [] (drop 2 (format_u04X n) @ it) = Inr (drop 2 (format_u04X n), it)"
proof -
  have "length (drop 2 (format_u04X n)) = 4" and "list_all isxdigit (drop 2 (format_u04X n))"
    by (simp_all add: format_u04X_def isxdigit_digit_char)
  then show ?thesis
    using read_hex_run [of "drop 2 (format_u04X n)" "[]" it] by simp
qed

text \<open>A unit below \<open>0x80\<close> is not a surrogate and its UTF-8 form is the character itself.\<close>

lemma small_unit:
  assumes "n < 128"
  shows "\<not> is_lead_surrogate (of_nat n)" and "utf16_to_utf8 (of_nat n) = [char_of n]"
proof -
  have n: "unat (of_nat n :: u16) = n"
    using assms by (simp add: unat_of_nat)
  have "w AND 0xFC00 = 0" if "unat w < 2 ^ 7" for w :: u16
    unfolding surrogate_masks by (rule bit_word_eqI) (auto simp: bit_simps dest!: low_bit [OF _ that])
  then have "(of_nat n :: u16) AND 0xFC00 = 0"
    using assms n by simp
  then show "\<not> is_lead_surrogate (of_nat n)"
    by (simp add: is_lead_surrogate_def)
  have m: "unat (ucast (of_nat n :: u16) :: u32) = n" "unat (ucast (ucast (of_nat n :: u16) :: u32) :: u8) = n"
    using assms by (simp_all add: unsigned_of_nat take_bit_nat_eq_self)
  then show "utf16_to_utf8 (of_nat n) = [char_of n]"
    using assms by (simp add: utf16_to_utf8_def utf32_to_utf8_def word_less_nat_alt cast_char_def char_of_u8_def)
qed

lemma escape_unicode_format:
  "n < 128 \<Longrightarrow> escape_unicode (drop 2 (format_u04X n) @ it) = Inr ([char_of n], it)"
  by (simp add: escape_unicode_def read_hex_format hex_value_format small_unit)

lemma string_loop_simple:
  "simple_escape e = Some c \<Longrightarrow> string_loop self (CHR 0x5C # e # it) = string_loop (self @ [c]) it"
  by (simp add: string_loop_escape string_escape_def)

lemma print_char_cases:
  obtains (simple) e where "print_char c = [CHR 0x5C, e]" "simple_escape e = Some c"
  | (control) "print_char c = format_u04X (of_char c)" "of_char c < (128 :: nat)"
  | (plain) "print_char c = [c]" "c \<noteq> CHR 0x5C" "c \<noteq> CHR 0x22"
proof (cases "c \<in> {CHR 0x22, CHR 0x5C, CHR ''/'', CHR 0x08, CHR 0x0C, CHR 0x0A, CHR 0x0D, CHR 0x09}")
  case True
  then have "\<exists>e. print_char c = [CHR 0x5C, e] \<and> simple_escape e = Some c"
    by (auto simp: print_char_def simple_escapes)
  then show ?thesis using simple by blast
next
  case False
  then show ?thesis
    using control plain by (cases "of_char c \<le> (0x1f :: nat)") (auto simp: print_char_def)
qed

lemma string_loop_print_char: "string_loop self (print_char c @ it) = string_loop (self @ [c]) it"
proof (cases c rule: print_char_cases)
  case control
  have "format_u04X (of_char c) = CHR 0x5C # CHR ''u'' # drop 2 (format_u04X (of_char c))"
    by (simp add: format_u04X_def)
  then have "print_char c @ it = CHR 0x5C # CHR ''u'' # drop 2 (format_u04X (of_char c)) @ it"
    using control by simp
  moreover have "string_escape (CHR ''u'' # drop 2 (format_u04X (of_char c)) @ it) = Inr ([c], it)"
    using escape_unicode_format [OF control(2), of it] by (simp add: string_escape_def simple_escapes)
  ultimately show ?thesis
    by (simp add: string_loop_escape)
qed (simp_all add: string_loop_simple string_loop_plain)

lemma string_loop_print:
  "string_loop self (concat (map print_char str) @ CHR 0x22 # it) = Inr (self @ str, it)"
  by (induction str arbitrary: self) (simp_all add: string_loop_print_char string_loop_quote)

lemma string_parse_print: "string_parse self (string_print str @ it) = Inr (self @ str, it)"
  by (simp add: string_parse_def string_print_def isspace_def string_loop_print)

lemma string_loop_length: "string_loop self it = Inr (str, it') \<Longrightarrow> length it' < length it"
proof (induction self it rule: string_loop.induct)
  case (1 self it)
  from "1.prems" obtain c r where it: "it = c # r"
    by (subst (asm) string_loop.simps) (auto simp: bind_result_eq_Inr deref_eq_Inr)
  consider "c = CHR 0x5C" | "c = CHR 0x22" | "c \<noteq> CHR 0x5C" "c \<noteq> CHR 0x22" by blast
  then show ?case
  proof cases
    case 1
    with "1.prems" it obtain s i where "string_escape r = Inr (s, i)" "string_loop (self @ s) i = Inr (str, it')"
      by (subst (asm) string_loop.simps) (auto simp: bind_result_eq_Inr)
    with "1.IH"(1) it 1 show ?thesis
      by (fastforce dest: string_escape_length)
  next
    case 2
    with "1.prems" it show ?thesis by (simp add: string_loop_quote)
  next
    case 3
    with "1.prems" "1.IH"(2) it show ?thesis by (fastforce simp: string_loop_plain)
  qed
qed

lemma string_parse_length: "string_parse self it = Inr (str, it') \<Longrightarrow> length it' < length it"
  by (auto simp: string_parse_def bind_result_eq_Inr deref_eq_Inr split: if_splits
      dest!: skip_sp_length string_loop_length)

section \<open>A packed string reads back\<close>

lemma unat_len_byte:
  assumes "len < 2 ^ 64"
  shows "unat (len_byte n len) = len div 2 ^ n mod 256"
proof -
  have "len_byte n len = ucast (drop_bit n (of_nat len :: u64))"
    unfolding len_byte_def byte_masks by (rule bit_word_eqI) (auto simp: bit_simps)
  then show ?thesis
    using assms
    by (simp add: unsigned_ucast_eq unat_drop_bit_eq drop_bit_eq_div [where 'a = nat]
        take_bit_eq_mod unat_of_nat)
qed

text \<open>The big-endian length after a header byte.\<close>

lemma div_step: "256 * (len div (256 * k)) + len div k mod 256 = len div (k :: nat)"
  using mult_div_mod_eq [of 256 "len div k"] by (simp add: div_mult2_eq mult.commute)

lemma shift_in_len_2:
  assumes "len < 65536"
  shows "shift_in_len 2 0 (x # len_byte 8 len # len_byte 0 len # rest) = Inr (len, len_byte 0 len # rest)"
proof -
  have "unat (len_byte 8 len) = len div 256" "unat (len_byte 0 len) = len mod 256"
    using assms by (simp_all add: unat_len_byte)
  then have "shift_in_len (Suc (Suc 0)) 0 (x # len_byte 8 len # len_byte 0 len # rest) =
      Inr (len, len_byte 0 len # rest)"
    using div_step [of len 1] by simp
  then show ?thesis by (simp only: numeral_2_eq_2)
qed

lemma shift_in_len_4:
  assumes "len < 4294967296"
  shows "shift_in_len 4 0 (x # len_byte 24 len # len_byte 16 len # len_byte 8 len # len_byte 0 len # rest) =
    Inr (len, len_byte 0 len # rest)"
proof -
  have "unat (len_byte 24 len) = len div 16777216" "unat (len_byte 16 len) = len div 65536 mod 256"
    "unat (len_byte 8 len) = len div 256 mod 256" "unat (len_byte 0 len) = len mod 256"
    using assms by (simp_all add: unat_len_byte)
  moreover have "256 * (256 * (256 * (len div 16777216) + len div 65536 mod 256) + len div 256 mod 256)
      + len mod 256 = len"
    using div_step [of len 1] div_step [of len 256] div_step [of len 65536] by simp
  ultimately have "shift_in_len (Suc (Suc (Suc (Suc 0)))) 0
      (x # len_byte 24 len # len_byte 16 len # len_byte 8 len # len_byte 0 len # rest) =
    Inr (len, len_byte 0 len # rest)"
    by (simp only: shift_in_len.simps advance_simps bind_result_Inr prod.case mult_0_right add_0)
  then show ?thesis by (simp only: numeral_eq_Suc pred_numeral_simps BitM.simps)
qed

text \<open>A short length in the low bits of the header byte.\<close>

lemma fix_header:
  fixes mrk :: u8
  assumes "len < 2 ^ k" and "k \<le> 8" and "mrk AND mask k = 0"
  shows "unat ((mrk OR of_nat len) AND mask k) = len" and "unat (mrk OR of_nat len) = unat mrk + len"
proof -
  have small: "unat (of_nat len :: u8) = len"
    using assms(1,2) power_increasing [of k 8 "2::nat"] by (simp add: unat_of_nat)
  have b: "bit (of_nat len :: u8) i \<Longrightarrow> i < k" for i
    using low_bit [of "of_nat len :: u8" i k] small assms(1) by simp
  have m: "bit mrk i \<Longrightarrow> \<not> i < k" for i
    using arg_cong [OF assms(3), of "\<lambda>w. bit w i"] bit_imp_le_length [of mrk i]
    by (simp add: bit_and_iff bit_mask_iff)
  have "(mrk OR of_nat len) AND mask k = of_nat len"
    by (rule bit_word_eqI) (use b m in \<open>auto simp: bit_and_iff bit_or_iff bit_mask_iff\<close>)
  with small show "unat ((mrk OR of_nat len) AND mask k) = len" by simp
  have "mrk AND of_nat len = 0"
    by (rule bit_word_eqI) (use b m in \<open>auto simp: bit_and_iff\<close>)
  then have "unat mrk AND len = 0"
    using small by (metis unsigned_and_eq unsigned_0)
  then show "unat (mrk OR of_nat len) = unat mrk + len"
    using small by (simp add: unsigned_or_eq disjunctive_add_eq_or)
qed

lemma string_pack_append: "string_pack str packed = packed @ string_pack str []"
  by (simp add: string_pack_def Let_def)

lemma string_header_fix:
  assumes "len \<le> 0x1f"
  shows "0xa0 \<le> (0xa0 OR of_nat len :: u8)" "(0xa0 OR of_nat len :: u8) \<le> 0xbf"
    "unat ((0xa0 OR of_nat len :: u8) AND 0x1f) = len"
proof -
  have h: "unat ((0xa0 OR of_nat len :: u8) AND mask 5) = len" "unat (0xa0 OR of_nat len :: u8) = 0xa0 + len"
    using assms fix_header [of len 5 "0xa0"] by (simp_all add: mask_eq_exp_minus_1)
  then show "unat ((0xa0 OR of_nat len :: u8) AND 0x1f) = len"
    by (simp add: mask_eq_exp_minus_1)
  show "0xa0 \<le> (0xa0 OR of_nat len :: u8)" "(0xa0 OR of_nat len :: u8) \<le> 0xbf"
    using h(2) assms by (simp_all add: word_le_nat_alt)
qed

lemma string_unpack_pack:
  assumes "length str < 2 ^ 32"
  shows "string_unpack (string_pack str [] @ rest) = Inr (str, rest)"
proof -
  consider "length str \<le> 0x1f" | "\<not> length str \<le> 0x1f" "length str \<le> 0xff"
    | "\<not> length str \<le> 0xff" "length str \<le> 0xffff" | "\<not> length str \<le> 0xffff" by linarith
  then show ?thesis
  proof cases
    case 1
    then show ?thesis
      by (simp add: string_pack_def string_unpack_def string_header_fix comp_def)
  next
    case 2
    then have "unat (of_nat (length str) :: u8) = length str" by (simp add: unat_of_nat)
    with 2 show ?thesis by (simp add: string_pack_def string_unpack_def comp_def)
  next
    case 3
    then show ?thesis
      by (simp add: string_pack_def string_unpack_def shift_in_len_2 comp_def Let_def)
  next
    case 4
    then show ?thesis
      using assms by (simp add: string_pack_def string_unpack_def shift_in_len_4 comp_def Let_def)
  qed
qed

text \<open>Packing to a \<open>streambuf\<close> appends the same bytes.\<close>

lemma copy_into_appends: "length bytes < 2 ^ 31 \<Longrightarrow> sb_sink.appends (copy_into bytes) bytes"
  unfolding sb_sink.appends_def
proof (intro allI impI)
  fix s
  assume small: "length bytes < 2 ^ 31" and inv: "sb_inv s" and room: "length (content s) + length bytes \<le> 2 ^ 63"
  from prepare_commit_ok [OF inv content_room [OF inv room] small]
  show "\<exists>s'. copy_into bytes s = Inr s' \<and> sb_inv s' \<and> content s' = content s @ bytes"
    by (auto simp: copy_into_def)
qed

lemma string_pack_sb_appends:
  assumes "length str < 2 ^ 31"
  shows "sb_sink.appends (string_pack_sb str) (string_pack str [])"
proof -
  obtain hd where h: "string_pack str [] = hd @ map u8_of_char str"
    "string_pack_sb str = (\<lambda>packed. bind_result (write_int8s hd packed) (copy_into (map u8_of_char str)))"
  proof (cases "length str \<le> 0x1f"; cases "length str \<le> 0xff"; cases "length str \<le> 0xffff")
  qed (auto simp: string_pack_def string_pack_sb_def Let_def fun_eq_iff simp del: write_int8s.simps)
  show ?thesis
    unfolding h(2)
    by (rule sb_sink.appends_bind [OF write_int8s_appends copy_into_appends]) (use assms h(1) in simp_all)
qed

lemma string_pack_length: "length (string_pack str []) \<le> length str + 5"
  by (simp add: string_pack_def Let_def)

end
