(* ===== verification/Json_Pack.thy ===== *)
theory Json_Pack
  imports Json_Value Json_String
begin

text \<open>
  The \<open>pack\<close> functions of the JSON classes: MessagePack into a vector and into a
  \<open>util::streambuf\<close>. One function per class and target (\<open>true_value.h\<close>, \<open>false_value.h\<close>,
  \<open>null_value.h\<close>, \<open>array.h\<close>, \<open>object.h\<close>; numbers and strings are in their own theories).
  Containers call \<open>vp->pack(packed)\<close>, a virtual call: \<open>array_pack\<close> and \<open>object_pack\<close> take
  it as the argument \<open>vpack\<close>, and \<open>value_pack\<close> ties the knot by the dynamic type of the value;
  on a null pointer the call is undefined.

  Shown: packing appends, it never fails on a value without null pointers, and the two targets get
  the same bytes. The second is the refinement of the vector by the \<open>streambuf\<close>, through the
  interface \<open>byte_sink\<close>.
\<close>

section \<open>Into a vector\<close>

definition true_pack :: "u8 list \<Rightarrow> u8 list" where
  "true_pack packed = packed @ [0xc3]"

definition false_pack :: "u8 list \<Rightarrow> u8 list" where
  "false_pack packed = packed @ [0xc2]"

definition null_pack :: "u8 list \<Rightarrow> u8 list" where
  "null_pack packed = packed @ [0xc0]"

type_synonym 'p packer = "json \<Rightarrow> 'p \<Rightarrow> 'p result"

fun array_pack_loop :: "'p packer \<Rightarrow> json list \<Rightarrow> 'p \<Rightarrow> 'p result" where
  "array_pack_loop vpack [] packed = Inr packed"
| "array_pack_loop vpack (vp # arr) packed = bind_result (vpack vp packed) (array_pack_loop vpack arr)"

definition array_pack :: "u8 list packer \<Rightarrow> json list \<Rightarrow> u8 list \<Rightarrow> u8 list result" where
  "array_pack vpack arr packed =
     (let len = length arr in
      if len \<le> 0x0f then array_pack_loop vpack arr (packed @ [0x90 OR of_nat len])
      else if len \<le> 0xffff
      then array_pack_loop vpack arr (packed @ [0xdc, len_byte 8 len, len_byte 0 len])
      else array_pack_loop vpack arr
        (packed @ [0xdd, len_byte 24 len, len_byte 16 len, len_byte 8 len, len_byte 0 len]))"

fun object_pack_loop ::
    "u8 list packer \<Rightarrow> (string \<times> json) list \<Rightarrow> u8 list \<Rightarrow> u8 list result" where
  "object_pack_loop vpack [] packed = Inr packed"
| "object_pack_loop vpack (pair # obj) packed =
     bind_result (vpack (snd pair) (string_pack (fst pair) packed)) (object_pack_loop vpack obj)"

definition object_pack ::
    "u8 list packer \<Rightarrow> (string \<times> json) list \<Rightarrow> u8 list \<Rightarrow> u8 list result" where
  "object_pack vpack obj packed =
     (let len = length obj in
      if len \<le> 0x0f then object_pack_loop vpack obj (packed @ [0x80 OR of_nat len])
      else if len \<le> 0xffff
      then object_pack_loop vpack obj (packed @ [0xde, len_byte 8 len, len_byte 0 len])
      else object_pack_loop vpack obj
        (packed @ [0xdf, len_byte 24 len, len_byte 16 len, len_byte 8 len, len_byte 0 len]))"

lemma array_pack_loop_cong:
  "(\<And>v p. v \<in> set arr \<Longrightarrow> f v p = g v p) \<Longrightarrow> array_pack_loop f arr packed = array_pack_loop g arr packed"
  by (induction arr arbitrary: packed) (auto intro!: bind_result_cong)

lemma object_pack_loop_cong:
  "(\<And>m p. m \<in> set obj \<Longrightarrow> f (snd m) p = g (snd m) p) \<Longrightarrow>
     object_pack_loop f obj packed = object_pack_loop g obj packed"
  by (induction obj arbitrary: packed) (auto intro!: bind_result_cong)

lemma array_pack_cong [fundef_cong]:
  assumes "arr = arr'" and "packed = packed'" and "\<And>v p. v \<in> set arr' \<Longrightarrow> f v p = g v p"
  shows "array_pack f arr packed = array_pack g arr' packed'"
proof -
  have "array_pack_loop f arr = array_pack_loop g arr'"
    using assms array_pack_loop_cong [of arr' f g] by (simp add: fun_eq_iff)
  then show ?thesis by (simp only: array_pack_def assms(1,2))
qed

lemma object_pack_cong [fundef_cong]:
  assumes "obj = obj'" and "packed = packed'" and "\<And>m p. m \<in> set obj' \<Longrightarrow> f (snd m) p = g (snd m) p"
  shows "object_pack f obj packed = object_pack g obj' packed'"
proof -
  have "object_pack_loop f obj = object_pack_loop g obj'"
    using assms object_pack_loop_cong [of obj' f g] by (simp add: fun_eq_iff)
  then show ?thesis by (simp only: object_pack_def assms(1,2))
qed

fun value_pack :: "bool \<Rightarrow> json \<Rightarrow> u8 list \<Rightarrow> u8 list result" where
  "value_pack le Nullptr packed = Inl (Undefined Null_dereference)"
| "value_pack le Null_value packed = Inr (null_pack packed)"
| "value_pack le True_value packed = Inr (true_pack packed)"
| "value_pack le False_value packed = Inr (false_pack packed)"
| "value_pack le (Number num) packed = Inr (number_pack le num packed)"
| "value_pack le (String str) packed = Inr (string_pack str packed)"
| "value_pack le (Array arr) packed = array_pack (\<lambda>v p. value_pack le v p) arr packed"
| "value_pack le (Object obj) packed = object_pack (\<lambda>v p. value_pack le v p) obj packed"

text \<open>\<open>value::pack()\<close>\<close>

definition pack :: "bool \<Rightarrow> json \<Rightarrow> u8 list result" where
  "pack le v = value_pack le v []"

section \<open>Into a streambuf\<close>

definition true_pack_sb :: "streambuf \<Rightarrow> streambuf result" where
  "true_pack_sb packed = write_int8 0xc3 packed"

definition false_pack_sb :: "streambuf \<Rightarrow> streambuf result" where
  "false_pack_sb packed = write_int8 0xc2 packed"

definition null_pack_sb :: "streambuf \<Rightarrow> streambuf result" where
  "null_pack_sb packed = write_int8 0xc0 packed"

definition array_pack_sb :: "streambuf packer \<Rightarrow> json list \<Rightarrow> streambuf \<Rightarrow> streambuf result" where
  "array_pack_sb vpack arr packed =
     (let len = length arr in
      if len \<le> 0x0f then
        bind_result (write_int8s [0x90 OR of_nat len] packed) (array_pack_loop vpack arr)
      else if len \<le> 0xffff then
        bind_result (write_int8s [0xdc, len_byte 8 len, len_byte 0 len] packed) (array_pack_loop vpack arr)
      else
        bind_result (write_int8s [0xdd, len_byte 24 len, len_byte 16 len, len_byte 8 len, len_byte 0 len] packed)
          (array_pack_loop vpack arr))"

fun object_pack_loop_sb ::
    "streambuf packer \<Rightarrow> (string \<times> json) list \<Rightarrow> streambuf \<Rightarrow> streambuf result" where
  "object_pack_loop_sb vpack [] packed = Inr packed"
| "object_pack_loop_sb vpack (pair # obj) packed =
     bind_result (string_pack_sb (fst pair) packed) (\<lambda>packed.
     bind_result (vpack (snd pair) packed) (object_pack_loop_sb vpack obj))"

definition object_pack_sb ::
    "streambuf packer \<Rightarrow> (string \<times> json) list \<Rightarrow> streambuf \<Rightarrow> streambuf result" where
  "object_pack_sb vpack obj packed =
     (let len = length obj in
      if len \<le> 0x0f then
        bind_result (write_int8s [0x80 OR of_nat len] packed) (object_pack_loop_sb vpack obj)
      else if len \<le> 0xffff then
        bind_result (write_int8s [0xde, len_byte 8 len, len_byte 0 len] packed) (object_pack_loop_sb vpack obj)
      else
        bind_result (write_int8s [0xdf, len_byte 24 len, len_byte 16 len, len_byte 8 len, len_byte 0 len] packed)
          (object_pack_loop_sb vpack obj))"

lemma object_pack_loop_sb_cong:
  "(\<And>m p. m \<in> set obj \<Longrightarrow> f (snd m) p = g (snd m) p) \<Longrightarrow>
     object_pack_loop_sb f obj packed = object_pack_loop_sb g obj packed"
  by (induction obj arbitrary: packed) (auto intro!: bind_result_cong)

lemma array_pack_sb_cong [fundef_cong]:
  assumes "arr = arr'" and "packed = packed'" and "\<And>v p. v \<in> set arr' \<Longrightarrow> f v p = g v p"
  shows "array_pack_sb f arr packed = array_pack_sb g arr' packed'"
proof -
  have "array_pack_loop f arr = array_pack_loop g arr'"
    using assms array_pack_loop_cong [of arr' f g] by (simp add: fun_eq_iff)
  then show ?thesis by (simp only: array_pack_sb_def assms(1,2))
qed

lemma object_pack_sb_cong [fundef_cong]:
  assumes "obj = obj'" and "packed = packed'" and "\<And>m p. m \<in> set obj' \<Longrightarrow> f (snd m) p = g (snd m) p"
  shows "object_pack_sb f obj packed = object_pack_sb g obj' packed'"
proof -
  have "object_pack_loop_sb f obj = object_pack_loop_sb g obj'"
    using assms object_pack_loop_sb_cong [of obj' f g] by (simp add: fun_eq_iff)
  then show ?thesis by (simp only: object_pack_sb_def assms(1,2))
qed

fun value_pack_sb :: "bool \<Rightarrow> json \<Rightarrow> streambuf \<Rightarrow> streambuf result" where
  "value_pack_sb le Nullptr packed = Inl (Undefined Null_dereference)"
| "value_pack_sb le Null_value packed = null_pack_sb packed"
| "value_pack_sb le True_value packed = true_pack_sb packed"
| "value_pack_sb le False_value packed = false_pack_sb packed"
| "value_pack_sb le (Number num) packed = number_pack_sb le num packed"
| "value_pack_sb le (String str) packed = string_pack_sb str packed"
| "value_pack_sb le (Array arr) packed = array_pack_sb (\<lambda>v p. value_pack_sb le v p) arr packed"
| "value_pack_sb le (Object obj) packed = object_pack_sb (\<lambda>v p. value_pack_sb le v p) obj packed"

section \<open>Packing appends\<close>

definition array_header :: "nat \<Rightarrow> u8 list" where
  "array_header len =
     (if len \<le> 0x0f then [0x90 OR of_nat len]
      else if len \<le> 0xffff then [0xdc, len_byte 8 len, len_byte 0 len]
      else [0xdd, len_byte 24 len, len_byte 16 len, len_byte 8 len, len_byte 0 len])"

definition object_header :: "nat \<Rightarrow> u8 list" where
  "object_header len =
     (if len \<le> 0x0f then [0x80 OR of_nat len]
      else if len \<le> 0xffff then [0xde, len_byte 8 len, len_byte 0 len]
      else [0xdf, len_byte 24 len, len_byte 16 len, len_byte 8 len, len_byte 0 len])"

text \<open>The MessagePack form of a value; the reference both targets are compared with.\<close>

fun json_bytes :: "bool \<Rightarrow> json \<Rightarrow> u8 list" where
  "json_bytes le Nullptr = []"
| "json_bytes le Null_value = [0xc0]"
| "json_bytes le True_value = [0xc3]"
| "json_bytes le False_value = [0xc2]"
| "json_bytes le (Number num) = number_bytes le num"
| "json_bytes le (String str) = string_pack str []"
| "json_bytes le (Array arr) = array_header (length arr) @ concat (map (json_bytes le) arr)"
| "json_bytes le (Object obj) =
     object_header (length obj) @ concat (map (\<lambda>m. string_pack (fst m) [] @ json_bytes le (snd m)) obj)"

fun no_nullptr :: "json \<Rightarrow> bool" where
  "no_nullptr Nullptr = False"
| "no_nullptr (Array arr) = (\<forall>v \<in> set arr. no_nullptr v)"
| "no_nullptr (Object obj) = (\<forall>m \<in> set obj. no_nullptr (snd m))"
| "no_nullptr _ = True"

lemma json_wf_no_nullptr: "json_wf v \<Longrightarrow> no_nullptr v"
  by (induction v rule: no_nullptr.induct) auto

lemma array_pack_loop_bytes:
  "(\<And>v p. v \<in> set arr \<Longrightarrow> f v p = Inr (p @ h v)) \<Longrightarrow>
     array_pack_loop f arr packed = Inr (packed @ concat (map h arr))"
  by (induction arr arbitrary: packed) simp_all

lemma object_pack_loop_bytes:
  "(\<And>m p. m \<in> set obj \<Longrightarrow> f (snd m) p = Inr (p @ h (snd m))) \<Longrightarrow>
     object_pack_loop f obj packed = Inr (packed @ concat (map (\<lambda>m. string_pack (fst m) [] @ h (snd m)) obj))"
proof (induction obj arbitrary: packed)
  case (Cons m obj)
  have "f (snd m) (string_pack (fst m) packed) = Inr (packed @ string_pack (fst m) [] @ h (snd m))"
    using Cons.prems [of m] string_pack_append [of "fst m" packed] by simp
  with Cons show ?case by simp
qed simp

lemma value_pack_bytes:
  "no_nullptr v \<Longrightarrow> value_pack le v packed = Inr (packed @ json_bytes le v)"
proof (induction v arbitrary: packed rule: json_induct)
  case (Array arr)
  then have "array_pack_loop (\<lambda>v p. value_pack le v p) arr q = Inr (q @ concat (map (json_bytes le) arr))" for q
    by (intro array_pack_loop_bytes) simp
  then show ?case by (simp add: array_pack_def array_header_def Let_def)
next
  case (Object obj)
  then have "object_pack_loop (\<lambda>v p. value_pack le v p) obj q =
      Inr (q @ concat (map (\<lambda>m. string_pack (fst m) [] @ json_bytes le (snd m)) obj))" for q
    by (intro object_pack_loop_bytes) simp
  then show ?case by (simp add: object_pack_def object_header_def Let_def)
next
  case (String str)
  show ?case by (simp, rule string_pack_append)
qed (simp_all add: null_pack_def true_pack_def false_pack_def number_pack_bytes)

section \<open>The streambuf refines the vector\<close>

text \<open>Every string (keys included), array and object of the value has fewer than \<open>n\<close> elements.\<close>

fun json_sizes :: "nat \<Rightarrow> json \<Rightarrow> bool" where
  "json_sizes n (String str) = (length str < n)"
| "json_sizes n (Array arr) = (length arr < n \<and> (\<forall>v \<in> set arr. json_sizes n v))"
| "json_sizes n (Object obj) =
     (length obj < n \<and> (\<forall>m \<in> set obj. length (fst m) < n \<and> json_sizes n (snd m)))"
| "json_sizes n _ = True"

lemma write_int8_appends: "sb_sink.appends (write_int8 b) [b]"
  unfolding write_int8_def by (rule sb_sink.appends_byte)

lemma array_pack_loop_appends:
  "(\<And>v. v \<in> set arr \<Longrightarrow> sb_sink.appends (f v) (h v)) \<Longrightarrow>
     sb_sink.appends (array_pack_loop f arr) (concat (map h arr))"
proof (induction arr)
  case Nil
  have "array_pack_loop f [] = Inr" by (simp add: fun_eq_iff)
  then show ?case using sb_sink.appends_nil by simp
next
  case (Cons v arr)
  have "array_pack_loop f (v # arr) = (\<lambda>s. bind_result (f v s) (array_pack_loop f arr))"
    by (simp add: fun_eq_iff)
  moreover have "sb_sink.appends \<dots> (h v @ concat (map h arr))"
    using Cons by (intro sb_sink.appends_bind [OF _ _ refl]) auto
  ultimately show ?case by simp
qed

lemma object_pack_loop_appends:
  "(\<And>m. m \<in> set obj \<Longrightarrow> length (fst m) < 2 ^ 31 \<and> sb_sink.appends (f (snd m)) (h (snd m))) \<Longrightarrow>
     sb_sink.appends (object_pack_loop_sb f obj)
       (concat (map (\<lambda>m. string_pack (fst m) [] @ h (snd m)) obj))"
proof (induction obj)
  case Nil
  have "object_pack_loop_sb f [] = Inr" by (simp add: fun_eq_iff)
  then show ?case using sb_sink.appends_nil by simp
next
  case (Cons m obj)
  let ?rest = "concat (map (\<lambda>m. string_pack (fst m) [] @ h (snd m)) obj)"
  have "sb_sink.appends (\<lambda>s. bind_result (f (snd m) s) (object_pack_loop_sb f obj)) (h (snd m) @ ?rest)"
    using Cons by (intro sb_sink.appends_bind [OF _ _ refl]) auto
  then have "sb_sink.appends
      (\<lambda>s. bind_result (string_pack_sb (fst m) s) (\<lambda>s. bind_result (f (snd m) s) (object_pack_loop_sb f obj)))
      (string_pack (fst m) [] @ h (snd m) @ ?rest)"
    using Cons.prems by (intro sb_sink.appends_bind [OF string_pack_sb_appends _ refl]) auto
  moreover have "object_pack_loop_sb f (m # obj) =
      (\<lambda>s. bind_result (string_pack_sb (fst m) s) (\<lambda>s. bind_result (f (snd m) s) (object_pack_loop_sb f obj)))"
    by (simp add: fun_eq_iff)
  ultimately show ?case by simp
qed

lemma array_pack_sb_header:
  "array_pack_sb f arr = (\<lambda>s. bind_result (write_int8s (array_header (length arr)) s) (array_pack_loop f arr))"
  by (auto simp: fun_eq_iff array_pack_sb_def array_header_def Let_def simp del: write_int8s.simps)

lemma object_pack_sb_header:
  "object_pack_sb f obj = (\<lambda>s. bind_result (write_int8s (object_header (length obj)) s) (object_pack_loop_sb f obj))"
  by (auto simp: fun_eq_iff object_pack_sb_def object_header_def Let_def simp del: write_int8s.simps)

lemma value_pack_sb_appends:
  "no_nullptr v \<Longrightarrow> json_sizes (2 ^ 31) v \<Longrightarrow> sb_sink.appends (value_pack_sb le v) (json_bytes le v)"
proof (induction v rule: json_induct)
  case (Array arr)
  have "value_pack_sb le (Array arr) = array_pack_sb (\<lambda>v p. value_pack_sb le v p) arr"
    by (simp add: fun_eq_iff)
  moreover have "sb_sink.appends (array_pack_loop (\<lambda>v p. value_pack_sb le v p) arr) (concat (map (json_bytes le) arr))"
    using Array by (intro array_pack_loop_appends) simp
  ultimately show ?case
    using sb_sink.appends_bind [OF write_int8s_appends _ refl] by (simp add: array_pack_sb_header)
next
  case (Object obj)
  have "value_pack_sb le (Object obj) = object_pack_sb (\<lambda>v p. value_pack_sb le v p) obj"
    by (simp add: fun_eq_iff)
  moreover have "sb_sink.appends (object_pack_loop_sb (\<lambda>v p. value_pack_sb le v p) obj)
      (concat (map (\<lambda>m. string_pack (fst m) [] @ json_bytes le (snd m)) obj))"
    using Object by (intro object_pack_loop_appends) simp
  ultimately show ?case
    using sb_sink.appends_bind [OF write_int8s_appends _ refl] by (simp add: object_pack_sb_header)
next
  case Null
  then show ?case
    using write_int8_appends by (simp add: null_pack_sb_def fun_eq_iff flip: sb_sink.appends_def)
next
  case True
  then show ?case using write_int8_appends by (simp add: true_pack_sb_def)
next
  case False
  then show ?case using write_int8_appends by (simp add: false_pack_sb_def)
next
  case (Number num)
  then show ?case using number_pack_sb_appends by simp
next
  case (String str)
  then show ?case using string_pack_sb_appends by simp
qed simp

end
