(* ===== verification/Json_Unpack.thy ===== *)
theory Json_Unpack
  imports Json_Pack
begin

text \<open>
  The \<open>unpack\<close> functions of the JSON classes. They read through a bare \<open>const uint8_t*\<close>: the
  model of the pointer is the bytes up to the end of the allocation, and reading past them is
  \<open>Undefined Out_of_bounds\<close>. Containers call \<open>val->unpack(it)\<close> on a value whose class they
  choose by the first byte; \<open>value_unpack\<close> is that choice and that call. Its fuel bounds the
  nesting depth; every level consumes a byte, so the number of bytes is always enough
  (\<open>value_unpack_fuel\<close>).

  Shown: unpacking what was packed gives the value back and stops right behind it; every proper
  prefix of a packed value makes the reader run past the end of its input; \<open>unpack\<close> of any input
  returns or throws, it never runs out of fuel; what it builds is well formed.
\<close>

section \<open>The readers\<close>

definition true_unpack :: "u8 list \<Rightarrow> u8 list result" where
  "true_unpack bytes =
     bind_result (deref bytes) (\<lambda>b. if b = 0xc3 then Inr (tl bytes) else Inl invalid_messagepack)"

definition false_unpack :: "u8 list \<Rightarrow> u8 list result" where
  "false_unpack bytes =
     bind_result (deref bytes) (\<lambda>b. if b = 0xc2 then Inr (tl bytes) else Inl invalid_messagepack)"

definition null_unpack :: "u8 list \<Rightarrow> u8 list result" where
  "null_unpack bytes =
     bind_result (deref bytes) (\<lambda>b. if b = 0xc0 then Inr (tl bytes) else Inl invalid_messagepack)"

type_synonym unpacker = "u8 list \<Rightarrow> (json \<times> u8 list) result"

fun array_unpack_loop :: "unpacker \<Rightarrow> nat \<Rightarrow> json list \<Rightarrow> u8 list \<Rightarrow> (json list \<times> u8 list) result" where
  "array_unpack_loop vunpack 0 self it = Inr (self, it)"
| "array_unpack_loop vunpack (Suc n) self it =
     bind_result (vunpack it) (\<lambda>(val, it). array_unpack_loop vunpack n (self @ [val]) it)"

definition array_unpack :: "unpacker \<Rightarrow> json list \<Rightarrow> u8 list \<Rightarrow> (json list \<times> u8 list) result" where
  "array_unpack vunpack self bytes =
     bind_result (deref bytes) (\<lambda>b.
     bind_result
       (if b \<ge> 0x90 \<and> b \<le> 0x9f then Inr (unat (b AND 0x0f), bytes)
        else if b = 0xdc then shift_in_len 2 0 bytes
        else if b = 0xdd then shift_in_len 4 0 bytes
        else Inl invalid_messagepack)
     (\<lambda>(len, it). array_unpack_loop vunpack len self (tl it)))"

fun object_unpack_loop ::
    "unpacker \<Rightarrow> nat \<Rightarrow> (string \<times> json) list \<Rightarrow> u8 list \<Rightarrow> ((string \<times> json) list \<times> u8 list) result" where
  "object_unpack_loop vunpack 0 self it = Inr (self, it)"
| "object_unpack_loop vunpack (Suc n) self it =
     bind_result (string_unpack it) (\<lambda>(key, it).
     bind_result (vunpack it) (\<lambda>(val, it).
       object_unpack_loop vunpack n (fst (map_insert key val self)) it))"

definition object_unpack ::
    "unpacker \<Rightarrow> (string \<times> json) list \<Rightarrow> u8 list \<Rightarrow> ((string \<times> json) list \<times> u8 list) result" where
  "object_unpack vunpack self bytes =
     bind_result (deref bytes) (\<lambda>b.
     bind_result
       (if b \<ge> 0x80 \<and> b \<le> 0x8f then Inr (unat (b AND 0x0f), bytes)
        else if b = 0xde then shift_in_len 2 0 bytes
        else if b = 0xdf then shift_in_len 4 0 bytes
        else Inl invalid_messagepack)
     (\<lambda>(len, it). object_unpack_loop vunpack len self (tl it)))"

text \<open>The choice of the class by the first byte, and the virtual call.\<close>

definition number_byte :: "u8 \<Rightarrow> bool" where
  "number_byte b \<longleftrightarrow> b \<le> 0x7f \<or> b \<ge> 0xe0 \<or> b = 0xd0 \<or> b = 0xd1 \<or> b = 0xd2 \<or> b = 0xd3 \<or> b = 0xca \<or> b = 0xcb"

definition string_byte :: "u8 \<Rightarrow> bool" where
  "string_byte b \<longleftrightarrow> b \<ge> 0xa0 \<and> b \<le> 0xbf \<or> b = 0xd9 \<or> b = 0xda \<or> b = 0xdb"

definition array_byte :: "u8 \<Rightarrow> bool" where
  "array_byte b \<longleftrightarrow> b \<ge> 0x90 \<and> b \<le> 0x9f \<or> b = 0xdc \<or> b = 0xdd"

definition object_byte :: "u8 \<Rightarrow> bool" where
  "object_byte b \<longleftrightarrow> b \<ge> 0x80 \<and> b \<le> 0x8f \<or> b = 0xde \<or> b = 0xdf"

fun value_unpack :: "bool \<Rightarrow> nat \<Rightarrow> u8 list \<Rightarrow> (json \<times> u8 list) result" where
  "value_unpack le 0 it = Inl Out_of_fuel"
| "value_unpack le (Suc fuel) it =
     bind_result (deref it) (\<lambda>b.
       if b = 0xc0 then bind_result (null_unpack it) (\<lambda>it. Inr (Null_value, it))
       else if b = 0xc2 then bind_result (false_unpack it) (\<lambda>it. Inr (False_value, it))
       else if b = 0xc3 then bind_result (true_unpack it) (\<lambda>it. Inr (True_value, it))
       else if number_byte b
       then bind_result (number_unpack le it) (\<lambda>(num, it). Inr (Number num, it))
       else if string_byte b
       then bind_result (string_unpack it) (\<lambda>(str, it). Inr (String str, it))
       else if array_byte b
       then bind_result (array_unpack (value_unpack le fuel) [] it) (\<lambda>(arr, it). Inr (Array arr, it))
       else if object_byte b
       then bind_result (object_unpack (value_unpack le fuel) [] it) (\<lambda>(obj, it). Inr (Object obj, it))
       else Inl (Bad_format_error ''Invalid or not supported MessagePack format.''))"

text \<open>
  \<open>value::unpack(const std::vector<uint8_t>&)\<close> and \<open>value::unpack(const util::streambuf&)\<close>, on
  an object: the pointer is \<open>data()\<close>, or \<open>in_ptr()\<close> into the whole allocation of the buffer.
\<close>

definition unpack_vector ::
    "bool \<Rightarrow> (string \<times> json) list \<Rightarrow> u8 list \<Rightarrow> (string \<times> json) list result" where
  "unpack_vector le self packed =
     bind_result (object_unpack (value_unpack le (length packed)) self packed) (\<lambda>(obj, it). Inr obj)"

definition unpack_streambuf ::
    "bool \<Rightarrow> (string \<times> json) list \<Rightarrow> streambuf \<Rightarrow> (string \<times> json) list result" where
  "unpack_streambuf le self packed =
     (let bytes = drop (gnext packed) (buffer packed) in
      bind_result (object_unpack (value_unpack le (length bytes)) self bytes) (\<lambda>(obj, it). Inr obj))"

section \<open>Headers of packed values\<close>

lemma array_header_read:
  assumes "len < 2 ^ 32"
  shows "array_unpack f self (array_header len @ rest) = array_unpack_loop f len self rest"
proof -
  have h: "len \<le> 15 \<Longrightarrow> unat ((0x90 OR of_nat len :: u8) AND 0x0f) = len \<and> unat (0x90 OR of_nat len :: u8) = 0x90 + len"
    using fix_header [of len 4 "0x90"] by (simp add: mask_eq_exp_minus_1)
  consider "len \<le> 15" | "\<not> len \<le> 15" "len \<le> 65535" | "\<not> len \<le> 65535" by linarith
  then show ?thesis
    using assms h
    by cases (simp_all add: array_header_def array_unpack_def word_le_nat_alt shift_in_len_2 shift_in_len_4)
qed

lemma object_header_read:
  assumes "len < 2 ^ 32"
  shows "object_unpack f self (object_header len @ rest) = object_unpack_loop f len self rest"
proof -
  have h: "len \<le> 15 \<Longrightarrow> unat ((0x80 OR of_nat len :: u8) AND 0x0f) = len \<and> unat (0x80 OR of_nat len :: u8) = 0x80 + len"
    using fix_header [of len 4 "0x80"] by (simp add: mask_eq_exp_minus_1)
  consider "len \<le> 15" | "\<not> len \<le> 15" "len \<le> 65535" | "\<not> len \<le> 65535" by linarith
  then show ?thesis
    using assms h
    by cases (simp_all add: object_header_def object_unpack_def word_le_nat_alt shift_in_len_2 shift_in_len_4)
qed

section \<open>The class is chosen by the first byte\<close>

lemma number_bytes_head:
  "\<exists>b r. number_bytes le num = b # r \<and>
     number_byte b"
proof (cases "integral num \<and> - 32 \<le> sint (val num) \<and> sint (val num) \<le> 127")
  case True
  then have "number_bytes le num = [ucast (val num)]" by (simp add: number_bytes_def)
  moreover have "(ucast (val num) :: u8) \<le> 0x7f \<or> (ucast (val num) :: u8) \<ge> 0xe0"
    using True by (intro unpack_fixint) simp_all
  ultimately show ?thesis by (auto simp: number_byte_def)
qed (auto simp: number_bytes_def Let_def number_byte_def)

lemma string_pack_head:
  "\<exists>b r. string_pack str [] = b # r \<and> string_byte b"
  using string_header_fix [of "length str"] by (simp add: string_pack_def Let_def string_byte_def)

lemma array_header_head:
  "\<exists>b r. array_header len = b # r \<and> array_byte b"
proof -
  have "len \<le> 15 \<Longrightarrow> unat (0x90 OR of_nat len :: u8) = 0x90 + len"
    using fix_header [of len 4 "0x90"] by (simp add: mask_eq_exp_minus_1)
  then show ?thesis by (auto simp: array_header_def array_byte_def word_le_nat_alt)
qed

lemma object_header_head:
  "\<exists>b r. object_header len = b # r \<and> object_byte b"
proof -
  have "len \<le> 15 \<Longrightarrow> unat (0x80 OR of_nat len :: u8) = 0x80 + len"
    using fix_header [of len 4 "0x80"] by (simp add: mask_eq_exp_minus_1)
  then show ?thesis by (auto simp: object_header_def object_byte_def word_le_nat_alt)
qed

lemmas first_bytes = number_byte_def string_byte_def array_byte_def object_byte_def

lemma first_byte_disjoint:
  "number_byte b \<or> string_byte b \<or> array_byte b \<or> object_byte b \<Longrightarrow> b \<noteq> 0xc0 \<and> b \<noteq> 0xc2 \<and> b \<noteq> 0xc3"
  "string_byte b \<or> array_byte b \<or> object_byte b \<Longrightarrow> \<not> number_byte b"
  "array_byte b \<or> object_byte b \<Longrightarrow> \<not> string_byte b"
  "object_byte b \<Longrightarrow> \<not> array_byte b"
  by (auto simp: first_bytes word_le_nat_alt)

lemma value_unpack_class:
  "number_byte b \<Longrightarrow> value_unpack le (Suc n) (b # r) =
     bind_result (number_unpack le (b # r)) (\<lambda>(num, it). Inr (Number num, it))"
  "string_byte b \<Longrightarrow> value_unpack le (Suc n) (b # r) =
     bind_result (string_unpack (b # r)) (\<lambda>(str, it). Inr (String str, it))"
  "array_byte b \<Longrightarrow> value_unpack le (Suc n) (b # r) =
     bind_result (array_unpack (value_unpack le n) [] (b # r)) (\<lambda>(arr, it). Inr (Array arr, it))"
  "object_byte b \<Longrightarrow> value_unpack le (Suc n) (b # r) =
     bind_result (object_unpack (value_unpack le n) [] (b # r)) (\<lambda>(obj, it). Inr (Object obj, it))"
  using first_byte_disjoint [of b] by simp_all

section \<open>Unpacking what was packed\<close>

text \<open>
  Reading a number back recomputes its text, so a number comes back unchanged when its text is
  the one its constructors give it.
\<close>

definition number_canonical :: "number \<Rightarrow> bool" where
  "number_canonical num \<longleftrightarrow>
     (if integral num then num = number_of_int (val num) else number_of_real (val num) = Inr num)"

lemma array_unpack_loop_bytes:
  "(\<And>v rest. v \<in> set arr \<Longrightarrow> f (h v @ rest) = Inr (v, rest)) \<Longrightarrow>
     array_unpack_loop f (length arr) self (concat (map h arr) @ rest) = Inr (self @ arr, rest)"
  by (induction arr arbitrary: self) simp_all

lemma object_unpack_loop_bytes:
  assumes "\<And>m rest. m \<in> set obj \<Longrightarrow> length (fst m) < 2 ^ 32 \<and> f (h (snd m) @ rest) = Inr (snd m, rest)"
  shows "object_unpack_loop f (length obj) self
      (concat (map (\<lambda>m. string_pack (fst m) [] @ h (snd m)) obj) @ rest) =
    Inr (std_map.insert_all obj self, rest)"
  using assms
proof (induction obj arbitrary: self)
  case (Cons m obj)
  obtain k v where m: "m = (k, v)" by force
  with Cons.prems [of m] Cons show ?case
    by (simp add: string_unpack_pack)
qed simp

text \<open>A value of each class, when its parts are read back.\<close>

lemma array_value_bytes:
  assumes "length arr < 2 ^ 32"
    and "\<And>v rest. v \<in> set arr \<Longrightarrow> value_unpack le n (json_bytes le v @ rest) = Inr (v, rest)"
  shows "value_unpack le (Suc n) (json_bytes le (Array arr) @ rest) = Inr (Array arr, rest)"
proof -
  obtain b r where h: "array_header (length arr) = b # r" "array_byte b"
    using array_header_head by blast
  have "array_unpack_loop (value_unpack le n) (length arr) [] (concat (map (json_bytes le) arr) @ rest) =
      Inr (arr, rest)"
    using assms(2) by (simp add: array_unpack_loop_bytes)
  with assms(1) show ?thesis
    using value_unpack_class(3) [OF h(2), of le n "r @ concat (map (json_bytes le) arr) @ rest"]
      array_header_read [of "length arr" "value_unpack le n" "[]" "concat (map (json_bytes le) arr) @ rest"]
    by (simp add: h(1))
qed

lemma object_value_bytes:
  assumes "json_wf (Object obj)" "length obj < 2 ^ 32" "\<And>m. m \<in> set obj \<Longrightarrow> length (fst m) < 2 ^ 32"
    and "\<And>m rest. m \<in> set obj \<Longrightarrow> value_unpack le n (json_bytes le (snd m) @ rest) = Inr (snd m, rest)"
  shows "value_unpack le (Suc n) (json_bytes le (Object obj) @ rest) = Inr (Object obj, rest)"
proof -
  let ?body = "concat (map (\<lambda>m. string_pack (fst m) [] @ json_bytes le (snd m)) obj)"
  obtain b r where h: "object_header (length obj) = b # r" "object_byte b"
    using object_header_head by blast
  have "object_unpack_loop (value_unpack le n) (length obj) [] (?body @ rest) = Inr (obj, rest)"
    using assms by (subst object_unpack_loop_bytes) (simp_all add: insert_all_sorted)
  with assms(2) show ?thesis
    using value_unpack_class(4) [OF h(2), of le n "r @ ?body @ rest"]
      object_header_read [of "length obj" "value_unpack le n" "[]" "?body @ rest"]
    by (simp add: h(1))
qed

lemma number_value_bytes:
  assumes "number_canonical num"
  shows "value_unpack le (Suc n) (json_bytes le (Number num) @ rest) = Inr (Number num, rest)"
proof -
  obtain b r where h: "number_bytes le num = b # r" "number_byte b"
    using number_bytes_head by blast
  have "number_unpack le (number_bytes le num @ rest) = Inr (num, rest)"
    using assms number_unpack_bytes [of le num rest] by (auto simp: number_canonical_def split: if_splits)
  then show ?thesis
    using value_unpack_class(1) [OF h(2), of le n "r @ rest"] by (simp add: h(1))
qed

lemma string_value_bytes:
  assumes "length str < 2 ^ 32"
  shows "value_unpack le (Suc n) (json_bytes le (String str) @ rest) = Inr (String str, rest)"
proof -
  obtain b r where h: "string_pack str [] = b # r" "string_byte b"
    using string_pack_head by blast
  have "string_unpack (string_pack str [] @ rest) = Inr (str, rest)"
    using assms by (intro string_unpack_pack)
  then show ?thesis
    using value_unpack_class(2) [OF h(2), of le n "r @ rest"] by (simp add: h(1))
qed

lemma value_unpack_bytes:
  assumes "json_wf v" and "json_sizes (2 ^ 32) v" and "json_numbers number_canonical v"
    and "json_depth v \<le> fuel"
  shows "value_unpack le fuel (json_bytes le v @ rest) = Inr (v, rest)"
  using assms
proof (induction v arbitrary: fuel rest rule: json_induct)
  case (Array arr)
  then obtain n where n: "fuel = Suc n" by (cases fuel) simp_all
  have "value_unpack le n (json_bytes le v @ rest) = Inr (v, rest)" if "v \<in> set arr" for v rest
    using Array.prems that n depth_member [OF that] by (intro Array.IH) auto
  with Array.prems n show ?case by (simp only: array_value_bytes json_sizes.simps)
next
  case (Object obj)
  then obtain n where n: "fuel = Suc n" by (cases fuel) simp_all
  have "value_unpack le n (json_bytes le (snd m) @ rest) = Inr (snd m, rest)" if "m \<in> set obj" for m rest
    using Object.prems that n depth_pair [OF that] by (intro Object.IH) auto
  with Object.prems n show ?case
    unfolding n by (intro object_value_bytes) auto
next
  case (Number num)
  then obtain n where "fuel = Suc n" by (cases fuel) simp_all
  with Number show ?case by (simp only: number_value_bytes json_numbers.simps)
next
  case (String str)
  then obtain n where "fuel = Suc n" by (cases fuel) simp_all
  with String show ?case by (simp only: string_value_bytes json_sizes.simps)
qed (auto simp: Suc_le_eq gr0_conv_Suc null_unpack_def true_unpack_def false_unpack_def)

section \<open>Termination: the fuel suffices\<close>

lemma advance_length: "advance it = Inr (b, it') \<Longrightarrow> it' \<noteq> [] \<and> length it' \<le> length it"
  by (auto simp: advance_def split: list.splits)

lemma shift_in_len_length:
  "shift_in_len n len it = Inr (l, it') \<Longrightarrow> it \<noteq> [] \<Longrightarrow> it' \<noteq> [] \<and> length it' \<le> length it"
proof (induction n arbitrary: len it)
  case (Suc n)
  then show ?case by (cases it; cases "tl it") fastforce+
qed simp

lemma shift_in_length:
  "shift_in n w it = Inr (v, it') \<Longrightarrow> it \<noteq> [] \<Longrightarrow> it' \<noteq> [] \<and> length it' \<le> length it"
proof (induction n arbitrary: w it)
  case (Suc n)
  then show ?case by (cases it; cases "tl it") fastforce+
qed simp

lemma shift_in_faults:
  "shift_in_len n len it \<noteq> Inl Out_of_fuel" "shift_in n w it \<noteq> Inl Out_of_fuel"
  by (induction n arbitrary: len w it) (auto simp: bind_result_eq_Inl advance_def split: list.splits)

lemma number_payload_length:
  assumes "number_payload le it = Inr (p, it')"
  shows "it' \<noteq> [] \<and> length it' \<le> length it"
proof (cases it)
  case (Cons b r)
  then show ?thesis
    using assms by (auto simp: number_payload_def bind_result_eq_Inr split: if_splits
        dest!: shift_in_length advance_length)
qed (use assms in \<open>simp add: number_payload_def\<close>)

lemma length_tl_less: "it' \<noteq> [] \<and> length it' \<le> length it \<Longrightarrow> length (tl it') < length it"
  by (cases it') simp_all

lemma number_unpack_length: "number_unpack le it = Inr (num, it') \<Longrightarrow> length it' < length it"
  by (auto simp: number_unpack_def bind_result_eq_Inr split: if_splits
      dest!: number_payload_length intro: length_tl_less)

text \<open>Each of the three length headers, and the pointer at its last byte.\<close>

definition header :: "(u8 \<Rightarrow> bool) \<Rightarrow> (u8 \<Rightarrow> nat) \<Rightarrow> (u8 \<times> nat) list \<Rightarrow> u8 list \<Rightarrow> (nat \<times> u8 list) result" where
  "header short len tags bytes =
     bind_result (deref bytes) (\<lambda>b.
       if short b then Inr (len b, bytes)
       else case map_of tags b of
         Some n \<Rightarrow> shift_in_len n 0 bytes
       | None \<Rightarrow> Inl invalid_messagepack)"

lemma string_unpack_header:
  "string_unpack bytes =
     bind_result (header (\<lambda>b. b \<ge> 0xa0 \<and> b \<le> 0xbf) (\<lambda>b. unat (b AND 0x1f)) [(0xd9, 1), (0xda, 2), (0xdb, 4)] bytes)
       (\<lambda>(len, it). if len \<le> length (tl it) then Inr (map char_of_u8 (take len (tl it)), drop len (tl it))
         else Inl (Undefined Out_of_bounds))"
  by (cases bytes) (simp_all add: string_unpack_def header_def Let_def del: shift_in_len.simps)

lemma array_unpack_header:
  "array_unpack f self bytes =
     bind_result (header (\<lambda>b. b \<ge> 0x90 \<and> b \<le> 0x9f) (\<lambda>b. unat (b AND 0x0f)) [(0xdc, 2), (0xdd, 4)] bytes)
       (\<lambda>(len, it). array_unpack_loop f len self (tl it))"
  by (cases bytes) (simp_all add: array_unpack_def header_def del: shift_in_len.simps)

lemma object_unpack_header:
  "object_unpack f self bytes =
     bind_result (header (\<lambda>b. b \<ge> 0x80 \<and> b \<le> 0x8f) (\<lambda>b. unat (b AND 0x0f)) [(0xde, 2), (0xdf, 4)] bytes)
       (\<lambda>(len, it). object_unpack_loop f len self (tl it))"
  by (cases bytes) (simp_all add: object_unpack_def header_def del: shift_in_len.simps)

lemma header_length: "header short len tags it = Inr (n, it') \<Longrightarrow> length (tl it') < length it"
  by (cases it) (auto simp: header_def split: if_splits option.splits
      dest!: shift_in_len_length intro!: length_tl_less)

lemma string_unpack_length: "string_unpack it = Inr (str, it') \<Longrightarrow> length it' < length it"
  by (auto simp: string_unpack_header bind_result_eq_Inr split: if_splits dest!: header_length)

definition shrinks :: "(u8 list \<Rightarrow> ('a \<times> u8 list) result) \<Rightarrow> bool" where
  "shrinks f \<longleftrightarrow> (\<forall>it v it'. f it = Inr (v, it') \<longrightarrow> length it' < length it)"

lemma shrinksD: "shrinks f \<Longrightarrow> f it = Inr (v, it') \<Longrightarrow> length it' < length it"
  by (auto simp: shrinks_def)

lemma array_unpack_loop_length:
  "shrinks f \<Longrightarrow> array_unpack_loop f n self it = Inr (arr, it') \<Longrightarrow> length it' \<le> length it"
  by (induction n arbitrary: self it) (fastforce simp: bind_result_eq_Inr dest: shrinksD)+

lemma object_unpack_loop_length:
  "shrinks f \<Longrightarrow> object_unpack_loop f n self it = Inr (obj, it') \<Longrightarrow> length it' \<le> length it"
  by (induction n arbitrary: self it)
    (fastforce simp: bind_result_eq_Inr dest: shrinksD string_unpack_length)+

lemma value_unpack_shrinks: "shrinks (value_unpack le fuel)"
proof (induction fuel)
  case (Suc fuel)
  have "length it' < length it" if *: "value_unpack le (Suc fuel) it = Inr (v, it')" for it v it'
  proof -
    obtain b r where it: "it = b # r" using * by (cases it) auto
    show ?thesis
      using * unfolding it
      by (auto simp: bind_result_eq_Inr null_unpack_def true_unpack_def false_unpack_def
          array_unpack_header object_unpack_header split: if_splits
          dest!: number_unpack_length string_unpack_length header_length
            array_unpack_loop_length [OF Suc.IH] object_unpack_loop_length [OF Suc.IH])
  qed
  then show ?case by (auto simp: shrinks_def simp del: value_unpack.simps)
qed (simp add: shrinks_def)

definition fuelled :: "nat \<Rightarrow> (u8 list \<Rightarrow> 'a result) \<Rightarrow> bool" where
  "fuelled n f \<longleftrightarrow> (\<forall>it. length it < n \<longrightarrow> f it \<noteq> Inl Out_of_fuel)"

lemma array_unpack_loop_fuel:
  "shrinks f \<Longrightarrow> fuelled n f \<Longrightarrow> length it < n \<Longrightarrow> array_unpack_loop f k self it \<noteq> Inl Out_of_fuel"
proof (induction k arbitrary: self it)
  case (Suc k)
  then have "f it \<noteq> Inl Out_of_fuel" by (simp add: fuelled_def)
  with Suc show ?case by (fastforce simp: bind_result_eq_Inl dest: shrinksD)
qed simp

lemma header_faults: "header short len tags it \<noteq> Inl Out_of_fuel"
  by (cases it) (simp_all add: header_def invalid_messagepack_def shift_in_faults split: option.splits)

lemma string_unpack_fuel: "string_unpack it \<noteq> Inl Out_of_fuel"
  by (auto simp: string_unpack_header bind_result_eq_Inl header_faults split: if_splits)

lemma number_of_real_fuel: "number_of_real d \<noteq> Inl Out_of_fuel"
  by (auto simp: number_of_real_def double_to_string_def bind_result_eq_Inl Let_def split: if_splits option.splits)

lemma number_unpack_fuel: "number_unpack le it \<noteq> Inl Out_of_fuel"
  by (cases it) (auto simp: number_unpack_def number_payload_def bind_result_eq_Inl shift_in_faults
      number_of_real_fuel invalid_messagepack_def split: if_splits simp del: shift_in.simps)

lemma object_unpack_loop_fuel:
  "shrinks f \<Longrightarrow> fuelled n f \<Longrightarrow> length it < n \<Longrightarrow> object_unpack_loop f k self it \<noteq> Inl Out_of_fuel"
proof (induction k arbitrary: self it)
  case (Suc k)
  show ?case
  proof (cases "string_unpack it")
    case (Inr p)
    obtain key i where p: "p = (key, i)" by force
    have i: "length i < n" using Inr p Suc.prems string_unpack_length by fastforce
    then have "f i \<noteq> Inl Out_of_fuel" using Suc.prems by (simp add: fuelled_def)
    with Inr p i Suc show ?thesis by (fastforce simp: bind_result_eq_Inl dest: shrinksD)
  qed (use string_unpack_fuel [of it] in auto)
qed simp

lemma container_unpack_fuel:
  assumes "shrinks f" and "fuelled n f" and "length it \<le> n"
  shows "array_unpack f self it \<noteq> Inl Out_of_fuel" and "object_unpack f self' it \<noteq> Inl Out_of_fuel"
proof -
  have "length (tl i) < n" if "header s l t it = Inr (k, i)" for s l t k i
    using header_length [OF that] assms(3) by simp
  then show "array_unpack f self it \<noteq> Inl Out_of_fuel" "object_unpack f self' it \<noteq> Inl Out_of_fuel"
    using array_unpack_loop_fuel [OF assms(1,2)] object_unpack_loop_fuel [OF assms(1,2)]
    by (auto simp: array_unpack_header object_unpack_header bind_result_eq_Inl header_faults)
qed

lemma value_unpack_fuel: "fuelled n (value_unpack le n)"
proof (induction n)
  case (Suc n)
  have "value_unpack le (Suc n) it \<noteq> Inl Out_of_fuel" if "length it < Suc n" for it
  proof (cases it)
    case (Cons b r)
    show ?thesis
      using container_unpack_fuel [OF value_unpack_shrinks Suc.IH, of it] that number_unpack_fuel [of le it]
        string_unpack_fuel [of it] unfolding Cons
      by (auto simp: null_unpack_def true_unpack_def false_unpack_def bind_result_eq_Inl
          invalid_messagepack_def split: if_splits)
  qed simp
  then show ?case by (simp add: fuelled_def del: value_unpack.simps)
qed (simp add: fuelled_def)

section \<open>Reading a prefix\<close>

text \<open>
  A reader is stable when more bytes behind its input change nothing: neither what it returns nor
  what it throws, except that a read past the end may now succeed. \<open>ne\<close> and \<open>ne'\<close> say that the
  pointer is not at the end before and after.
\<close>

definition stable :: "bool \<Rightarrow> bool \<Rightarrow> (u8 list \<Rightarrow> ('a \<times> u8 list) result) \<Rightarrow> bool" where
  "stable ne ne' f \<longleftrightarrow> (\<forall>it x. (ne \<longrightarrow> it \<noteq> []) \<longrightarrow>
     (case f it of
        Inr (v, it') \<Rightarrow> (ne' \<longrightarrow> it' \<noteq> []) \<and> f (it @ x) = Inr (v, it' @ x)
      | Inl e \<Rightarrow> e = Undefined Out_of_bounds \<or> f (it @ x) = Inl e))"

lemma stableI:
  assumes "\<And>it x v it'. ne \<longrightarrow> it \<noteq> [] \<Longrightarrow> f it = Inr (v, it') \<Longrightarrow>
      (ne' \<longrightarrow> it' \<noteq> []) \<and> f (it @ x) = Inr (v, it' @ x)"
    and "\<And>it x e. ne \<longrightarrow> it \<noteq> [] \<Longrightarrow> f it = Inl e \<Longrightarrow> e = Undefined Out_of_bounds \<or> f (it @ x) = Inl e"
  shows "stable ne ne' f"
  unfolding stable_def by (intro allI impI) (auto simp: assms split: sum.splits)

lemma stableD:
  assumes "stable ne ne' f" and "ne \<longrightarrow> it \<noteq> []"
  shows "f it = Inr (v, it') \<Longrightarrow> (ne' \<longrightarrow> it' \<noteq> []) \<and> f (it @ x) = Inr (v, it' @ x)"
    and "f it = Inl e \<Longrightarrow> e = Undefined Out_of_bounds \<or> f (it @ x) = Inl e"
  using mp [OF spec [OF spec [OF assms(1) [unfolded stable_def], of it], of x] assms(2)] by simp_all

lemma stable_bind:
  assumes f: "stable ne m f" and g: "\<And>v. stable m ne' (g v)"
  shows "stable ne ne' (\<lambda>it. bind_result (f it) (\<lambda>(v, it). g v it))"
proof (rule stableI, goal_cases)
  case (1 it x v it')
  then obtain a i where "f it = Inr (a, i)" "g a i = Inr (v, it')"
    by (auto simp: bind_result_eq_Inr)
  with stableD(1) [OF f 1(1), of a i x] stableD(1) [OF g [of a], of i v it' x] show ?case by simp
next
  case (2 it x e)
  then consider "f it = Inl e" | a i where "f it = Inr (a, i)" "g a i = Inl e"
    by (auto simp: bind_result_eq_Inl)
  then show ?case
  proof cases
    case 1
    with stableD(2) [OF f 2(1), of e x] show ?thesis by auto
  next
    case (2 a i)
    with stableD(1) [OF f \<open>ne \<longrightarrow> it \<noteq> []\<close>, of a i x] stableD(2) [OF g [of a], of i e x] show ?thesis by auto
  qed
qed

lemma stable_return: "stable ne ne (\<lambda>it. Inr (v, it))"
  by (simp add: stable_def)

lemma stable_tl: "stable True False (\<lambda>it. Inr (v, tl it))"
  by (simp add: stable_def)

lemma stable_fail: "stable ne ne' (\<lambda>it. Inl e)"
  by (simp add: stable_def)

lemma stable_if: "stable ne ne' f \<Longrightarrow> stable ne ne' g \<Longrightarrow> stable ne ne' (\<lambda>it. if c then f it else g it)"
  by (cases c) simp_all

lemma stable_weaken: "stable ne True f \<Longrightarrow> stable ne ne' f"
  unfolding stable_def by (fastforce split: sum.splits)

lemma stable_deref:
  assumes g: "\<And>b. stable True ne' (g b)"
  shows "stable ne ne' (\<lambda>it. bind_result (deref it) (\<lambda>b. g b it))"
proof (rule stableI, goal_cases)
  case (1 it x v it')
  then obtain b r where "it = b # r" "g b it = Inr (v, it')"
    by (auto simp: bind_result_eq_Inr deref_eq_Inr)
  with stableD(1) [OF g [of b], of it v it' x] show ?case by simp
next
  case (2 it x e)
  show ?case
  proof (cases it)
    case (Cons b r)
    with 2 stableD(2) [OF g [of b], of it e x] show ?thesis by simp
  qed (use 2 in simp)
qed

lemma stable_advance: "stable True True advance"
  unfolding stable_def advance_def by (auto split: list.splits)

lemma stable_shift_in: "stable True True (shift_in n w)"
proof (induction n arbitrary: w)
  case 0
  then show ?case by (simp add: stable_def)
next
  case (Suc n)
  have "shift_in (Suc n) w = (\<lambda>it. bind_result (advance it) (\<lambda>(b, it). shift_in n (push_bit 8 w OR ucast b) it))"
    by (simp add: fun_eq_iff)
  then show ?case using stable_bind [OF stable_advance Suc.IH] by metis
qed

lemma stable_shift_in_len: "stable True True (shift_in_len n len)"
proof (induction n arbitrary: len)
  case 0
  then show ?case by (simp add: stable_def)
next
  case (Suc n)
  have "shift_in_len (Suc n) len = (\<lambda>it. bind_result (advance it) (\<lambda>(b, it). shift_in_len n (256 * len + unat b) it))"
    by (simp add: fun_eq_iff)
  then show ?case using stable_bind [OF stable_advance Suc.IH] by metis
qed

lemma stable_case_option:
  "stable ne ne' f \<Longrightarrow> (\<And>a. stable ne ne' (g a)) \<Longrightarrow>
     stable ne ne' (\<lambda>it. case c of None \<Rightarrow> f it | Some a \<Rightarrow> g a it)"
  by (cases c) simp_all

lemmas stable_intros = stable_deref stable_if stable_case_option stable_return stable_fail

lemma stable_header: "stable ne True (header short len tags)"
  unfolding header_def by (intro stable_intros stable_shift_in_len)

lemma stable_string_unpack: "stable ne False string_unpack"
proof -
  have "stable True False (\<lambda>it. if len \<le> length (tl it)
      then Inr (map char_of_u8 (take len (tl it)), drop len (tl it)) else Inl (Undefined Out_of_bounds))" for len
    by (rule stableI) (auto split: if_splits)
  from stable_bind [OF stable_header this] show ?thesis
    unfolding string_unpack_header [abs_def] .
qed

lemma stable_number_payload: "stable ne True (number_payload le)"
  unfolding number_payload_def
  by (intro stable_intros stable_bind [OF stable_shift_in])

lemma stable_number_unpack: "stable ne False (number_unpack le)"
proof -
  have "stable True False (\<lambda>it. bind_result (number_of_real v) (\<lambda>num. Inr (num, tl it)))" for v
    by (cases "number_of_real v") (auto intro: stable_tl stable_fail)
  then have "stable True False (\<lambda>it. if is_int then Inr (number_of_int v, tl it)
      else bind_result (number_of_real v) (\<lambda>num. Inr (num, tl it)))" for is_int v
    by (intro stable_if stable_tl)
  then have "stable True False (case p of (is_int, v) \<Rightarrow> (\<lambda>it. if is_int then Inr (number_of_int v, tl it)
      else bind_result (number_of_real v) (\<lambda>num. Inr (num, tl it))))" for p
    by (cases p) simp
  then show ?thesis
    unfolding number_unpack_def [abs_def] by (rule stable_bind [OF stable_number_payload])
qed

lemma stable_array_loop: "stable False False f \<Longrightarrow> stable False False (array_unpack_loop f n self)"
proof (induction n arbitrary: self)
  case 0
  then show ?case by (simp add: stable_def)
next
  case (Suc n)
  have "array_unpack_loop f (Suc n) self =
      (\<lambda>it. bind_result (f it) (\<lambda>(val, it). array_unpack_loop f n (self @ [val]) it))"
    by (simp add: fun_eq_iff)
  then show ?case using stable_bind [OF Suc.prems Suc.IH [OF Suc.prems]] by metis
qed

lemma stable_object_loop: "stable False False f \<Longrightarrow> stable False False (object_unpack_loop f n self)"
proof (induction n arbitrary: self)
  case 0
  then show ?case by (simp add: stable_def)
next
  case (Suc n)
  have eq: "object_unpack_loop f (Suc n) self =
      (\<lambda>it. bind_result (string_unpack it) (\<lambda>(key, it). bind_result (f it) (\<lambda>(val, it).
         object_unpack_loop f n (fst (map_insert key val self)) it)))"
    by (simp add: fun_eq_iff)
  have "stable False False (\<lambda>it. bind_result (f it) (\<lambda>(val, it).
         object_unpack_loop f n (fst (map_insert key val self)) it))" for key
    by (rule stable_bind [OF Suc.prems Suc.IH [OF Suc.prems]])
  then show ?case unfolding eq by (rule stable_bind [OF stable_string_unpack])
qed

lemma stable_after_header:
  "(\<And>v. stable False False (g v)) \<Longrightarrow> stable ne False (\<lambda>it. bind_result (header s l t it) (\<lambda>(n, it). g n (tl it)))"
proof (rule stable_bind [OF stable_header])
  fix v
  assume g: "\<And>v. stable False False (g v)"
  show "stable True False (\<lambda>it. g v (tl it))"
    by (rule stableI) (use stableD [OF g [of v]] in auto)
qed

lemma stable_value_unpack: "stable False False (value_unpack le n)"
proof (induction n)
  case 0
  then show ?case by (simp add: stable_def)
next
  case (Suc n)
  have lit: "stable True False (\<lambda>it. bind_result (deref it) (\<lambda>b. if b = c then Inr (v, tl it) else Inl e))"
    for c :: u8 and v :: json and e
    by (intro stable_deref stable_if stable_tl stable_fail)
  have arr: "stable True False (array_unpack (value_unpack le n) [])"
    unfolding array_unpack_header [abs_def] by (intro stable_after_header stable_array_loop Suc.IH)
  have obj: "stable True False (object_unpack (value_unpack le n) [])"
    unfolding object_unpack_header [abs_def] by (intro stable_after_header stable_object_loop Suc.IH)
  show ?case
    unfolding value_unpack.simps(2) [abs_def] null_unpack_def true_unpack_def false_unpack_def
      bind_result_assoc if_distrib [of "\<lambda>r. bind_result r f" for f] bind_result_Inr bind_result_Inl
    by (intro stable_deref stable_if lit stable_bind [OF arr stable_return] stable_bind [OF obj stable_return]
        stable_bind [OF stable_number_unpack stable_return] stable_bind [OF stable_string_unpack stable_return]
        stable_fail)
qed

section \<open>What the readers build\<close>

text \<open>The invariant of the values the readers build: no null pointer, members sorted, sizes that
  fit their headers, numbers with the text of their constructors.\<close>

definition json_ok :: "json \<Rightarrow> bool" where
  "json_ok v \<longleftrightarrow> json_wf v \<and> json_sizes (2 ^ 32) v \<and> json_numbers number_canonical v"

lemma json_ok_simps:
  "json_ok (Array arr) \<longleftrightarrow> length arr < 2 ^ 32 \<and> (\<forall>v \<in> set arr. json_ok v)"
  "json_ok (Object obj) \<longleftrightarrow> length obj < 2 ^ 32 \<and> keys_sorted obj \<and>
     (\<forall>m \<in> set obj. length (fst m) < 2 ^ 32 \<and> json_ok (snd m))"
  by (auto simp: json_ok_def)

lemma unat_u8: "unat (b :: u8) < 256"
  using unsigned_less [of b] by simp

lemma shift_in_len_bound:
  "shift_in_len n len it = Inr (l, it') \<Longrightarrow> l < (len + 1) * 256 ^ n"
proof (induction n arbitrary: len it)
  case (Suc n)
  from Suc.prems have "\<exists>(b :: u8) i. shift_in_len n (256 * len + unat b) i = Inr (l, it')"
    by (auto simp: bind_result_eq_Inr)
  then obtain b :: u8 and i where "shift_in_len n (256 * len + unat b) i = Inr (l, it')" by blast
  from Suc.IH [OF this] have "l < (256 * len + unat b + 1) * 256 ^ n" .
  also have "\<dots> \<le> ((len + 1) * 256) * 256 ^ n"
    using unat_u8 [of b] by (intro mult_right_mono) simp_all
  finally show ?case by (simp add: algebra_simps)
qed simp

lemma header_bound:
  assumes "header short len tags it = Inr (n, it')" and "\<And>b. short b \<Longrightarrow> len b < 2 ^ 32"
    and "\<And>t k. (t, k) \<in> set tags \<Longrightarrow> k \<le> 4"
  shows "n < 2 ^ 32"
proof -
  from assms(1) obtain b where "short b \<and> n = len b \<or> (\<exists>k. map_of tags b = Some k \<and> shift_in_len k 0 it = Inr (n, it'))"
    by (auto simp: header_def bind_result_eq_Inr split: if_splits option.splits)
  then show ?thesis
  proof
    assume "\<exists>k. map_of tags b = Some k \<and> shift_in_len k 0 it = Inr (n, it')"
    then obtain k where k: "(b, k) \<in> set tags" "shift_in_len k 0 it = Inr (n, it')"
      by (auto dest: map_of_SomeD)
    have "n < 256 ^ k" using shift_in_len_bound [OF k(2)] by simp
    also have "(256 :: nat) ^ k \<le> 256 ^ 4" by (rule power_increasing [OF assms(3) [OF k(1)]]) simp
    finally show ?thesis by simp
  qed (use assms(2) in simp)
qed

lemma and_mask_bound: "unat ((b :: u8) AND m) < 2 ^ 32"
  using unat_u8 [of "b AND m"] by simp

lemma string_unpack_bound: "string_unpack it = Inr (str, it') \<Longrightarrow> length str < 2 ^ 32"
  by (auto simp: string_unpack_header bind_result_eq_Inr split: if_splits
      dest!: header_bound intro: and_mask_bound)

lemma number_unpack_canonical: "number_unpack le it = Inr (num, it') \<Longrightarrow> number_canonical num"
  by (auto simp: number_unpack_def bind_result_eq_Inr number_canonical_def number_of_int_def
      number_of_real_def split: if_splits)

lemma array_unpack_loop_ok:
  assumes f: "\<And>it v it'. f it = Inr (v, it') \<Longrightarrow> P v"
  shows "array_unpack_loop f n self it = Inr (arr, it') \<Longrightarrow> \<forall>v \<in> set self. P v \<Longrightarrow>
    length arr = length self + n \<and> (\<forall>v \<in> set arr. P v)"
  by (induction n arbitrary: self it) (fastforce simp: bind_result_eq_Inr dest: f)+

lemma length_map_insert: "length (fst (map_insert k v m)) \<le> Suc (length m)"
  by (induction k v m rule: map_insert.induct) (auto simp: Let_def split: prod.splits)

lemma object_unpack_loop_ok:
  assumes f: "\<And>it v it'. f it = Inr (v, it') \<Longrightarrow> P v"
  shows "object_unpack_loop f n self it = Inr (obj, it') \<Longrightarrow> keys_sorted self \<Longrightarrow>
    \<forall>m \<in> set self. length (fst m) < 2 ^ 32 \<and> P (snd m) \<Longrightarrow>
    length obj \<le> length self + n \<and> keys_sorted obj \<and> (\<forall>m \<in> set obj. length (fst m) < 2 ^ 32 \<and> P (snd m))"
proof (induction n arbitrary: self it)
  case (Suc n)
  then obtain key i v j where s: "string_unpack it = Inr (key, i)" "f i = Inr (v, j)"
    "object_unpack_loop f n (fst (map_insert key v self)) j = Inr (obj, it')"
    by (auto simp: bind_result_eq_Inr)
  have "\<forall>m \<in> set (fst (map_insert key v self)). length (fst m) < 2 ^ 32 \<and> P (snd m)"
    using Suc.prems(3) f [OF s(2)] string_unpack_bound [OF s(1)] set_map_insert [of key v self] by auto
  from Suc.IH [OF s(3) sorted_map_insert [OF Suc.prems(2)] this] length_map_insert [of key v self]
  show ?case by auto
qed simp

lemma value_unpack_ok: "value_unpack le n it = Inr (v, it') \<Longrightarrow> json_ok v"
proof (induction n arbitrary: it v it')
  case (Suc n)
  have arr: "json_ok (Array arr)" if *: "array_unpack (value_unpack le n) [] it = Inr (arr, i)" for arr i
  proof -
    from * obtain k j where h: "header (\<lambda>b. b \<ge> 0x90 \<and> b \<le> 0x9f) (\<lambda>b. unat (b AND 0x0f)) [(0xdc, 2), (0xdd, 4)] it
        = Inr (k, j)" and l: "array_unpack_loop (value_unpack le n) k [] (tl j) = Inr (arr, i)"
      by (auto simp: array_unpack_header bind_result_eq_Inr)
    have "k < 2 ^ 32" by (rule header_bound [OF h and_mask_bound]) auto
    moreover have "length arr = length ([] :: json list) + k \<and> (\<forall>v \<in> set arr. json_ok v)"
      by (rule array_unpack_loop_ok [OF _ l]) (auto intro: Suc.IH)
    ultimately show ?thesis by (simp add: json_ok_simps)
  qed
  have obj: "json_ok (Object obj)" if *: "object_unpack (value_unpack le n) [] it = Inr (obj, i)" for obj i
  proof -
    from * obtain k j where h: "header (\<lambda>b. b \<ge> 0x80 \<and> b \<le> 0x8f) (\<lambda>b. unat (b AND 0x0f)) [(0xde, 2), (0xdf, 4)] it
        = Inr (k, j)" and l: "object_unpack_loop (value_unpack le n) k [] (tl j) = Inr (obj, i)"
      by (auto simp: object_unpack_header bind_result_eq_Inr)
    have "k < 2 ^ 32" by (rule header_bound [OF h and_mask_bound]) auto
    moreover have "length obj \<le> length ([] :: (string \<times> json) list) + k \<and> keys_sorted obj \<and>
        (\<forall>m \<in> set obj. length (fst m) < 2 ^ 32 \<and> json_ok (snd m))"
      by (rule object_unpack_loop_ok [OF _ l]) (auto intro: Suc.IH)
    ultimately show ?thesis by (simp add: json_ok_simps)
  qed
  have leaf: "json_ok Null_value" "json_ok True_value" "json_ok False_value"
    "\<And>i num. number_unpack le it = Inr (num, i) \<Longrightarrow> json_ok (Number num)"
    "\<And>i str. string_unpack it = Inr (str, i) \<Longrightarrow> json_ok (String str)"
    using number_unpack_canonical string_unpack_bound by (auto simp: json_ok_def)
  from Suc.prems show ?case
    by (auto simp: bind_result_eq_Inr split: if_splits intro: arr obj leaf)
qed simp

lemma length_concat_member: "x \<in> set xs \<Longrightarrow> length (h x) \<le> length (concat (map h xs))"
  by (induction xs) auto

lemma less_with_header: "h \<noteq> [] \<Longrightarrow> x \<le> n \<Longrightarrow> x < length h + n"
  by (cases h) simp_all

lemma json_depth_bytes: "json_wf v \<Longrightarrow> json_depth v \<le> length (json_bytes le v)"
proof (induction v rule: json_induct)
  case (Array arr)
  have "json_depth v \<le> length (concat (map (json_bytes le) arr))" if "v \<in> set arr" for v
    using Array that length_concat_member [OF that, of "json_bytes le"] by fastforce
  moreover have "array_header (length arr) \<noteq> []" by (simp add: array_header_def)
  ultimately show ?case by (simp add: Suc_le_eq less_with_header)
next
  case (Object obj)
  let ?h = "\<lambda>m. string_pack (fst m) [] @ json_bytes le (snd m)"
  have "json_depth (snd m) \<le> length (concat (map ?h obj))" if "m \<in> set obj" for m
    using Object that length_concat_member [OF that, of ?h] by fastforce
  moreover have "object_header (length obj) \<noteq> []" by (simp add: object_header_def)
  ultimately show ?case by (simp add: Suc_le_eq less_with_header)
next
  case (Number num)
  obtain b r where "number_bytes le num = b # r" using number_bytes_head by blast
  then show ?case by simp
next
  case (String str)
  obtain b r where "string_pack str [] = b # r" using string_pack_head by blast
  then show ?case by simp
qed simp_all

section \<open>Properties\<close>

text \<open>A value with every kind of member, for the witnesses.\<close>

definition sample_value :: json where
  "sample_value = Object
     [(''a'', Array [Null_value, True_value, Number (number_of_int (- 300))]),
      (''b'', Object [(''k'', String ''x/y''), (''l'', False_value)])]"

lemma number_of_int_canonical [simp]: "number_canonical (number_of_int i)"
  by (simp add: number_canonical_def number_of_int_def)

lemma sample_value_ok: "json_ok sample_value"
  by (simp add: json_ok_def sample_value_def less_char_def)

text \<open>C1: MessagePack round trip. A well-formed value is packed without a fault, and unpacking the
  bytes gives the same value back and leaves the pointer right behind them, whatever follows.\<close>

theorem unpack_pack:
  assumes "json_ok v"
  shows "\<exists>bytes. pack le v = Inr bytes \<and>
    (\<forall>rest. value_unpack le (length bytes) (bytes @ rest) = Inr (v, rest))"
  using assms json_depth_bytes [of v le] value_unpack_bytes [of v "length (json_bytes le v)" le]
  by (simp add: json_ok_def pack_def value_pack_bytes json_wf_no_nullptr)

theorem unpack_pack_witness:
  "\<exists>bytes. pack True sample_value = Inr bytes \<and>
    (\<forall>rest. value_unpack True (length bytes) (bytes @ rest) = Inr (sample_value, rest))"
  by (rule unpack_pack [OF sample_value_ok])

text \<open>C2: The readers do not check the size of their input. On every proper prefix of a packed value
  they read past the end of the buffer; they never throw and never return a shorter value.\<close>

theorem unpack_truncated:
  assumes "json_ok v" and "pack le v = Inr (p @ q)" and "q \<noteq> []" and "length (p @ q) \<le> fuel"
  shows "value_unpack le fuel p = Inl (Undefined Out_of_bounds)"
proof -
  have "p @ q = json_bytes le v" and wf: "json_wf v"
    using assms by (simp_all add: json_ok_def pack_def value_pack_bytes json_wf_no_nullptr)
  then have full: "value_unpack le fuel (p @ q) = Inr (v, [])"
    using assms value_unpack_bytes [of v fuel le "[]"] json_depth_bytes [OF wf, of le]
    by (simp add: json_ok_def)
  show ?thesis
  proof (cases "value_unpack le fuel p")
    case (Inl e)
    with stableD(2) [OF stable_value_unpack, of p le fuel e q] full show ?thesis by auto
  next
    case (Inr r)
    with stableD(1) [OF stable_value_unpack, of p le fuel "fst r" "snd r" q] full assms(3) show ?thesis
      by (cases r) simp
  qed
qed

theorem unpack_truncated_witness:
  "value_unpack True 9 [0xa3, 0x61, 0x62] = Inl (Undefined Out_of_bounds)"
  by (rule unpack_truncated [of "String ''abc''" True "[0xa3, 0x61, 0x62]" "[0x63]"])
    (simp_all add: json_ok_def pack_def string_pack_def u8_of_char_def)

text \<open>C5: Reading any bytes whatever ends: with fuel for one level per byte, neither a value nor an
  object is ever left unread for want of fuel, so the nesting of the input bounds the recursion.\<close>

theorem unpack_returns:
  "value_unpack le (Suc (length it)) it \<noteq> Inl Out_of_fuel \<and> unpack_vector le self packed \<noteq> Inl Out_of_fuel"
  using value_unpack_fuel [of "Suc (length it)" le]
    container_unpack_fuel(2) [OF value_unpack_shrinks value_unpack_fuel, of packed "length packed" le self]
  by (auto simp: fuelled_def unpack_vector_def bind_result_eq_Inl simp del: value_unpack.simps)

text \<open>Everything the readers return satisfies the invariant of C1: sorted members without null
  pointers, sizes below \<open>2 ^ 32\<close>, numbers with recomputed text. So it can be packed and read again.\<close>

theorem unpack_invariant:
  assumes "value_unpack le fuel it = Inr (v, it')"
  shows "json_ok v \<and> length it' < length it"
  using value_unpack_ok [OF assms] shrinksD [OF value_unpack_shrinks assms] by simp

theorem unpack_invariant_witness:
  "json_ok (Object [(''a'', Number (number_of_int 5))]) \<and> length ([7] :: u8 list) < length ([0x81, 0xa1, 0x61, 5, 7] :: u8 list)"
  by (rule unpack_invariant [of True "Suc (Suc 0)"])
    (simp add: object_unpack_def string_unpack_def number_unpack_def number_payload_def number_byte_def
      string_byte_def array_byte_def object_byte_def char_of_u8_def, code_simp)

end
