(* ===== verification/Json_Print.thy ===== *)
theory Json_Print
  imports Json_Value Json_String
begin

text \<open>
  The \<open>operator<<\<close> functions and the \<open>str\<close> and \<open>json_str\<close> members of the JSON classes. The
  stream is the text written to it. Containers choose the overload by the dynamic type of each
  element, through \<open>typeid\<close>, which throws \<open>std::bad_typeid\<close> for a null pointer; the choice is
  the argument \<open>vprint\<close> of the container functions.
\<close>

type_synonym printer = "json \<Rightarrow> string result"

fun array_print_loop :: "printer \<Rightarrow> json list \<Rightarrow> string result" where
  "array_print_loop vprint [] = Inr []"
| "array_print_loop vprint (v # arr) =
     bind_result (vprint v) (\<lambda>s.
       if arr = [] then Inr s
       else bind_result (array_print_loop vprint arr) (\<lambda>t. Inr (s @ '','' @ t)))"

definition array_print :: "printer \<Rightarrow> json list \<Rightarrow> string result" where
  "array_print vprint arr =
     bind_result (array_print_loop vprint arr) (\<lambda>s. Inr (''['' @ s @ '']''))"

fun object_print_loop :: "printer \<Rightarrow> (string \<times> json) list \<Rightarrow> string result" where
  "object_print_loop vprint [] = Inr []"
| "object_print_loop vprint (m # obj) =
     bind_result (vprint (snd m)) (\<lambda>s.
       if obj = [] then Inr (string_print (fst m) @ '':'' @ s)
       else bind_result (object_print_loop vprint obj) (\<lambda>t. Inr (string_print (fst m) @ '':'' @ s @ '','' @ t)))"

definition object_print :: "printer \<Rightarrow> (string \<times> json) list \<Rightarrow> string result" where
  "object_print vprint obj =
     bind_result (object_print_loop vprint obj) (\<lambda>s. Inr (''{'' @ s @ ''}''))"

lemma array_print_loop_cong:
  "(\<And>v. v \<in> set arr \<Longrightarrow> f v = g v) \<Longrightarrow> array_print_loop f arr = array_print_loop g arr"
  by (induction arr) (auto intro!: bind_result_cong)

lemma object_print_loop_cong:
  "(\<And>m. m \<in> set obj \<Longrightarrow> f (snd m) = g (snd m)) \<Longrightarrow> object_print_loop f obj = object_print_loop g obj"
  by (induction obj) (auto intro!: bind_result_cong)

lemma array_print_cong [fundef_cong]:
  "arr = arr' \<Longrightarrow> (\<And>v. v \<in> set arr' \<Longrightarrow> f v = g v) \<Longrightarrow> array_print f arr = array_print g arr'"
  using array_print_loop_cong [of arr' f g] by (simp add: array_print_def)

lemma object_print_cong [fundef_cong]:
  "obj = obj' \<Longrightarrow> (\<And>m. m \<in> set obj' \<Longrightarrow> f (snd m) = g (snd m)) \<Longrightarrow> object_print f obj = object_print g obj'"
  using object_print_loop_cong [of obj' f g] by (simp add: object_print_def)

definition number_print :: "number \<Rightarrow> string" where
  "number_print num = str_rep num"

definition true_print :: string where "true_print = ''true''"

definition false_print :: string where "false_print = ''false''"

definition null_print :: string where "null_print = ''null''"

fun value_print :: "json \<Rightarrow> string result" where
  "value_print Nullptr = Inl Bad_typeid"
| "value_print (Object obj) = object_print (\<lambda>v. value_print v) obj"
| "value_print (Array arr) = array_print (\<lambda>v. value_print v) arr"
| "value_print (String str) = Inr (string_print str)"
| "value_print (Number num) = Inr (number_print num)"
| "value_print True_value = Inr true_print"
| "value_print False_value = Inr false_print"
| "value_print Null_value = Inr null_print"

text \<open>\<open>v->str()\<close>: as printed, but a string is its bare contents. \<open>v->json_str()\<close>: a string too is
  printed.\<close>

fun value_str :: "json \<Rightarrow> string result" where
  "value_str Nullptr = Inl (Undefined Null_dereference)"
| "value_str (String str) = Inr str"
| "value_str v = value_print v"

fun value_json_str :: "json \<Rightarrow> string result" where
  "value_json_str (String str) = Inr (string_print str)"
| "value_json_str v = value_str v"

section \<open>The text of a value\<close>

text \<open>The parts of a container, separated by commas.\<close>

fun commas :: "string list \<Rightarrow> string" where
  "commas [] = []"
| "commas [s] = s"
| "commas (s # t # ss) = s @ '','' @ commas (t # ss)"

fun text_of :: "json \<Rightarrow> string" where
  "text_of Nullptr = []"
| "text_of (Object obj) = ''{'' @ commas (map (\<lambda>m. string_print (fst m) @ '':'' @ text_of (snd m)) obj) @ ''}''"
| "text_of (Array arr) = ''['' @ commas (map text_of arr) @ '']''"
| "text_of (String str) = string_print str"
| "text_of (Number num) = str_rep num"
| "text_of True_value = ''true''"
| "text_of False_value = ''false''"
| "text_of Null_value = ''null''"

lemma commas_Cons: "ss \<noteq> [] \<Longrightarrow> commas (s # ss) = s @ '','' @ commas ss"
  by (cases ss) simp_all

lemma array_print_loop_text:
  "(\<And>v. v \<in> set arr \<Longrightarrow> f v = Inr (h v)) \<Longrightarrow> array_print_loop f arr = Inr (commas (map h arr))"
  by (induction arr) (auto simp: commas_Cons)

lemma object_print_loop_text:
  "(\<And>m. m \<in> set obj \<Longrightarrow> f (snd m) = Inr (h (snd m))) \<Longrightarrow>
     object_print_loop f obj = Inr (commas (map (\<lambda>m. string_print (fst m) @ '':'' @ h (snd m)) obj))"
  by (induction obj) (auto simp: commas_Cons)

lemma value_print_text: "json_wf v \<Longrightarrow> value_print v = Inr (text_of v)"
proof (induction v rule: json_induct)
  case (Array arr)
  then have "array_print_loop (\<lambda>v. value_print v) arr = Inr (commas (map text_of arr))"
    by (intro array_print_loop_text) simp
  then show ?case by (simp add: array_print_def)
next
  case (Object obj)
  then have "object_print_loop (\<lambda>v. value_print v) obj =
      Inr (commas (map (\<lambda>m. string_print (fst m) @ '':'' @ text_of (snd m)) obj))"
    by (intro object_print_loop_text) simp
  then show ?case by (simp add: object_print_def)
qed (simp_all add: number_print_def true_print_def false_print_def null_print_def)

end
