(* ===== verification/Json_Parse.thy ===== *)
theory Json_Parse
  imports Json_Print
begin

text \<open>
  The \<open>parse(const char*)\<close> functions of the JSON classes: \<open>true_value.h\<close>, \<open>false_value.h\<close>,
  \<open>null_value.h\<close>, \<open>array.h\<close>, \<open>object.h\<close> (numbers and strings are in their own theories).
  The class of a nested value is chosen by its first character; \<open>value_parse\<close> is that choice and
  the virtual call \<open>val->parse(it)\<close>, an argument \<open>vparse\<close> of the container functions. Its
  fuel bounds the nesting depth. The loop of a container runs at most once per remaining character,
  which is the bound it is given; both bounds are shown to be enough.

  Shown: a printed value parses back to itself, and what any text parses to prints to a text that
  parses to the same value; of members with the same key the first wins; every text is accepted or
  refused; what is accepted is well formed.
\<close>

section \<open>Literals\<close>

fun match_chars :: "string \<Rightarrow> string \<Rightarrow> string result" where
  "match_chars [] it = Inr it"
| "match_chars (x # xs) it =
     bind_result (deref it) (\<lambda>c. if c = x then match_chars xs (tl it) else invalid_format it)"

definition true_parse :: "string \<Rightarrow> string result" where
  "true_parse json_text = match_chars ''true'' json_text"

definition false_parse :: "string \<Rightarrow> string result" where
  "false_parse json_text = match_chars ''false'' json_text"

definition null_parse :: "string \<Rightarrow> string result" where
  "null_parse json_text = match_chars ''null'' json_text"

section \<open>Containers\<close>

type_synonym parser = "string \<Rightarrow> (json \<times> string) result"

text \<open>After an element: \<open>Some\<close> position of the next element behind a comma, or the end behind the
  closing bracket.\<close>

definition next_element :: "char \<Rightarrow> string \<Rightarrow> (bool \<times> string) result" where
  "next_element closing it =
     bind_result (skip_sp it) (\<lambda>it.
     bind_result (deref it) (\<lambda>c.
       if c = CHR '','' then bind_result (skip_sp (tl it)) (\<lambda>it. Inr (True, it))
       else if c = closing then Inr (False, tl it)
       else invalid_format it))"

fun array_parse_loop :: "parser \<Rightarrow> nat \<Rightarrow> json list \<Rightarrow> string \<Rightarrow> (json list \<times> string) result" where
  "array_parse_loop vparse 0 self it = Inl Out_of_fuel"
| "array_parse_loop vparse (Suc n) self it =
     bind_result (vparse it) (\<lambda>(val, it).
     bind_result (next_element (CHR '']'') it) (\<lambda>(again, it).
       if again then array_parse_loop vparse n (self @ [val]) it else Inr (self @ [val], it)))"

definition array_parse :: "parser \<Rightarrow> json list \<Rightarrow> string \<Rightarrow> (json list \<times> string) result" where
  "array_parse vparse self json_text =
     bind_result (skip_sp json_text) (\<lambda>it.
     bind_result (deref it) (\<lambda>c.
       if c = CHR ''['' then
         bind_result (skip_sp (tl it)) (\<lambda>it.
         bind_result (deref it) (\<lambda>c.
           if c = CHR '']'' then Inr (self, tl it) else array_parse_loop vparse (length it) self it))
       else invalid_format it))"

text \<open>The key of a member and the \<open>:\<close> behind it.\<close>

definition member_key :: "string \<Rightarrow> (string \<times> string) result" where
  "member_key it =
     bind_result (deref it) (\<lambda>c.
       if c = CHR 0x22 then
         bind_result (string_parse [] it) (\<lambda>(key, it).
         bind_result (skip_sp it) (\<lambda>it.
         bind_result (deref it) (\<lambda>c.
           if c = CHR '':'' then bind_result (skip_sp (tl it)) (\<lambda>it. Inr (key, it))
           else invalid_format it)))
       else invalid_format it)"

fun object_parse_loop ::
    "parser \<Rightarrow> nat \<Rightarrow> (string \<times> json) list \<Rightarrow> string \<Rightarrow> ((string \<times> json) list \<times> string) result" where
  "object_parse_loop vparse 0 self it = Inl Out_of_fuel"
| "object_parse_loop vparse (Suc n) self it =
     bind_result (member_key it) (\<lambda>(key, it).
     bind_result (vparse it) (\<lambda>(val, it).
       let self = fst (map_insert key val self) in
       bind_result (next_element (CHR ''}'') it) (\<lambda>(again, it).
         if again then object_parse_loop vparse n self it else Inr (self, it))))"

definition object_parse ::
    "parser \<Rightarrow> (string \<times> json) list \<Rightarrow> string \<Rightarrow> ((string \<times> json) list \<times> string) result" where
  "object_parse vparse self json_text =
     bind_result (skip_sp json_text) (\<lambda>it.
     bind_result (deref it) (\<lambda>c.
       if c = CHR ''{'' then
         bind_result (skip_sp (tl it)) (\<lambda>it.
         bind_result (deref it) (\<lambda>c.
           if c = CHR ''}'' then Inr (self, tl it) else object_parse_loop vparse (length it) self it))
       else invalid_format it))"

fun value_parse :: "nat \<Rightarrow> string \<Rightarrow> (json \<times> string) result" where
  "value_parse 0 it = Inl Out_of_fuel"
| "value_parse (Suc fuel) it =
     bind_result (deref it) (\<lambda>c.
       if c = CHR ''{'' then
         bind_result (object_parse (value_parse fuel) [] it) (\<lambda>(obj, it). Inr (Object obj, it))
       else if c = CHR ''['' then
         bind_result (array_parse (value_parse fuel) [] it) (\<lambda>(arr, it). Inr (Array arr, it))
       else if c = CHR 0x22 then bind_result (string_parse [] it) (\<lambda>(str, it). Inr (String str, it))
       else if c = CHR ''t'' then bind_result (true_parse it) (\<lambda>it. Inr (True_value, it))
       else if c = CHR ''f'' then bind_result (false_parse it) (\<lambda>it. Inr (False_value, it))
       else if c = CHR ''n'' then bind_result (null_parse it) (\<lambda>it. Inr (Null_value, it))
       else if c = CHR ''-'' \<or> isdigit c then
         bind_result (number_parse it) (\<lambda>(num, it). Inr (Number num, it))
       else invalid_format it)"

text \<open>
  \<open>object::parse(text)\<close> and \<open>array::parse(text)\<close> on a NUL-terminated text, which is also what
  the constructors from a text call.
\<close>

definition object_parse_text :: "(string \<times> json) list \<Rightarrow> string \<Rightarrow> ((string \<times> json) list \<times> string) result" where
  "object_parse_text self cs =
     (let it = cs @ [CHR 0x00] in object_parse (value_parse (length it)) self it)"

definition array_parse_text :: "json list \<Rightarrow> string \<Rightarrow> (json list \<times> string) result" where
  "array_parse_text self cs =
     (let it = cs @ [CHR 0x00] in array_parse (value_parse (length it)) self it)"

section \<open>A printed value parses back\<close>

definition starts :: "string \<Rightarrow> bool" where
  "starts s \<longleftrightarrow> s \<noteq> [] \<and> \<not> isspace (hd s) \<and> hd s \<noteq> CHR '']'' \<and> hd s \<noteq> CHR ''}''"

lemma starts_skip: "starts s \<Longrightarrow> skip_sp (s @ r) = Inr (s @ r)"
  by (cases s) (simp_all add: starts_def)

lemma punctuation [simp]:
  "\<not> isspace (CHR '','')" "\<not> isspace (CHR '']'')" "\<not> isspace (CHR ''}'')" "\<not> isspace (CHR '':'')"
  "\<not> isspace (CHR ''['')" "\<not> isspace (CHR ''{'')" "\<not> isspace (CHR 0x22)"
  "number_ender (CHR '','')" "number_ender (CHR '']'')" "number_ender (CHR ''}'')"
  by (simp_all add: isspace_def number_ender_def isdigit_def)

lemma next_element_comma: "starts s \<Longrightarrow> next_element cl (CHR '','' # s @ r) = Inr (True, s @ r)"
  by (simp add: next_element_def starts_skip)

lemma next_element_close:
  "\<not> isspace cl \<Longrightarrow> cl \<noteq> CHR '','' \<Longrightarrow> next_element cl (cl # r) = Inr (False, r)"
  by (simp add: next_element_def)

lemma starts_commas: "starts s \<Longrightarrow> starts (commas (s # ss))"
  by (cases ss) (auto simp: starts_def)

lemma array_parse_loop_text:
  assumes "\<And>v c r. v \<in> set arr \<Longrightarrow> number_ender c \<Longrightarrow> f (h v @ c # r) = Inr (v, c # r)"
    and "\<And>v. v \<in> set arr \<Longrightarrow> starts (h v)" and "arr \<noteq> []" and "length arr \<le> n"
  shows "array_parse_loop f n self (commas (map h arr) @ CHR '']'' # r) = Inr (self @ arr, r)"
  using assms
proof (induction arr arbitrary: n self)
  case (Cons v arr)
  then obtain m where n: "n = Suc m" by (cases n) auto
  show ?case
  proof (cases arr)
    case Nil
    with Cons.prems(1) [of v "CHR '']''" r] show ?thesis
      by (simp add: n next_element_close)
  next
    case (Cons w ws)
    have "starts (commas (map h arr))"
      using Cons.prems(2) Cons by (simp add: starts_commas)
    then show ?thesis
      using Cons.prems(1) [of v "CHR '',''" "commas (map h arr) @ CHR '']'' # r"] Cons.IH [of m "self @ [v]"]
        Cons.prems Cons n by (simp add: commas_Cons next_element_comma)
  qed
qed simp

lemma starts_string_print: "starts (string_print k)"
  by (simp add: starts_def string_print_def)

lemma starts_append: "starts s \<Longrightarrow> starts (s @ t)"
  by (auto simp: starts_def)

lemma starts_members:
  "obj \<noteq> [] \<Longrightarrow> starts (commas (map (\<lambda>m. string_print (fst m) @ '':'' @ h (snd m)) obj))"
  by (cases obj) (simp_all add: starts_commas starts_append starts_string_print)

lemma member_key_text:
  "starts s \<Longrightarrow> member_key (string_print k @ CHR '':'' # s @ r) = Inr (k, s @ r)"
proof -
  assume "starts s"
  moreover have "\<exists>t. string_print k = CHR 0x22 # t" by (simp add: string_print_def)
  ultimately show ?thesis
    using string_parse_print [of "[]" k "CHR '':'' # s @ r"]
    by (auto simp: member_key_def starts_skip)
qed

lemma object_parse_loop_text:
  assumes "\<And>m c r. m \<in> set obj \<Longrightarrow> number_ender c \<Longrightarrow> f (h (snd m) @ c # r) = Inr (snd m, c # r)"
    and "\<And>m. m \<in> set obj \<Longrightarrow> starts (h (snd m))" and "obj \<noteq> []" and "length obj \<le> n"
  shows "object_parse_loop f n self
      (commas (map (\<lambda>m. string_print (fst m) @ '':'' @ h (snd m)) obj) @ CHR ''}'' # r) =
    Inr (std_map.insert_all obj self, r)"
  using assms
proof (induction obj arbitrary: n self)
  case (Cons m obj)
  let ?t = "\<lambda>m. string_print (fst m) @ '':'' @ h (snd m)"
  obtain k where n: "n = Suc k" using Cons.prems(4) by (cases n) auto
  have st: "starts (h (snd m))" using Cons.prems(2) by simp
  show ?case
  proof (cases "obj = []")
    case True
    then show ?thesis
      using Cons.prems(1) [of m "CHR ''}''" r] member_key_text [OF st, of "fst m" "CHR ''}'' # r"]
      by (cases m) (simp add: n next_element_close)
  next
    case False
    have "starts (commas (map ?t obj))" by (rule starts_members [OF False])
    then show ?thesis
      using Cons.prems(1) [of m "CHR '',''" "commas (map ?t obj) @ CHR ''}'' # r"]
        member_key_text [OF st, of "fst m" "CHR '','' # commas (map ?t obj) @ CHR ''}'' # r"]
        Cons.IH [of k "fst (map_insert (fst m) (snd m) self)"] Cons.prems False n
      by (cases m) (simp add: commas_Cons next_element_comma)
  qed
qed simp

lemma match_chars_run: "match_chars xs (xs @ r) = Inr r"
  by (induction xs) simp_all

lemma text_starts:
  assumes "json_wf v" and "json_numbers number_wf v"
  shows "starts (text_of v)"
proof (cases v)
  case (Number num)
  with assms have "number_grammar (integral num) (str_rep num)" by (simp add: number_wf_def)
  from number_grammar_ne [OF this] Number show ?thesis
    by (auto simp: starts_def isdigit_def isspace_def)
qed (use assms in \<open>auto simp: starts_def string_print_def isspace_def\<close>)

lemma length_commas: "(\<And>s. s \<in> set ss \<Longrightarrow> s \<noteq> []) \<Longrightarrow> length ss \<le> length (commas ss)"
proof (induction ss rule: commas.induct)
  case (3 s t ss)
  then show ?case by (cases s) force+
qed (auto simp: Suc_le_eq)

text \<open>A bracket and a body that starts like a value lead into the loop.\<close>

lemma array_parse_body:
  "starts s \<Longrightarrow> array_parse f self (CHR ''['' # s @ r) = array_parse_loop f (length (s @ r)) self (s @ r)"
  by (cases s) (auto simp: array_parse_def starts_def)

lemma object_parse_body:
  "starts s \<Longrightarrow> object_parse f self (CHR ''{'' # s @ r) = object_parse_loop f (length (s @ r)) self (s @ r)"
  by (cases s) (auto simp: object_parse_def starts_def)

lemma array_parse_text_of:
  assumes f: "\<And>v c r. v \<in> set arr \<Longrightarrow> number_ender c \<Longrightarrow> f (text_of v @ c # r) = Inr (v, c # r)"
    and st: "\<And>v. v \<in> set arr \<Longrightarrow> starts (text_of v)"
  shows "array_parse f self (text_of (Array arr) @ r) = Inr (self @ arr, r)"
proof (cases "arr = []")
  case False
  let ?s = "commas (map text_of arr)"
  have "starts ?s" using False st by (cases arr) (simp_all add: starts_commas)
  moreover have "length arr \<le> length (?s @ CHR '']'' # r)"
    using length_commas [of "map text_of arr"] st by (force simp: starts_def)
  ultimately show ?thesis
    using array_parse_loop_text [OF f st False, of "length (?s @ CHR '']'' # r)" self r]
      array_parse_body [of ?s f self "CHR '']'' # r"] by simp
qed (simp add: array_parse_def)

text \<open>Members in any order and with repeated keys: the first of each key wins.\<close>

lemma object_parse_text_of:
  assumes f: "\<And>m c r. m \<in> set obj \<Longrightarrow> number_ender c \<Longrightarrow> f (text_of (snd m) @ c # r) = Inr (snd m, c # r)"
    and st: "\<And>m. m \<in> set obj \<Longrightarrow> starts (text_of (snd m))"
  shows "object_parse f self (text_of (Object obj) @ r) = Inr (std_map.insert_all obj self, r)"
proof (cases "obj = []")
  case False
  let ?t = "\<lambda>m. string_print (fst m) @ '':'' @ text_of (snd m)"
  let ?s = "commas (map ?t obj)"
  have "starts ?s" by (rule starts_members [OF False])
  moreover have "length obj \<le> length (?s @ CHR ''}'' # r)"
    using length_commas [of "map ?t obj"] by force
  ultimately show ?thesis
    using object_parse_loop_text [OF f st False, of "length (?s @ CHR ''}'' # r)" self r]
      object_parse_body [of ?s f self "CHR ''}'' # r"] by simp
qed (simp add: object_parse_def)

lemma number_parse_text_of:
  assumes "number_wf num" and "number_ender c"
  shows "value_parse (Suc n) (text_of (Number num) @ c # r) = Inr (Number num, c # r)"
proof -
  have wf: "number_grammar (integral num) (str_rep num)" "num = number_of_text (integral num) (str_rep num)"
    using assms(1) by (simp_all add: number_wf_def)
  have p: "number_parse (str_rep num @ c # r) = Inr (num, c # r)"
    using number_parse_grammar [OF wf(1) assms(2)] wf(2) by simp
  obtain d ds where d: "str_rep num = d # ds" "d = CHR ''-'' \<or> isdigit d"
    using number_grammar_ne [OF wf(1)] by (cases "str_rep num") auto
  then have "d \<notin> {CHR ''{'', CHR ''['', CHR 0x22, CHR ''t'', CHR ''f'', CHR ''n''}"
    by (auto simp: isdigit_def)
  with d p show ?thesis by simp
qed

lemma value_parse_text_of:
  assumes "json_wf v" and "json_numbers number_wf v" and "json_depth v \<le> fuel" and "number_ender c"
  shows "value_parse fuel (text_of v @ c # r) = Inr (v, c # r)"
  using assms
proof (induction v arbitrary: fuel c r rule: json_induct)
  case (Array arr)
  then obtain n where n: "fuel = Suc n" by (cases fuel) simp_all
  have "array_parse (value_parse n) [] (text_of (Array arr) @ c # r) = Inr ([] @ arr, c # r)"
  proof (rule array_parse_text_of)
    fix v c' r'
    assume "v \<in> set arr" and "number_ender c'"
    then show "value_parse n (text_of v @ c' # r') = Inr (v, c' # r')"
      using Array.prems n depth_member by (intro Array.IH) force+
  qed (use Array.prems in \<open>auto intro: text_starts\<close>)
  then show ?case by (simp add: n)
next
  case (Object obj)
  then obtain n where n: "fuel = Suc n" by (cases fuel) simp_all
  have "object_parse (value_parse n) [] (text_of (Object obj) @ c # r) = Inr (std_map.insert_all obj [], c # r)"
  proof (rule object_parse_text_of)
    fix m c' r'
    assume "m \<in> set obj" and "number_ender c'"
    then show "value_parse n (text_of (snd m) @ c' # r') = Inr (snd m, c' # r')"
      using Object.prems n depth_pair by (intro Object.IH) force+
  qed (use Object.prems in \<open>auto intro: text_starts\<close>)
  moreover have "std_map.insert_all obj [] = obj"
    using Object.prems insert_all_sorted [of "[]" obj] by simp
  ultimately show ?case by (simp add: n)
next
  case (Number num)
  then obtain n where "fuel = Suc n" by (cases fuel) simp_all
  with Number show ?case by (simp only: number_parse_text_of json_numbers.simps)
next
  case (String str)
  then show ?case
    using string_parse_print [of "[]" str "c # r"] by (cases fuel) (auto simp: string_print_def)
next
  case True
  then show ?case using match_chars_run [of "''true''" "c # r"] by (cases fuel) (simp_all add: true_parse_def)
next
  case False
  then show ?case using match_chars_run [of "''false''" "c # r"] by (cases fuel) (simp_all add: false_parse_def)
next
  case Null
  then show ?case using match_chars_run [of "''null''" "c # r"] by (cases fuel) (simp_all add: null_parse_def)
qed simp

section \<open>Every text is accepted or refused\<close>

text \<open>A parser consumes at least one character when it accepts, and has \<open>P\<close> of its result.\<close>

definition consumes :: "(string \<Rightarrow> ('a \<times> string) result) \<Rightarrow> ('a \<Rightarrow> bool) \<Rightarrow> bool" where
  "consumes f P \<longleftrightarrow> (\<forall>it v it'. f it = Inr (v, it') \<longrightarrow> length it' < length it \<and> P v)"

lemma consumesD: "consumes f P \<Longrightarrow> f it = Inr (v, it') \<Longrightarrow> length it' < length it \<and> P v"
  by (auto simp: consumes_def)

lemma next_element_length: "next_element cl it = Inr (again, it') \<Longrightarrow> length it' < length it"
  by (auto simp: next_element_def bind_result_eq_Inr deref_eq_Inr split: if_splits dest!: skip_sp_length)

lemma next_element_ne: "next_element cl it = Inr (True, it') \<Longrightarrow> it' \<noteq> []"
  by (auto simp: next_element_def bind_result_eq_Inr deref_eq_Inr split: if_splits dest!: skip_sp_length)

lemma member_key_length: "member_key it = Inr (key, it') \<Longrightarrow> length it' < length it"
  by (auto simp: member_key_def bind_result_eq_Inr deref_eq_Inr split: if_splits
      dest!: skip_sp_length string_parse_length)

lemma match_chars_length: "match_chars xs it = Inr it' \<Longrightarrow> length it = length xs + length it'"
  by (induction xs arbitrary: it) (auto simp: bind_result_eq_Inr deref_eq_Inr split: if_splits)

lemma array_parse_loop_consumes:
  assumes f: "consumes f P"
  shows "array_parse_loop f n self it = Inr (arr, it') \<Longrightarrow> \<forall>v \<in> set self. P v \<Longrightarrow>
    length it' < length it \<and> (\<forall>v \<in> set arr. P v)"
proof (induction n arbitrary: self it)
  case (Suc n)
  then obtain v i again j where s: "f it = Inr (v, i)" "next_element (CHR '']'') i = Inr (again, j)"
    "(if again then array_parse_loop f n (self @ [v]) j else Inr (self @ [v], j)) = Inr (arr, it')"
    by (auto simp: bind_result_eq_Inr)
  note step = consumesD [OF f s(1)] next_element_length [OF s(2)]
  show ?case
  proof (cases again)
    case True
    with Suc.IH [of "self @ [v]" j] Suc.prems(2) s(3) step show ?thesis by auto
  next
    case False
    with s(3) step Suc.prems(2) show ?thesis by auto
  qed
qed simp

lemma object_parse_loop_consumes:
  assumes f: "consumes f P"
  shows "object_parse_loop f n self it = Inr (obj, it') \<Longrightarrow> keys_sorted self \<Longrightarrow> \<forall>m \<in> set self. P (snd m) \<Longrightarrow>
    length it' < length it \<and> keys_sorted obj \<and> (\<forall>m \<in> set obj. P (snd m))"
proof (induction n arbitrary: self it)
  case (Suc n)
  then obtain key h v i again j where s: "member_key it = Inr (key, h)" "f h = Inr (v, i)"
    "next_element (CHR ''}'') i = Inr (again, j)"
    "(if again then object_parse_loop f n (fst (map_insert key v self)) j else Inr (fst (map_insert key v self), j))
      = Inr (obj, it')"
    by (auto simp: bind_result_eq_Inr Let_def)
  let ?self = "fst (map_insert key v self)"
  note step = member_key_length [OF s(1)] consumesD [OF f s(2)] next_element_length [OF s(3)]
  have sorted: "keys_sorted ?self" by (rule sorted_map_insert [OF Suc.prems(2)])
  have ok: "\<forall>m \<in> set ?self. P (snd m)"
    using Suc.prems(3) step(2) set_map_insert [of key v self] by auto
  show ?case
  proof (cases again)
    case True
    with Suc.IH [of ?self j] s(4) step sorted ok show ?thesis by auto
  next
    case False
    with s(4) step sorted ok show ?thesis by auto
  qed
qed simp

lemma array_parse_consumes:
  assumes f: "consumes f P" and "array_parse f [] it = Inr (arr, it')"
  shows "length it' < length it \<and> (\<forall>v \<in> set arr. P v)"
  using assms(2) array_parse_loop_consumes [OF f, of _ "[]" _ arr it']
  by (fastforce simp: array_parse_def bind_result_eq_Inr deref_eq_Inr split: if_splits dest!: skip_sp_length)

lemma object_parse_consumes:
  assumes f: "consumes f P" and "object_parse f [] it = Inr (obj, it')"
  shows "length it' < length it \<and> keys_sorted obj \<and> (\<forall>m \<in> set obj. P (snd m))"
  using assms(2) object_parse_loop_consumes [OF f, of _ "[]" _ obj it']
  by (fastforce simp: object_parse_def bind_result_eq_Inr deref_eq_Inr split: if_splits dest!: skip_sp_length)

definition parsed_ok :: "json \<Rightarrow> bool" where
  "parsed_ok v \<longleftrightarrow> json_wf v \<and> json_numbers number_wf v"

lemma literal_length:
  "true_parse it = Inr it' \<Longrightarrow> length it' < length it"
  "false_parse it = Inr it' \<Longrightarrow> length it' < length it"
  "null_parse it = Inr it' \<Longrightarrow> length it' < length it"
  using match_chars_length [of "''true''" it it'] match_chars_length [of "''false''" it it']
    match_chars_length [of "''null''" it it']
  by (simp_all add: true_parse_def false_parse_def null_parse_def del: match_chars.simps)

lemma value_parse_consumes: "consumes (value_parse n) parsed_ok"
proof (induction n)
  case (Suc n)
  have arr: "length i < length it \<and> parsed_ok (Array arr)"
    if "array_parse (value_parse n) [] it = Inr (arr, i)" for it arr i
    using array_parse_consumes [OF Suc.IH that] by (simp add: parsed_ok_def)
  have obj: "length i < length it \<and> parsed_ok (Object obj)"
    if "object_parse (value_parse n) [] it = Inr (obj, i)" for it obj i
    using object_parse_consumes [OF Suc.IH that] by (simp add: parsed_ok_def)
  have num: "length i < length it \<and> parsed_ok (Number num)" if "number_parse it = Inr (num, i)" for it num i
    using number_parse_sound [OF that] by (simp add: parsed_ok_def)
  have leaf: "parsed_ok (String str)" "parsed_ok True_value" "parsed_ok False_value" "parsed_ok Null_value" for str
    by (simp_all add: parsed_ok_def)
  have "length it' < length it \<and> parsed_ok v" if *: "value_parse (Suc n) it = Inr (v, it')" for it v it'
    using *
    by (auto simp: bind_result_eq_Inr leaf split: if_splits
        dest!: arr obj num string_parse_length literal_length)
  then show ?case by (simp add: consumes_def del: value_parse.simps)
qed (simp add: consumes_def)

section \<open>Termination: the bounds suffice\<close>

definition enough :: "nat \<Rightarrow> (string \<Rightarrow> 'a result) \<Rightarrow> bool" where
  "enough n f \<longleftrightarrow> (\<forall>it. length it < n \<longrightarrow> f it \<noteq> Inl Out_of_fuel)"

lemma invalid_format_fuel [simp]: "invalid_format it \<noteq> Inl Out_of_fuel"
  by (cases it) (simp_all add: unexpected_char_def unexpected_end_def)

lemma skip_sp_fuel [simp]: "skip_sp it \<noteq> Inl Out_of_fuel"
  by (induction it) simp_all

lemma deref_fuel [simp]: "deref it \<noteq> Inl Out_of_fuel"
  by (cases it) simp_all

lemma next_element_fuel [simp]: "next_element cl it \<noteq> Inl Out_of_fuel"
  by (auto simp: next_element_def bind_result_eq_Inl split: if_splits)

lemma read_hex_fuel [simp]: "read_hex n u it \<noteq> Inl Out_of_fuel"
  by (induction n arbitrary: u it) (auto simp: bind_result_eq_Inl split: if_splits)

lemma escape_fuel [simp]: "string_escape it \<noteq> Inl Out_of_fuel"
  by (auto simp: string_escape_def escape_unicode_def lead_escape_def trail_escape_def bind_result_eq_Inl Let_def split: if_splits option.splits)

lemma string_loop_fuel [simp]: "string_loop self it \<noteq> Inl Out_of_fuel"
proof (induction self it rule: string_loop.induct)
  case (1 self it)
  show ?case
    by (subst string_loop.simps) (auto simp: bind_result_eq_Inl 1 split: if_splits)
qed

lemma string_parse_fuel [simp]: "string_parse self it \<noteq> Inl Out_of_fuel"
  by (auto simp: string_parse_def bind_result_eq_Inl split: if_splits)

lemma member_key_fuel [simp]: "member_key it \<noteq> Inl Out_of_fuel"
  by (auto simp: member_key_def bind_result_eq_Inl split: if_splits)

lemma push_digits_fuel [simp]: "push_digits num it \<noteq> Inl Out_of_fuel" "push_digits1 num it \<noteq> Inl Out_of_fuel"
proof -
  show "push_digits num it \<noteq> Inl Out_of_fuel" for num it
    by (induction num it rule: push_digits.induct) simp_all
  then show "push_digits1 num it \<noteq> Inl Out_of_fuel"
    by (auto simp: push_digits1_def bind_result_eq_Inl split: if_splits)
qed

lemma number_parse_fuel [simp]: "number_parse it \<noteq> Inl Out_of_fuel"
  by (auto simp: number_parse_def number_int_part_def number_frac_part_def number_exp_part_def
      bind_result_eq_Inl split: if_splits)

lemma match_chars_fuel [simp]: "match_chars xs it \<noteq> Inl Out_of_fuel"
  by (induction xs arbitrary: it) (auto simp: bind_result_eq_Inl split: if_splits)

lemma array_parse_loop_fuel:
  "consumes f P \<Longrightarrow> enough m f \<Longrightarrow> length it \<le> n \<Longrightarrow> length it < m \<Longrightarrow> it \<noteq> [] \<Longrightarrow>
     array_parse_loop f n self it \<noteq> Inl Out_of_fuel"
proof (induction n arbitrary: self it)
  case (Suc n)
  have "f it \<noteq> Inl Out_of_fuel" using Suc.prems by (simp add: enough_def)
  moreover have "array_parse_loop f n (self @ [v]) j \<noteq> Inl Out_of_fuel"
    if "f it = Inr (v, i)" "next_element (CHR '']'') i = Inr (True, j)" for v i j
    using consumesD [OF Suc.prems(1) that(1)] next_element_length [OF that(2)] next_element_ne [OF that(2)] Suc.prems
    by (intro Suc.IH) auto
  ultimately show ?case
    by (auto simp: bind_result_eq_Inl split: if_splits)
qed simp

lemma object_parse_loop_fuel:
  "consumes f P \<Longrightarrow> enough m f \<Longrightarrow> length it \<le> n \<Longrightarrow> length it < m \<Longrightarrow> it \<noteq> [] \<Longrightarrow>
     object_parse_loop f n self it \<noteq> Inl Out_of_fuel"
proof (induction n arbitrary: self it)
  case (Suc n)
  have "f h \<noteq> Inl Out_of_fuel" if "member_key it = Inr (key, h)" for key h
    using Suc.prems member_key_length [OF that] by (simp add: enough_def)
  moreover have "object_parse_loop f n self' j \<noteq> Inl Out_of_fuel"
    if "member_key it = Inr (key, h)" "f h = Inr (v, i)" "next_element (CHR ''}'') i = Inr (True, j)" for key h v i j self'
    using member_key_length [OF that(1)] consumesD [OF Suc.prems(1) that(2)] next_element_length [OF that(3)]
      next_element_ne [OF that(3)] Suc.prems
    by (intro Suc.IH) auto
  ultimately show ?case
    by (auto simp: bind_result_eq_Inl Let_def split: if_splits)
qed simp

lemma container_parse_fuel:
  assumes f: "consumes f P" and m: "enough m f" and len: "length it \<le> m"
  shows "array_parse f arr it \<noteq> Inl Out_of_fuel" and "object_parse f obj it \<noteq> Inl Out_of_fuel"
proof -
  have inner: "length j < m \<and> j \<noteq> []" if "skip_sp it = Inr i" "deref i = Inr c" "skip_sp (tl i) = Inr j" for i c j
    using skip_sp_length [OF that(1)] skip_sp_length [OF that(3)] len by (cases i) auto
  show "array_parse f arr it \<noteq> Inl Out_of_fuel"
    using array_parse_loop_fuel [OF f m le_refl] inner
    by (auto simp: array_parse_def bind_result_eq_Inl split: if_splits)
  show "object_parse f obj it \<noteq> Inl Out_of_fuel"
    using object_parse_loop_fuel [OF f m le_refl] inner
    by (auto simp: object_parse_def bind_result_eq_Inl split: if_splits)
qed

lemma value_parse_enough: "enough n (value_parse n)"
proof (induction n)
  case (Suc n)
  have "value_parse (Suc n) it \<noteq> Inl Out_of_fuel" if "length it < Suc n" for it
    using container_parse_fuel [OF value_parse_consumes Suc.IH, of it] that
    by (auto simp: bind_result_eq_Inl true_parse_def false_parse_def null_parse_def
        split: if_splits simp del: match_chars.simps)
  then show ?case by (simp add: enough_def del: value_parse.simps)
qed (simp add: enough_def)

section \<open>Nesting is bounded by the text\<close>

lemma commas_member: "s \<in> set ss \<Longrightarrow> length s \<le> length (commas ss)"
  by (induction ss rule: commas.induct) auto

lemma json_depth_text: "json_wf v \<Longrightarrow> json_numbers number_wf v \<Longrightarrow> json_depth v \<le> length (text_of v)"
proof (induction v rule: json_induct)
  case (Number num)
  then show ?case using text_starts [of "Number num"] by (simp add: starts_def Suc_le_eq)
next
  case (Array arr)
  have "json_depth v \<le> length (commas (map text_of arr))" if "v \<in> set arr" for v
    using Array that commas_member [of "text_of v" "map text_of arr"] by fastforce
  then show ?case by simp (meson le_SucI)
next
  case (Object obj)
  let ?t = "\<lambda>m. string_print (fst m) @ '':'' @ text_of (snd m)"
  have "json_depth (snd m) \<le> length (commas (map ?t obj))" if "m \<in> set obj" for m
    using Object that commas_member [of "?t m" "map ?t obj"] by fastforce
  then show ?case by simp (meson le_SucI)
qed (simp_all add: string_print_def)

section \<open>Properties\<close>

definition sample_text_value :: json where
  "sample_text_value = Object
     [(''a'', Array [Null_value, True_value, Number (number_of_int (- 300))]),
      (''b'', Object [(''k'', String [CHR 0x22, CHR 0x0A, CHR 0x01, CHR ''/'']), (''l'', False_value)])]"

lemma sample_text_value_ok: "parsed_ok sample_text_value"
  by (simp add: parsed_ok_def sample_text_value_def less_char_def number_of_int_wf)

text \<open>C10: Print/parse round trip. A well-formed value all of whose numbers are what parsing their own text gives, as
  integers and parsed numbers are, prints without a fault, and the text, followed by a character that cannot continue
  a number, parses back to the value and leaves the rest of the text unread. A number made from a \<open>double\<close> is in
  general not such a number: its text has fifteen decimals and parses to another \<open>double\<close>.\<close>

theorem parse_print:
  assumes "json_wf v" and "json_numbers number_wf v" and "json_depth v \<le> fuel" and "number_ender c"
  shows "\<exists>text. value_print v = Inr text \<and> value_parse fuel (text @ c # rest) = Inr (v, c # rest)"
  using value_print_text [OF assms(1)] value_parse_text_of [OF assms] by simp

theorem parse_print_witness:
  "\<exists>text. value_print sample_text_value = Inr text \<and>
     value_parse 5 (text @ [CHR '','', CHR ''x'']) = Inr (sample_text_value, [CHR '','', CHR ''x''])"
  by (rule parse_print)
    (use sample_text_value_ok in \<open>simp_all add: parsed_ok_def, simp add: sample_text_value_def\<close>)

text \<open>C11: What the parser accepts it prints in a form it accepts again: parse, print, parse gives the
  value of the first parse. The parser consumes at least one character and only builds well-formed
  values, whatever the text is.\<close>

theorem parse_print_parse:
  assumes "value_parse fuel it = Inr (v, it')" and "number_ender c"
  shows "json_wf v \<and> length it' < length it \<and>
    (\<exists>text. value_print v = Inr text \<and> value_parse (json_depth v) (text @ c # rest) = Inr (v, c # rest))"
proof -
  have ok: "json_wf v" "json_numbers number_wf v" "length it' < length it"
    using consumesD [OF value_parse_consumes assms(1)] by (simp_all add: parsed_ok_def)
  then show ?thesis
    using value_print_text [OF ok(1)] value_parse_text_of [OF ok(1,2) le_refl assms(2)] by simp
qed

theorem parse_print_parse_witness:
  "json_wf (Array [Null_value]) \<and> length [CHR 0x00] < length (''[ null]'' @ [CHR 0x00]) \<and>
    (\<exists>text. value_print (Array [Null_value]) = Inr text \<and>
      value_parse (json_depth (Array [Null_value])) (text @ CHR '','' # ''x'') = Inr (Array [Null_value], CHR '','' # ''x''))"
  by (rule parse_print_parse [of 2]) code_simp+

text \<open>C12: The text parsers always come to an end: neither the nesting bound nor the bound on the rounds of the container
  loops is ever what stops them, whatever the text. What the end is is another matter: a value, an exception, or,
  for text that is not terminated, a read out of bounds.\<close>

theorem parse_returns:
  "object_parse_text obj cs \<noteq> Inl Out_of_fuel \<and> array_parse_text arr cs \<noteq> Inl Out_of_fuel"
  using container_parse_fuel [OF value_parse_consumes value_parse_enough, of "cs @ [CHR 0x00]" "length (cs @ [CHR 0x00])"]
  by (simp add: object_parse_text_def array_parse_text_def Let_def del: length_append value_parse.simps)

text \<open>Of members with the same key the first one wins, and the members end up in key order: the
  text of any sequence of members, in any order and with repetitions, parses to the map that looks up
  the first occurrence of each key.\<close>

theorem object_first_wins:
  assumes "\<And>m. m \<in> set ps \<Longrightarrow> json_wf (snd m) \<and> json_numbers number_wf (snd m)"
  shows "\<exists>obj. object_parse_text [] (text_of (Object ps)) = Inr (obj, [CHR 0x00]) \<and> keys_sorted obj \<and>
    map_of obj = map_of ps"
proof -
  let ?n = "length (text_of (Object ps) @ [CHR 0x00])"
  have "json_depth (snd m) \<le> ?n" if "m \<in> set ps" for m
  proof -
    let ?t = "\<lambda>m. string_print (fst m) @ '':'' @ text_of (snd m)"
    have "json_depth (snd m) \<le> length (?t m)"
      using assms [OF that] json_depth_text [of "snd m"] by simp
    also have "\<dots> \<le> length (commas (map ?t ps))" using that by (intro commas_member) auto
    finally show ?thesis by simp
  qed
  then have "value_parse ?n (text_of (snd m) @ c # r) = Inr (snd m, c # r)"
    if "m \<in> set ps" "number_ender c" for m c r
    using assms that by (intro value_parse_text_of) simp_all
  moreover have "starts (text_of (snd m))" if "m \<in> set ps" for m
    using assms [OF that] by (intro text_starts) simp_all
  ultimately have "object_parse (value_parse ?n) [] (text_of (Object ps) @ [CHR 0x00]) =
      Inr (std_map.insert_all ps [], [CHR 0x00])"
    by (rule object_parse_text_of)
  moreover have "map_of (std_map.insert_all ps []) = map_of ps"
    by (simp add: fun_eq_iff std_map.lookup_insert_all)
  moreover have "keys_sorted (std_map.insert_all ps [])"
    by (rule std_map.invar_insert_all) simp
  ultimately show ?thesis
    by (simp add: object_parse_text_def Let_def del: length_append text_of.simps)
qed

theorem object_first_wins_witness:
  "\<exists>obj. object_parse_text [] (text_of (Object [(''b'', True_value), (''a'', Null_value), (''b'', False_value)]))
      = Inr (obj, [CHR 0x00]) \<and> keys_sorted obj \<and>
    map_of obj = map_of [(''b'', True_value), (''a'', Null_value), (''b'', False_value)]"
  by (rule object_first_wins) auto

end
