(* ===== verification/Json_Parse_Stream.thy ===== *)
theory Json_Parse_Stream
  imports Json_Parse
begin

text \<open>
  The \<open>parse(std::istream&)\<close> functions of the JSON classes, with the character in hand (\<open>ch\<close>) and
  the stream as the state. They are a second implementation of the grammar that
  \<open>parse(const char*)\<close> implements; \<open>value_parse_stream\<close> is the \<open>switch (ch)\<close>, the
  \<open>is.unget()\<close> and the virtual call.

  Shown: on a text without NUL characters both implementations accept the same texts with the same
  value and the same rest, and refuse the same texts with the same message, with one difference:
  where the text parser runs past the terminating NUL (an unterminated string) the stream parser
  reports an unexpected end.
\<close>

section \<open>Literals\<close>

fun match_stream :: "string \<Rightarrow> istream \<Rightarrow> istream result" where
  "match_stream [] s = Inr s"
| "match_stream (x # xs) s =
     (let (ch, s) = get s in if ch = Some x then match_stream xs s else invalid_format_stream ch)"

definition true_parse_stream :: "istream \<Rightarrow> istream result" where
  "true_parse_stream s = match_stream ''true'' s"

definition false_parse_stream :: "istream \<Rightarrow> istream result" where
  "false_parse_stream s = match_stream ''false'' s"

definition null_parse_stream :: "istream \<Rightarrow> istream result" where
  "null_parse_stream s = match_stream ''null'' s"

section \<open>Containers\<close>

type_synonym stream_parser = "char option \<Rightarrow> istream \<Rightarrow> (json \<times> istream) result"

definition next_element_stream :: "char \<Rightarrow> istream \<Rightarrow> (bool \<times> char option \<times> istream) result" where
  "next_element_stream closing s =
     (let (ch, s) = skip_sp_stream s in
      if ch = Some (CHR '','') then (let (ch, s) = skip_sp_stream s in Inr (True, ch, s))
      else if ch = Some closing then Inr (False, ch, s)
      else invalid_format_stream ch)"

fun array_loop_stream ::
    "stream_parser \<Rightarrow> nat \<Rightarrow> json list \<Rightarrow> char option \<Rightarrow> istream \<Rightarrow> (json list \<times> istream) result" where
  "array_loop_stream vparse 0 self ch s = Inl Out_of_fuel"
| "array_loop_stream vparse (Suc n) self ch s =
     bind_result (vparse ch s) (\<lambda>(val, s).
     bind_result (next_element_stream (CHR '']'') s) (\<lambda>(again, ch, s).
       if again then array_loop_stream vparse n (self @ [val]) ch s else Inr (self @ [val], s)))"

definition array_parse_stream :: "stream_parser \<Rightarrow> json list \<Rightarrow> istream \<Rightarrow> (json list \<times> istream) result" where
  "array_parse_stream vparse self s =
     (let (ch, s) = skip_sp_stream s in
      if ch \<noteq> Some (CHR ''['') then invalid_format_stream ch
      else
        let (ch, s) = skip_sp_stream s in
        if ch = Some (CHR '']'') then Inr (self, s)
        else array_loop_stream vparse (Suc (remaining (unget s))) self ch s)"

definition member_key_stream :: "char option \<Rightarrow> istream \<Rightarrow> (string \<times> char option \<times> istream) result" where
  "member_key_stream ch s =
     (if ch = Some (CHR 0x22) then
        bind_result (string_parse_stream [] (unget s)) (\<lambda>(key, s).
          let (ch, s) = skip_sp_stream s in
          if ch = Some (CHR '':'') then (let (ch, s) = skip_sp_stream s in Inr (key, ch, s))
          else invalid_format_stream ch)
      else invalid_format_stream ch)"

fun object_loop_stream ::
    "stream_parser \<Rightarrow> nat \<Rightarrow> (string \<times> json) list \<Rightarrow> char option \<Rightarrow> istream \<Rightarrow>
       ((string \<times> json) list \<times> istream) result" where
  "object_loop_stream vparse 0 self ch s = Inl Out_of_fuel"
| "object_loop_stream vparse (Suc n) self ch s =
     bind_result (member_key_stream ch s) (\<lambda>(key, ch, s).
     bind_result (vparse ch s) (\<lambda>(val, s).
       let self = fst (map_insert key val self) in
       bind_result (next_element_stream (CHR ''}'') s) (\<lambda>(again, ch, s).
         if again then object_loop_stream vparse n self ch s else Inr (self, s))))"

definition object_parse_stream ::
    "stream_parser \<Rightarrow> (string \<times> json) list \<Rightarrow> istream \<Rightarrow> ((string \<times> json) list \<times> istream) result" where
  "object_parse_stream vparse self s =
     (let (ch, s) = skip_sp_stream s in
      if ch \<noteq> Some (CHR ''{'') then invalid_format_stream ch
      else
        let (ch, s) = skip_sp_stream s in
        if ch = Some (CHR ''}'') then Inr (self, s)
        else object_loop_stream vparse (Suc (remaining (unget s))) self ch s)"

fun value_parse_stream :: "nat \<Rightarrow> char option \<Rightarrow> istream \<Rightarrow> (json \<times> istream) result" where
  "value_parse_stream 0 ch s = Inl Out_of_fuel"
| "value_parse_stream (Suc fuel) ch s =
     (if ch = Some (CHR ''{'') then
        bind_result (object_parse_stream (value_parse_stream fuel) [] (unget s)) (\<lambda>(obj, s). Inr (Object obj, s))
      else if ch = Some (CHR ''['') then
        bind_result (array_parse_stream (value_parse_stream fuel) [] (unget s)) (\<lambda>(arr, s). Inr (Array arr, s))
      else if ch = Some (CHR 0x22) then
        bind_result (string_parse_stream [] (unget s)) (\<lambda>(str, s). Inr (String str, s))
      else if ch = Some (CHR ''t'') then
        bind_result (true_parse_stream (unget s)) (\<lambda>s. Inr (True_value, s))
      else if ch = Some (CHR ''f'') then
        bind_result (false_parse_stream (unget s)) (\<lambda>s. Inr (False_value, s))
      else if ch = Some (CHR ''n'') then
        bind_result (null_parse_stream (unget s)) (\<lambda>s. Inr (Null_value, s))
      else if ch = Some (CHR ''-'') \<or> isdigit_ch ch then
        bind_result (number_parse_stream (unget s)) (\<lambda>(num, s). Inr (Number num, s))
      else invalid_format_stream ch)"

text \<open>\<open>is >> obj\<close> and \<open>is >> arr\<close>\<close>

definition object_read_stream :: "(string \<times> json) list \<Rightarrow> istream \<Rightarrow> ((string \<times> json) list \<times> istream) result" where
  "object_read_stream self s = object_parse_stream (value_parse_stream (Suc (remaining s))) self s"

definition array_read_stream :: "json list \<Rightarrow> istream \<Rightarrow> (json list \<times> istream) result" where
  "array_read_stream self s = array_parse_stream (value_parse_stream (Suc (remaining s))) self s"

section \<open>A text position and a stream\<close>

text \<open>
  \<open>pos it s\<close>: the pointer \<open>it\<close> and the stream \<open>s\<close> have the same characters before them; a stream
  that failed at its end has none. \<open>cur it ch s\<close>: the same, after the character at \<open>it\<close> was got.
\<close>

definition reads :: "istream \<Rightarrow> string \<Rightarrow> bool" where
  "reads s cs \<longleftrightarrow> (\<exists>p. s = stream_at p cs) \<or> (cs = [] \<and> failbit s)"

definition pos :: "string \<Rightarrow> istream \<Rightarrow> bool" where
  "pos it s \<longleftrightarrow> (\<exists>cs. it = cs @ [CHR 0x00] \<and> CHR 0x00 \<notin> set cs \<and> reads s cs)"

definition cur :: "string \<Rightarrow> char option \<Rightarrow> istream \<Rightarrow> bool" where
  "cur it ch s \<longleftrightarrow> (\<exists>s0. pos it s0 \<and> get s0 = (ch, s))"

lemma pos_get: "pos it s \<Longrightarrow> get s = (ch, s') \<Longrightarrow> cur it ch s'"
  by (auto simp: cur_def)

lemma dead_stream:
  "failbit s \<Longrightarrow> get s = (None, s\<lparr>failbit := True\<rparr>)" "failbit s \<Longrightarrow> failbit (unget s)"
  by (simp_all add: get_def good_def unget_def)

lemma failbit_stream_end [simp]: "failbit (stream_end p)"
  by (simp add: stream_end_def)

lemma cur_cases:
  assumes "cur it ch s"
  obtains (char) c r where "it = c # r" "c \<noteq> CHR 0x00" "ch = Some c" "pos r s"
  | (eof) "it = [CHR 0x00]" "ch = None" "pos it s"
proof -
  from assms obtain cs s0 where cs: "it = cs @ [CHR 0x00]" "CHR 0x00 \<notin> set cs" "reads s0 cs" "get s0 = (ch, s)"
    by (auto simp: cur_def pos_def)
  show ?thesis
  proof (cases cs)
    case Nil
    with cs have "ch = None" "failbit s"
      by (auto simp: reads_def dead_stream)
    with Nil cs show ?thesis using eof by (auto simp: pos_def reads_def)
  next
    case (Cons c r)
    with cs obtain p where "s0 = stream_at p (c # r)" by (auto simp: reads_def)
    with Cons cs show ?thesis using char [of c "r @ [CHR 0x00]"] by (auto simp: pos_def reads_def)
  qed
qed

lemma cur_unget: "cur it ch s \<Longrightarrow> pos it (unget s)"
proof -
  assume "cur it ch s"
  then obtain cs s0 where cs: "it = cs @ [CHR 0x00]" "CHR 0x00 \<notin> set cs" "reads s0 cs" "get s0 = (ch, s)"
    by (auto simp: cur_def pos_def)
  then have "reads (unget s) cs"
    by (cases cs) (auto simp: reads_def dead_stream, blast)
  with cs show ?thesis by (auto simp: pos_def)
qed

lemma pos_ne: "pos it s \<Longrightarrow> it \<noteq> []"
  by (auto simp: pos_def)

lemma pos_remaining: "pos it s \<Longrightarrow> length it = Suc (remaining s)"
  by (auto simp: pos_def reads_def remaining_def stream_at_def good_def)

lemma skip_sp_pos:
  assumes "pos it s"
  shows "\<exists>it' ch s'. skip_sp it = Inr it' \<and> skip_sp_stream s = (ch, s') \<and> cur it' ch s'"
  using assms
proof (induction it arbitrary: s)
  case Nil
  then show ?case using pos_ne [of "[]" s] by simp
next
  case (Cons x it)
  obtain ch s1 where g: "get s = (ch, s1)" by force
  with Cons.prems have "cur (x # it) ch s1" by (rule pos_get)
  then show ?case
  proof (cases rule: cur_cases)
    case (char c r)
    show ?thesis
    proof (cases "isspace c")
      case True
      with char g Cons.IH [of s1] show ?thesis by (subst skip_sp_stream.simps) auto
    next
      case False
      with char g pos_get [OF Cons.prems g] show ?thesis by (subst skip_sp_stream.simps) auto
    qed
  next
    case eof
    with g pos_get [OF Cons.prems g] show ?thesis by (subst skip_sp_stream.simps) (auto simp: isspace_def)
  qed
qed

section \<open>Agreement of the two parsers\<close>

text \<open>\<open>agree Q r r'\<close>: both return, with values related by \<open>Q\<close>, or both throw the same, with an
  unexpected end in place of a read past the terminator.\<close>

definition agree :: "('a \<Rightarrow> 'b \<Rightarrow> bool) \<Rightarrow> 'a result \<Rightarrow> 'b result \<Rightarrow> bool" where
  "agree Q r r' \<longleftrightarrow>
     (case r of
        Inr a \<Rightarrow> (\<exists>b. r' = Inr b \<and> Q a b)
      | Inl e \<Rightarrow> r' = Inl (if e = Undefined Out_of_bounds then unexpected_end else e))"

lemma agree_simps [simp]:
  "agree Q (Inr a) (Inr b) \<longleftrightarrow> Q a b"
  "agree Q (Inl e) (Inl e') \<longleftrightarrow> e' = (if e = Undefined Out_of_bounds then unexpected_end else e)"
  "\<not> agree Q (Inr a) (Inl e)" "\<not> agree Q (Inl e) (Inr b)"
  by (auto simp: agree_def)

lemma agree_bind:
  assumes "agree Q r r'" and "\<And>a b. Q a b \<Longrightarrow> agree Q' (h a) (k b)"
  shows "agree Q' (bind_result r h) (bind_result r' k)"
  using assms by (cases r; cases r') auto

lemma agree_weaken: "agree Q r r' \<Longrightarrow> (\<And>a b. Q a b \<Longrightarrow> Q' a b) \<Longrightarrow> agree Q' r r'"
  by (cases r; cases r') auto

text \<open>The same value and the same position.\<close>

definition same_pos :: "'a \<times> string \<Rightarrow> 'a \<times> istream \<Rightarrow> bool" where
  "same_pos a b \<longleftrightarrow> fst a = fst b \<and> pos (snd a) (snd b)"

definition same_cur :: "'a \<times> string \<Rightarrow> 'a \<times> char option \<times> istream \<Rightarrow> bool" where
  "same_cur a b \<longleftrightarrow> fst a = fst b \<and> cur (snd a) (fst (snd b)) (snd (snd b))"

lemma same_simps [simp]:
  "same_pos (x, it) (y, s) \<longleftrightarrow> x = y \<and> pos it s"
  "same_cur (x, it) (y, ch, s) \<longleftrightarrow> x = y \<and> cur it ch s"
  by (simp_all add: same_pos_def same_cur_def)

lemma unexpected_not_oob [simp]:
  "unexpected_char c \<noteq> Undefined Out_of_bounds" "unexpected_end \<noteq> Undefined Out_of_bounds"
  by (simp_all add: unexpected_char_def unexpected_end_def)

lemma agree_invalid: "cur it ch s \<Longrightarrow> agree Q (invalid_format it) (invalid_format_stream ch)"
  by (erule cur_cases) simp_all

text \<open>The character at the pointer is the character in hand.\<close>

lemma cur_deref:
  assumes "cur it ch s"
  shows "\<exists>c. deref it = Inr c \<and> (\<forall>x. x \<noteq> CHR 0x00 \<longrightarrow> (ch = Some x \<longleftrightarrow> c = x)) \<and>
    isdigit_ch ch = isdigit c \<and> isxdigit_ch ch = isxdigit c"
  using assms by (cases rule: cur_cases) (auto simp: isdigit_def isxdigit_def)

lemma cur_tl: "cur it (Some c) s \<Longrightarrow> it = c # tl it \<and> pos (tl it) s"
  by (erule cur_cases) auto

subsection \<open>Literals and numbers\<close>

lemma match_agree: "pos it s \<Longrightarrow> CHR 0x00 \<notin> set xs \<Longrightarrow> agree pos (match_chars xs it) (match_stream xs s)"
proof (induction xs arbitrary: it s)
  case (Cons x xs)
  obtain ch s1 where g: "get s = (ch, s1)" by force
  then have "cur it ch s1" using pos_get Cons.prems by blast
  then show ?case
    using Cons.prems Cons.IH agree_invalid [OF \<open>cur it ch s1\<close>] by (cases rule: cur_cases) (auto simp: g)
qed simp

lemma digits_agree:
  "pos it s \<Longrightarrow> agree same_cur (push_digits num it) (Inr (get_digits num s))"
proof (induction num it arbitrary: s rule: push_digits.induct)
  case (1 num)
  then show ?case using pos_ne by blast
next
  case (2 num x it)
  obtain ch s1 where g: "get s = (ch, s1)" by force
  then have c: "cur (x # it) ch s1" using pos_get 2 by blast
  then show ?case
    using 2 c by (cases rule: cur_cases) (subst get_digits.simps, auto simp: g)+
qed

lemma digits1_agree:
  assumes "cur it ch s"
  shows "agree same_cur (push_digits1 num it) (get_digits1 num ch s)"
  using assms agree_invalid [OF assms, of same_cur]
  by (cases rule: cur_cases) (auto simp: push_digits1_def get_digits1_def intro: digits_agree)

definition same_cur3 :: "bool \<times> string \<times> string \<Rightarrow> bool \<times> string \<times> char option \<times> istream \<Rightarrow> bool" where
  "same_cur3 a b \<longleftrightarrow> fst a = fst b \<and> same_cur (snd a) (snd b)"

lemma same_cur3_simp [simp]:
  "same_cur3 (i, num, it) (i', num', ch, s) \<longleftrightarrow> i = i' \<and> num = num' \<and> cur it ch s"
  by (simp add: same_cur3_def)

lemma same_curE:
  assumes "same_cur a b"
  obtains x it ch s where "a = (x, it)" "b = (x, ch, s)" "cur it ch s"
  using assms by (cases a; cases b; cases "snd b") auto

lemma same_cur3E:
  assumes "same_cur3 a b"
  obtains i num it ch s where "a = (i, num, it)" "b = (i, num, ch, s)" "cur it ch s"
  using assms by (cases a; cases b; cases "snd a"; cases "snd b"; cases "snd (snd b)") auto

lemma digits1_after_get:
  "pos it s \<Longrightarrow> agree same_cur (push_digits1 num it) (let (ch', s') = get s in get_digits1 num ch' s')"
  using digits1_agree pos_get by (fastforce split: prod.splits)

lemma int_part_agree:
  assumes "cur it ch s"
  shows "agree same_cur (number_int_part it) (number_int_part_stream ch s)"
  using assms
proof (cases rule: cur_cases)
  case (char c r)
  then show ?thesis
    using digits1_after_get [of r s "[c]"] digits1_agree [OF assms, of "[]"]
    by (auto simp: number_int_part_def number_int_part_stream_def)
next
  case eof
  then show ?thesis
    using digits1_agree [OF assms, of "[]"] by (simp add: number_int_part_def number_int_part_stream_def)
qed

lemma frac_part_agree:
  assumes "cur it ch s"
  shows "agree same_cur3 (number_frac_part num it) (number_frac_part_stream num ch s)"
  using assms
proof (cases rule: cur_cases)
  case (char c r)
  obtain ch' s' where g: "get s = (ch', s')" by force
  have "agree same_cur3 (bind_result (push_digits1 (num @ [c]) r) (\<lambda>(num, it). Inr (False, num, it)))
      (bind_result (get_digits1 (num @ [c]) ch' s') (\<lambda>(num, ch, s). Inr (False, num, ch, s)))"
    by (rule agree_bind [OF digits1_agree [OF pos_get [OF char(4) g]]]) (auto elim: same_curE)
  then show ?thesis
    using char assms g by (auto simp: number_frac_part_def number_frac_part_stream_def)
next
  case eof
  then show ?thesis using assms by (simp add: number_frac_part_def number_frac_part_stream_def)
qed

lemma exp_part_agree:
  assumes "cur it ch s"
  shows "agree same_cur3 (number_exp_part i num it) (number_exp_part_stream i num ch s)"
  using assms
proof (cases rule: cur_cases)
  case (char c r)
  obtain ch' s' where g: "get s = (ch', s')" by force
  have c': "cur r ch' s'" by (rule pos_get [OF char(4) g])
  obtain ch2 s2 where g2: "get s' = (ch2, s2)" by force
  have "agree same_cur
      (bind_result (deref r) (\<lambda>d. if d = CHR ''-'' \<or> d = CHR ''+'' then push_digits1 (num @ [CHR ''e'', d]) (tl r)
         else push_digits1 (num @ [CHR ''e'']) r))
      (if ch' = Some (CHR ''-'') \<or> ch' = Some (CHR ''+'') then get_digits1 (num @ [CHR ''e'', the ch']) ch2 s2
       else get_digits1 (num @ [CHR ''e'']) ch' s')"
    using c' digits1_agree [OF c'] by (cases rule: cur_cases) (auto intro: digits1_agree pos_get [OF _ g2])
  then have both: "agree same_cur3
      (bind_result (bind_result (deref r) (\<lambda>d. if d = CHR ''-'' \<or> d = CHR ''+''
         then push_digits1 (num @ [CHR ''e'', d]) (tl r) else push_digits1 (num @ [CHR ''e'']) r))
         (\<lambda>(num, it). Inr (False, num, it)))
      (bind_result (if ch' = Some (CHR ''-'') \<or> ch' = Some (CHR ''+'') then get_digits1 (num @ [CHR ''e'', the ch']) ch2 s2
       else get_digits1 (num @ [CHR ''e'']) ch' s') (\<lambda>(num, ch, s). Inr (False, num, ch, s)))"
    by (rule agree_bind) (auto elim: same_curE)
  show ?thesis
  proof (cases "c = CHR ''e'' \<or> c = CHR ''E''")
    case True
    have "number_exp_part i num it = bind_result (bind_result (deref r) (\<lambda>d. if d = CHR ''-'' \<or> d = CHR ''+''
         then push_digits1 (num @ [CHR ''e'', d]) (tl r) else push_digits1 (num @ [CHR ''e'']) r))
         (\<lambda>(num, it). Inr (False, num, it))"
      using True char by (simp add: number_exp_part_def bind_result_assoc cong: if_cong)
    moreover have "number_exp_part_stream i num ch s =
        bind_result (if ch' = Some (CHR ''-'') \<or> ch' = Some (CHR ''+'') then get_digits1 (num @ [CHR ''e'', the ch']) ch2 s2
         else get_digits1 (num @ [CHR ''e'']) ch' s') (\<lambda>(num, ch, s). Inr (False, num, ch, s))"
      using True char g g2 by (auto simp: number_exp_part_stream_def)
    ultimately show ?thesis using both by simp
  next
    case False
    then show ?thesis using char assms by (simp add: number_exp_part_def number_exp_part_stream_def)
  qed
next
  case eof
  then show ?thesis using assms by (simp add: number_exp_part_def number_exp_part_stream_def)
qed

lemma number_agree:
  assumes "pos it s"
  shows "agree same_pos (number_parse it) (number_parse_stream s)"
proof -
  obtain i1 ch s1 where sk: "skip_sp it = Inr i1" "skip_sp_stream s = (ch, s1)" "cur i1 ch s1"
    using skip_sp_pos [OF assms] by blast
  have "agree same_pos
      (bind_result (number_int_part i1) (\<lambda>(num, it). bind_result (number_frac_part num it) (\<lambda>(i, num, it).
         bind_result (number_exp_part i num it) (\<lambda>(i, num, it). Inr (number_of_text i num, it)))))
      (bind_result (number_int_part_stream ch s1) (\<lambda>(num, ch, s). bind_result (number_frac_part_stream num ch s)
         (\<lambda>(i, num, ch, s). bind_result (number_exp_part_stream i num ch s)
            (\<lambda>(i, num, ch, s). Inr (number_of_text i num, unget s)))))"
    by (rule agree_bind [OF int_part_agree [OF sk(3)]], elim same_curE, simp only: prod.case,
        rule agree_bind [OF frac_part_agree], assumption, elim same_cur3E, simp only: prod.case,
        rule agree_bind [OF exp_part_agree], assumption, elim same_cur3E, simp add: cur_unget)
  then show ?thesis
    by (simp add: number_parse_def number_parse_stream_def sk)
qed

subsection \<open>Strings\<close>

lemma hex_agree: "pos it s \<Longrightarrow> agree same_pos (read_hex n u it) (get_hex n u s)"
proof (induction n arbitrary: u it s)
  case (Suc n)
  obtain ch s1 where g: "get s = (ch, s1)" by force
  then have c: "cur it ch s1" using pos_get Suc.prems by blast
  from c show ?case
    using Suc.IH agree_invalid [OF c, of same_pos] by (cases rule: cur_cases) (auto simp: g isxdigit_def)
qed simp

lemma same_posE:
  assumes "same_pos a b"
  obtains x it s where "a = (x, it)" "b = (x, s)" "pos it s"
  using assms by (cases a; cases b) auto

text \<open>\<open>peek\<close> sees the next character; putting the current one back works even after \<open>peek\<close> hit the end.\<close>

lemma cur_peek:
  assumes "cur it (Some c) s"
  obtains (last) s1 where "peek s = (None, s1)" "tl it = [CHR 0x00]" "pos it (unget s1)"
  | (another) d r s1 where "peek s = (Some d, s)" "tl it = d # r" "d \<noteq> CHR 0x00" "get s = (Some d, s1)" "pos r s1"
proof -
  from assms obtain ds s0 where ds: "it = ds @ [CHR 0x00]" "CHR 0x00 \<notin> set ds" "reads s0 ds" "get s0 = (Some c, s)"
    by (auto simp: cur_def pos_def)
  then have "\<not> failbit s0" by (auto simp: dead_stream)
  with ds obtain p where "s0 = stream_at p ds" by (auto simp: reads_def)
  with ds obtain cs where cs: "it = c # cs @ [CHR 0x00]" "CHR 0x00 \<notin> set (c # cs)" "s = stream_at (c # p) cs"
    by (cases ds) auto
  show thesis
  proof (cases cs)
    case Nil
    let ?s1 = "s\<lparr>eofbit := True\<rparr>"
    have p1: "peek s = (None, ?s1)" using cs Nil by (simp add: peek_def stream_at_def good_def)
    have "unget ?s1 = stream_at p [c]"
      using cs Nil by (simp add: unget_def stream_at_def)
    then have "pos it (unget ?s1)"
      using cs Nil by (auto simp: pos_def reads_def intro: exI [of _ "[c]"])
    with p1 cs Nil last show thesis by simp
  next
    case (Cons d es)
    with cs have "pos (es @ [CHR 0x00]) (stream_at (d # c # p) es)" by (auto simp: pos_def reads_def)
    with cs Cons show thesis
      by (intro another [of d "es @ [CHR 0x00]" "stream_at (d # c # p) es"]) auto
  qed
qed

lemma trail_escape_agree:
  assumes "pos it s"
  shows "agree same_pos (trail_escape w it) (trail_escape_stream w s)"
  unfolding trail_escape_def trail_escape_stream_def
  by (rule agree_bind [OF hex_agree [OF assms]]) (auto simp: Let_def elim!: same_posE)

lemma lead_escape_agree:
  assumes "pos it s"
  shows "agree same_pos (lead_escape w it) (lead_escape_stream w s)"
proof -
  obtain ch s1 where g: "get s = (ch, s1)" by force
  have c: "cur it ch s1" by (rule pos_get [OF assms g])
  show ?thesis
  proof (cases "ch = Some (CHR 0x5C)")
    case True
    then obtain r where it: "it = CHR 0x5C # r" using c by (auto elim: cur_cases)
    from c have "cur it (Some (CHR 0x5C)) s1" by (simp add: True)
    then show ?thesis
    proof (cases rule: cur_peek)
      case (last s2)
      then show ?thesis using True it by (simp add: lead_escape_def lead_escape_stream_def g)
    next
      case (another d r' s2)
      then show ?thesis
        using True it cur_unget [OF c] trail_escape_agree [of r' s2 w]
        by (auto simp: lead_escape_def lead_escape_stream_def g)
    qed
  next
    case False
    from c show ?thesis
      using False cur_unget [OF c] by (cases rule: cur_cases) (auto simp: lead_escape_def lead_escape_stream_def g)
  qed
qed

lemma escape_unicode_agree:
  assumes "pos it s"
  shows "agree same_pos (escape_unicode it) (escape_unicode_stream s)"
  unfolding escape_unicode_def escape_unicode_stream_def
  by (rule agree_bind [OF hex_agree [OF assms]]) (auto simp: Let_def elim!: same_posE intro: lead_escape_agree)

lemma string_escape_agree:
  assumes "pos it s"
  shows "agree same_pos (string_escape it) (string_escape_stream s)"
proof -
  obtain ch s1 where g: "get s = (ch, s1)" by force
  have c: "cur it ch s1" by (rule pos_get [OF assms g])
  from c show ?thesis
    using agree_invalid [OF c, of same_pos]
    by (cases rule: cur_cases)
      (auto simp: string_escape_def string_escape_stream_def g simple_escape_def intro: escape_unicode_agree
        split: option.splits)
qed

lemma string_loop_past_end: "string_loop self [] = Inl (Undefined Out_of_bounds)"
  by (subst string_loop.simps) simp

lemma string_loop_backslash:
  "string_loop self (CHR 0x5C # it) = bind_result (string_escape it) (\<lambda>(t, it). string_loop (self @ t) it)"
  by (subst string_loop.simps) simp

lemma string_loop_stream_step:
  "get s = (Some c, s1) \<Longrightarrow> string_loop_stream self s =
     (if c = CHR 0x5C then bind_result (string_escape_stream s1) (\<lambda>(t, s). string_loop_stream (self @ t) s)
      else if c = CHR 0x22 then Inr (self, s1)
      else string_loop_stream (self @ [c]) s1)"
  by (subst string_loop_stream.simps) simp

lemma string_loop_agree: "pos it s \<Longrightarrow> agree same_pos (string_loop self it) (string_loop_stream self s)"
proof (induction self it arbitrary: s rule: string_loop.induct)
  case (1 self it)
  obtain ch s1 where g: "get s = (ch, s1)" by force
  have c: "cur it ch s1" by (rule pos_get [OF "1.prems" g])
  from c show ?case
  proof (cases rule: cur_cases)
    case eof
    then have "string_loop self it = Inl (Undefined Out_of_bounds)"
      by (simp add: string_loop_plain string_loop_past_end)
    moreover have "string_loop_stream self s = Inl unexpected_end"
      using eof by (subst string_loop_stream.simps) (simp add: g)
    ultimately show ?thesis by simp
  next
    case (char x r)
    then have gx: "get s = (Some x, s1)" using g by simp
    consider "x = CHR 0x5C" | "x = CHR 0x22" | "x \<noteq> CHR 0x5C" "x \<noteq> CHR 0x22" by blast
    then show ?thesis
    proof cases
      case 1
      have "agree same_pos (bind_result (string_escape r) (\<lambda>(t, it). string_loop (self @ t) it))
          (bind_result (string_escape_stream s1) (\<lambda>(t, s). string_loop_stream (self @ t) s))"
      proof (cases "string_escape r")
        case (Inl e)
        then show ?thesis using string_escape_agree [OF char(4)] by (cases "string_escape_stream s1") auto
      next
        case (Inr a)
        obtain t i where a: "a = (t, i)" by force
        with Inr string_escape_agree [OF char(4)] obtain s2 where s2: "string_escape_stream s1 = Inr (t, s2)" "pos i s2"
          by (cases "string_escape_stream s1") auto
        have "agree same_pos (string_loop (self @ t) i) (string_loop_stream (self @ t) s2)"
          by (rule "1.IH"(1) [of x a t i s2]) (simp_all add: char(1) 1 Inr a s2)
        with Inr a s2 show ?thesis by simp
      qed
      then show ?thesis
        using char 1 by (simp add: string_loop_backslash string_loop_stream_step [OF gx])
    next
      case 2
      then show ?thesis
        using char by (simp add: string_loop_quote string_loop_stream_step [OF gx])
    next
      case 3
      then show ?thesis
        using char "1.IH"(2) [of x s1] by (simp add: string_loop_plain string_loop_stream_step [OF gx])
    qed
  qed
qed

lemma string_agree:
  assumes "pos it s"
  shows "agree same_pos (string_parse self it) (string_parse_stream self s)"
proof -
  obtain i ch s1 where sk: "skip_sp it = Inr i" "skip_sp_stream s = (ch, s1)" "cur i ch s1"
    using skip_sp_pos [OF assms] by blast
  from sk(3) show ?thesis
    using agree_invalid [OF sk(3), of same_pos] string_loop_agree [of "tl i" s1 self]
    by (cases rule: cur_cases) (auto simp: string_parse_def string_parse_stream_def sk)
qed

subsection \<open>Containers\<close>

text \<open>A text parser of nested values and its stream counterpart.\<close>

definition values_agree :: "parser \<Rightarrow> stream_parser \<Rightarrow> bool" where
  "values_agree f g \<longleftrightarrow> (\<forall>it ch s. cur it ch s \<longrightarrow> agree same_pos (f it) (g ch s))"

definition same_next :: "bool \<times> string \<Rightarrow> bool \<times> char option \<times> istream \<Rightarrow> bool" where
  "same_next a b \<longleftrightarrow> fst a = fst b \<and>
     (if fst a then cur (snd a) (fst (snd b)) (snd (snd b)) else pos (snd a) (snd (snd b)))"

lemma next_element_agree:
  assumes "pos it s" and "cl \<noteq> CHR 0x00"
  shows "agree same_next (next_element cl it) (next_element_stream cl s)"
proof -
  obtain i ch s1 where sk: "skip_sp it = Inr i" "skip_sp_stream s = (ch, s1)" "cur i ch s1"
    using skip_sp_pos [OF assms(1)] by blast
  from sk(3) show ?thesis
  proof (cases rule: cur_cases)
    case (char c r)
    obtain i2 ch2 s2 where sk2: "skip_sp r = Inr i2" "skip_sp_stream s1 = (ch2, s2)" "cur i2 ch2 s2"
      using skip_sp_pos [OF char(4)] by blast
    show ?thesis
      using char sk sk2 by (simp add: next_element_def next_element_stream_def same_next_def)
  next
    case eof
    then show ?thesis using assms(2) sk by (simp add: next_element_def next_element_stream_def)
  qed
qed

lemma member_key_agree:
  assumes "cur it ch s"
  shows "agree same_cur (member_key it) (member_key_stream ch s)"
proof (cases "ch = Some (CHR 0x22)")
  case True
  have key: "agree same_pos (string_parse [] it) (string_parse_stream [] (unget s))"
    by (rule string_agree [OF cur_unget [OF assms]])
  have rest: "agree same_cur
      (bind_result (skip_sp i) (\<lambda>it. bind_result (deref it) (\<lambda>c.
         if c = CHR '':'' then bind_result (skip_sp (tl it)) (\<lambda>it. Inr (k, it)) else invalid_format it)))
      (let (ch, s) = skip_sp_stream t in
       if ch = Some (CHR '':'') then (let (ch, s) = skip_sp_stream s in Inr (k, ch, s)) else invalid_format_stream ch)"
    if p: "pos i t" for i t k
  proof -
    obtain j ch1 s1 where sk: "skip_sp i = Inr j" "skip_sp_stream t = (ch1, s1)" "cur j ch1 s1"
      using skip_sp_pos [OF p] by blast
    from sk(3) show ?thesis
    proof (cases rule: cur_cases)
      case (char c r)
      obtain i2 ch2 s2 where "skip_sp r = Inr i2" "skip_sp_stream s1 = (ch2, s2)" "cur i2 ch2 s2"
        using skip_sp_pos [OF char(4)] by blast
      with char sk show ?thesis by simp
    qed (use sk in simp)
  qed
  have "member_key it = bind_result (string_parse [] it) (\<lambda>(k, i).
      bind_result (skip_sp i) (\<lambda>it. bind_result (deref it) (\<lambda>c.
         if c = CHR '':'' then bind_result (skip_sp (tl it)) (\<lambda>it. Inr (k, it)) else invalid_format it)))"
    using assms True by (auto simp: member_key_def elim: cur_cases)
  moreover have "agree same_cur \<dots> (member_key_stream ch s)"
    unfolding member_key_stream_def if_P [OF True]
    by (rule agree_bind [OF key], elim same_posE, simp only: prod.case, rule rest)
  ultimately show ?thesis by simp
next
  case False
  with cur_deref [OF assms] obtain c where "deref it = Inr c" "c \<noteq> CHR 0x22" by auto
  then have "member_key it = invalid_format it" by (simp add: member_key_def)
  then show ?thesis
    using False agree_invalid [OF assms, of same_cur] by (simp add: member_key_stream_def)
qed

lemma same_nextE:
  assumes "same_next a b"
  obtains it ch s where "a = (True, it)" "b = (True, ch, s)" "cur it ch s"
  | it ch s where "a = (False, it)" "b = (False, ch, s)" "pos it s"
  using assms by (cases a; cases b; cases "snd b") (auto simp: same_next_def split: if_splits)

lemma array_loop_agree:
  assumes "values_agree f g"
  shows "cur it ch s \<Longrightarrow> agree same_pos (array_parse_loop f n self it) (array_loop_stream g n self ch s)"
proof (induction n arbitrary: self it ch s)
  case (Suc n)
  then have v: "agree same_pos (f it) (g ch s)" using assms by (simp add: values_agree_def)
  show ?case
    unfolding array_parse_loop.simps array_loop_stream.simps
    by (rule agree_bind [OF v], elim same_posE, simp only: prod.case, rule agree_bind [OF next_element_agree])
      (auto elim!: same_nextE intro: Suc.IH)
qed simp

lemma object_loop_agree:
  assumes "values_agree f g"
  shows "cur it ch s \<Longrightarrow> agree same_pos (object_parse_loop f n self it) (object_loop_stream g n self ch s)"
proof (induction n arbitrary: self it ch s)
  case (Suc n)
  have v: "cur i c t \<Longrightarrow> agree same_pos (f i) (g c t)" for i c t using assms by (simp add: values_agree_def)
  show ?case
    unfolding object_parse_loop.simps object_loop_stream.simps
    by (rule agree_bind [OF member_key_agree [OF Suc.prems]], elim same_curE, simp only: prod.case,
        rule agree_bind [OF v], assumption, elim same_posE, simp only: prod.case Let_def,
        rule agree_bind [OF next_element_agree])
      (auto elim!: same_nextE intro: Suc.IH)
qed simp

text \<open>The opening bracket and the empty container.\<close>

lemma array_agree:
  assumes "values_agree f g" and "pos it s"
  shows "agree same_pos (array_parse f self it) (array_parse_stream g self s)"
proof -
  obtain i ch s1 where sk: "skip_sp it = Inr i" "skip_sp_stream s = (ch, s1)" "cur i ch s1"
    using skip_sp_pos [OF assms(2)] by blast
  from sk(3) show ?thesis
  proof (cases rule: cur_cases)
    case (char c r)
    obtain i2 ch2 s2 where sk2: "skip_sp r = Inr i2" "skip_sp_stream s1 = (ch2, s2)" "cur i2 ch2 s2"
      using skip_sp_pos [OF char(4)] by blast
    have loops: "agree same_pos (array_parse_loop f (length i2) self i2)
        (array_loop_stream g (Suc (remaining (unget s2))) self ch2 s2)"
      using array_loop_agree [OF assms(1) sk2(3), of "length i2" self]
      by (simp only: pos_remaining [OF cur_unget [OF sk2(3)]])
    from sk2(3) have "agree same_pos
        (bind_result (deref i2) (\<lambda>c. if c = CHR '']'' then Inr (self, tl i2) else array_parse_loop f (length i2) self i2))
        (if ch2 = Some (CHR '']'') then Inr (self, s2)
         else array_loop_stream g (Suc (remaining (unget s2))) self ch2 s2)"
      using loops by (cases rule: cur_cases) (simp_all del: array_parse_loop.simps array_loop_stream.simps)
    then show ?thesis
      using char by (simp add: array_parse_def array_parse_stream_def sk sk2)
  qed (use sk in \<open>simp add: array_parse_def array_parse_stream_def\<close>)
qed

lemma object_agree:
  assumes "values_agree f g" and "pos it s"
  shows "agree same_pos (object_parse f self it) (object_parse_stream g self s)"
proof -
  obtain i ch s1 where sk: "skip_sp it = Inr i" "skip_sp_stream s = (ch, s1)" "cur i ch s1"
    using skip_sp_pos [OF assms(2)] by blast
  from sk(3) show ?thesis
  proof (cases rule: cur_cases)
    case (char c r)
    obtain i2 ch2 s2 where sk2: "skip_sp r = Inr i2" "skip_sp_stream s1 = (ch2, s2)" "cur i2 ch2 s2"
      using skip_sp_pos [OF char(4)] by blast
    have loops: "agree same_pos (object_parse_loop f (length i2) self i2)
        (object_loop_stream g (Suc (remaining (unget s2))) self ch2 s2)"
      using object_loop_agree [OF assms(1) sk2(3), of "length i2" self]
      by (simp only: pos_remaining [OF cur_unget [OF sk2(3)]])
    from sk2(3) have "agree same_pos
        (bind_result (deref i2) (\<lambda>c. if c = CHR ''}'' then Inr (self, tl i2) else object_parse_loop f (length i2) self i2))
        (if ch2 = Some (CHR ''}'') then Inr (self, s2)
         else object_loop_stream g (Suc (remaining (unget s2))) self ch2 s2)"
      using loops by (cases rule: cur_cases) (simp_all del: object_parse_loop.simps object_loop_stream.simps)
    then show ?thesis
      using char by (simp add: object_parse_def object_parse_stream_def sk sk2)
  qed (use sk in \<open>simp add: object_parse_def object_parse_stream_def\<close>)
qed

subsection \<open>Values\<close>

lemma agree_wrap:
  assumes "agree same_pos r r'"
  shows "agree same_pos (bind_result r (\<lambda>(x, it). Inr (k x, it))) (bind_result r' (\<lambda>(x, s). Inr (k x, s)))"
  by (rule agree_bind [OF assms]) (auto elim: same_posE)

lemma agree_literal:
  assumes "agree pos r r'"
  shows "agree same_pos (bind_result r (\<lambda>it. Inr (v, it))) (bind_result r' (\<lambda>s. Inr (v, s)))"
  by (rule agree_bind [OF assms]) simp

lemma agree_if:
  "agree Q a b \<Longrightarrow> agree Q a' b' \<Longrightarrow> agree Q (if P then a else a') (if P then b else b')"
  by simp

lemma value_agree: "values_agree (value_parse n) (value_parse_stream n)"
proof (induction n)
  case (Suc n)
  show ?case unfolding values_agree_def
  proof (intro allI impI)
    fix it ch s
    assume c: "cur it ch s"
    then have p: "pos it (unget s)" by (rule cur_unget)
    obtain x where x: "deref it = Inr x" "\<And>y. y \<noteq> CHR 0x00 \<Longrightarrow> (ch = Some y) = (x = y)" "isdigit_ch ch = isdigit x"
      using cur_deref [OF c] by auto
    have conds: "(ch = Some (CHR ''{'')) = (x = CHR ''{'')" "(ch = Some (CHR ''['')) = (x = CHR ''['')"
      "(ch = Some (CHR 0x22)) = (x = CHR 0x22)" "(ch = Some (CHR ''t'')) = (x = CHR ''t'')"
      "(ch = Some (CHR ''f'')) = (x = CHR ''f'')" "(ch = Some (CHR ''n'')) = (x = CHR ''n'')"
      "(ch = Some (CHR ''-'')) = (x = CHR ''-'')"
      by (simp_all add: x(2))
    show "agree same_pos (value_parse (Suc n) it) (value_parse_stream (Suc n) ch s)"
      unfolding value_parse.simps value_parse_stream.simps x(1) bind_result_Inr x(3) conds
        true_parse_def false_parse_def null_parse_def
        true_parse_stream_def false_parse_stream_def null_parse_stream_def
      by (intro agree_if agree_wrap agree_literal object_agree array_agree string_agree number_agree Suc.IH p
          match_agree agree_invalid [OF c]) simp_all
  qed
qed (simp add: values_agree_def)

section \<open>Properties\<close>

lemma pos_start: "CHR 0x00 \<notin> set cs \<Longrightarrow> pos (cs @ [CHR 0x00]) (istream_of cs)"
  by (auto simp: pos_def reads_def istream_of_stream_at)

lemma read_agree:
  assumes "CHR 0x00 \<notin> set cs"
  shows "agree same_pos (object_parse_text obj cs) (object_read_stream obj (istream_of cs))"
    and "agree same_pos (array_parse_text arr cs) (array_read_stream arr (istream_of cs))"
proof -
  have n: "length (cs @ [CHR 0x00]) = Suc (remaining (istream_of cs))"
    by (rule pos_remaining [OF pos_start [OF assms]])
  show "agree same_pos (object_parse_text obj cs) (object_read_stream obj (istream_of cs))"
    and "agree same_pos (array_parse_text arr cs) (array_read_stream arr (istream_of cs))"
    unfolding object_parse_text_def object_read_stream_def array_parse_text_def array_read_stream_def Let_def n
    by (rule object_agree array_agree, rule value_agree, rule pos_start [OF assms])+
qed

text \<open>C13: The two parsers are one grammar. On a text without NUL characters, reading an object from a
  stream gives what parsing the text gives: the same members and the same unread rest, or the same
  exception with the same message; only where the text parser reads past the end of the text does the
  stream parser report an unexpected end instead.\<close>

theorem stream_parser_refines_text_parser:
  assumes "CHR 0x00 \<notin> set cs"
  shows "case object_parse_text self cs of
      Inr (obj, it) \<Rightarrow> \<exists>s. object_read_stream self (istream_of cs) = Inr (obj, s) \<and> pos it s
    | Inl e \<Rightarrow> object_read_stream self (istream_of cs) =
        Inl (if e = Undefined Out_of_bounds then unexpected_end else e)"
  using read_agree(1) [OF assms, of self]
  by (cases "object_parse_text self cs"; cases "object_read_stream self (istream_of cs)") (auto elim!: same_posE)

theorem stream_parser_refines_text_parser_witness:
  "case object_parse_text [] ''{ } x'' of
      Inr (obj, it) \<Rightarrow> \<exists>s. object_read_stream [] (istream_of ''{ } x'') = Inr (obj, s) \<and> pos it s
    | Inl e \<Rightarrow> object_read_stream [] (istream_of ''{ } x'') =
        Inl (if e = Undefined Out_of_bounds then unexpected_end else e)"
  by (rule stream_parser_refines_text_parser) simp

text \<open>An array read from a stream that a text parser accepts or refuses is accepted or refused the
  same way; in particular the stream parser always returns.\<close>

theorem array_stream_agrees:
  assumes "CHR 0x00 \<notin> set cs"
  shows "array_read_stream self (istream_of cs) \<noteq> Inl Out_of_fuel \<and>
    (\<forall>arr. (\<exists>s. array_read_stream self (istream_of cs) = Inr (arr, s)) =
      (\<exists>it. array_parse_text self cs = Inr (arr, it)))"
proof -
  have "array_parse_text self cs \<noteq> Inl Out_of_fuel"
    using container_parse_fuel [OF value_parse_consumes value_parse_enough, of "cs @ [CHR 0x00]" "length (cs @ [CHR 0x00])"]
    by (simp add: array_parse_text_def Let_def del: length_append value_parse.simps)
  with read_agree(2) [OF assms, of self] show ?thesis
    by (cases "array_parse_text self cs"; cases "array_read_stream self (istream_of cs)")
      (auto elim!: same_posE simp: unexpected_end_def split: if_splits)
qed

theorem array_stream_agrees_witness:
  "array_read_stream [] (istream_of ''[1, [2]]'') \<noteq> Inl Out_of_fuel \<and>
    (\<forall>arr. (\<exists>s. array_read_stream [] (istream_of ''[1, [2]]'') = Inr (arr, s)) =
      (\<exists>it. array_parse_text [] ''[1, [2]]'' = Inr (arr, it)))"
  by (rule array_stream_agrees) simp

lemma string_loop_unterminated:
  "CHR 0x22 \<notin> set cs \<Longrightarrow> CHR 0x5C \<notin> set cs \<Longrightarrow> string_loop self cs = Inl (Undefined Out_of_bounds)"
proof (induction cs arbitrary: self)
  case (Cons c cs)
  then have "c \<noteq> CHR 0x5C" "c \<noteq> CHR 0x22" by auto
  with Cons show ?case by (simp add: string_loop_plain)
qed (simp add: string_loop_past_end)

text \<open>An unterminated string. With no closing quote before the end of the text, the text parser
  reads past the terminating NUL, which is undefined behaviour, while the stream parser throws
  \<open>bad_format_error\<close>.\<close>

theorem unterminated_string:
  assumes "CHR 0x00 \<notin> set cs" and "CHR 0x22 \<notin> set cs" and "CHR 0x5C \<notin> set cs"
  shows "string_parse self (CHR 0x22 # cs @ [CHR 0x00]) = Inl (Undefined Out_of_bounds) \<and>
    string_parse_stream self (istream_of (CHR 0x22 # cs)) = Inl unexpected_end"
proof
  show t: "string_parse self (CHR 0x22 # cs @ [CHR 0x00]) = Inl (Undefined Out_of_bounds)"
    using assms string_loop_unterminated [of "cs @ [CHR 0x00]" self] by (simp add: string_parse_def)
  have "pos (CHR 0x22 # cs @ [CHR 0x00]) (istream_of (CHR 0x22 # cs))"
    using pos_start [of "CHR 0x22 # cs"] assms by simp
  from string_agree [OF this, of self] t
  show "string_parse_stream self (istream_of (CHR 0x22 # cs)) = Inl unexpected_end"
    by (cases "string_parse_stream self (istream_of (CHR 0x22 # cs))") simp_all
qed

theorem unterminated_string_witness:
  "string_parse [] (CHR 0x22 # ''abc'' @ [CHR 0x00]) = Inl (Undefined Out_of_bounds) \<and>
    string_parse_stream [] (istream_of (CHR 0x22 # ''abc'')) = Inl unexpected_end"
  by (rule unterminated_string) simp_all

end
