(* ===== verification/Properties.thy ===== *)
theory Properties
  imports Std_Map Utf Json_Base
begin

text \<open>
  \<open>util::properties\<close> of \<open>src/include/shan/util/properties.h\<close>: a reader of Java-style property
  files. The character in hand is \<open>ch\<close>, the stream is the state, and \<open>_properties\<close> is the
  \<open>std::map\<close> of \<open>Std_Map\<close>. Every loop reads at least one character per round, or has reached
  the end of the stream.

  Shown: a file of entries (with any separator and escaped characters), comments and blank lines
  loads to exactly its entries, the first one of a key winning; \<open>get\<close> finds them or throws
  \<open>not_found_error\<close>; a line continued over CR LF loses its first character, over LF it does not.
\<close>

section \<open>Model\<close>

type_synonym entries = "(string \<times> string) list"

function skip_line :: "istream \<Rightarrow> char option \<times> istream" where
  "skip_line s =
     (let (ch, s') = get s in
      if ch = Some (CHR 0x0A) \<or> ch = Some (CHR 0x0D) \<or> ch = None then (ch, s') else skip_line s')"
  by pat_completeness auto
termination
proof (relation "measure remaining")
  fix s x ch s'
  assume "x = get s" and "(ch, s') = x" and "\<not> (ch = Some (CHR 0x0A) \<or> ch = Some (CHR 0x0D) \<or> ch = None)"
  then show "(s', s) \<in> measure remaining"
    using remaining_get [of s _ s'] by (cases ch) (auto dest: sym)
qed simp

definition is_blank :: "char option \<Rightarrow> bool" where
  "is_blank ch \<longleftrightarrow> ch = Some (CHR '' '') \<or> ch = Some (CHR 0x09) \<or> ch = Some (CHR 0x0C)"

function skip_blanks :: "char option \<Rightarrow> istream \<Rightarrow> char option \<times> istream" where
  "skip_blanks ch s = (if is_blank ch then (let (ch', s') = get s in skip_blanks ch' s') else (ch, s))"
  by pat_completeness auto

text \<open>What the character in hand and the stream can still deliver.\<close>

definition weight :: "char option \<Rightarrow> istream \<Rightarrow> nat" where
  "weight ch s = (case ch of None \<Rightarrow> 0 | Some _ \<Rightarrow> Suc (remaining s))"

lemma weight_simps [simp]: "weight None s = 0" "weight (Some c) s = Suc (remaining s)"
  by (simp_all add: weight_def)

lemma weight_get: "get s = (ch, s') \<Longrightarrow> weight ch s' \<le> remaining s"
  by (cases ch) (auto dest: remaining_get)

termination skip_blanks
proof (relation "measure (\<lambda>(ch, s). weight ch s)")
  fix ch s x ch' s'
  assume "is_blank ch" and "x = get s" and "(ch', s') = x"
  then show "((ch', s'), (ch, s)) \<in> measure (\<lambda>(ch, s). weight ch s)"
    using weight_get [of s ch' s'] by (auto simp: is_blank_def dest: sym)
qed simp

declare skip_line.simps [simp del] skip_blanks.simps [simp del]

text \<open>The loop over four hexadecimal digits: \<open>Inl\<close> with the offending character, or \<open>Inr\<close>.\<close>

fun take_hex :: "nat \<Rightarrow> string \<Rightarrow> istream \<Rightarrow> string \<times> char option \<times> istream + string \<times> istream" where
  "take_hex 0 unicode s = Inr (unicode, s)"
| "take_hex (Suc n) unicode s =
     (let (ch, s) = get s in
      if isxdigit_ch ch then take_hex n (unicode @ [the ch]) s else Inl (unicode, ch, s))"

text \<open>Leaving \<open>__handle_backslash\<close> at its end: the next character.\<close>

definition then_get :: "string \<Rightarrow> istream \<Rightarrow> string \<times> char option \<times> istream" where
  "then_get str s = (let (ch, s) = get s in (str, ch, s))"

definition trail_sequence :: "u16 \<Rightarrow> string \<Rightarrow> istream \<Rightarrow> string \<times> char option \<times> istream" where
  "trail_sequence utf16 str s =
     (case take_hex 4 [] s of
        Inl (unicode, ch, s) \<Rightarrow> (str @ utf16_to_utf8 utf16 @ ''u'' @ unicode, ch, s)
      | Inr (unicode, s) \<Rightarrow>
          let trail_surrogate = of_nat (hex_value unicode) :: u16 in
          if is_trail_surrogate trail_surrogate
          then then_get (str @ utf32_to_utf8 (surrogate_pair_to_utf32 utf16 trail_surrogate)) s
          else then_get (str @ utf16_to_utf8 utf16 @ utf16_to_utf8 trail_surrogate) s)"

definition unicode_sequence :: "string \<Rightarrow> istream \<Rightarrow> string \<times> char option \<times> istream" where
  "unicode_sequence str s =
     (case take_hex 4 [] s of
        Inl (unicode, ch, s) \<Rightarrow> (str @ ''u'' @ unicode, ch, s)
      | Inr (unicode, s) \<Rightarrow>
          let utf16 = of_nat (hex_value unicode) :: u16 in
          if is_lead_surrogate utf16 then
            (let (ch, s) = get s in
             if ch = Some (CHR 0x5C) then
               (let (pk, s) = peek s in
                if pk = Some (CHR ''u'') then (let (_, s) = get s in trail_sequence utf16 str s)
                else (str @ utf16_to_utf8 utf16, ch, s))
             else (str @ utf16_to_utf8 utf16, ch, s))
          else then_get (str @ utf16_to_utf8 utf16) s)"

definition handle_backslash :: "string \<Rightarrow> istream \<Rightarrow> string \<times> char option \<times> istream" where
  "handle_backslash str s =
     (let (ch, s) = get s in
      case ch of
        None \<Rightarrow> (str, ch, s)
      | Some c \<Rightarrow>
          if c = CHR ''t'' then then_get (str @ [CHR 0x09]) s
          else if c = CHR ''n'' then then_get (str @ [CHR 0x0A]) s
          else if c = CHR ''f'' then then_get (str @ [CHR 0x0C]) s
          else if c = CHR ''r'' then then_get (str @ [CHR 0x0D]) s
          else if c = CHR 0x22 then then_get (str @ [CHR 0x22]) s
          else if c = CHR 0x27 then then_get (str @ [CHR 0x27]) s
          else if c = CHR 0x5C then then_get (str @ [CHR 0x5C]) s
          else if c = CHR 0x0A then
            (let (ch, s) = get s in (str, skip_blanks ch s))
          else if c = CHR 0x0D then
            (let (ch, s) = get s;
                 (ch, s) = (if ch = Some (CHR 0x0A) then get s else (ch, s));
                 (ch, s) = get s
             in (str, skip_blanks ch s))
          else if c = CHR ''u'' then unicode_sequence str s
          else then_get (str @ [c]) s)"

section \<open>Progress\<close>

lemma skip_line_weight: "skip_line s = (ch, s') \<Longrightarrow> weight ch s' \<le> remaining s"
proof (induction s rule: skip_line.induct)
  case (1 s)
  obtain c s1 where g: "get s = (c, s1)" by force
  show ?case
  proof (cases "c = Some (CHR 0x0A) \<or> c = Some (CHR 0x0D) \<or> c = None")
    case True
    with 1 g weight_get [OF g] show ?thesis by (subst (asm) skip_line.simps) auto
  next
    case False
    then have "skip_line s1 = (ch, s')" using 1 g by (subst (asm) skip_line.simps) auto
    with 1 g False have "weight ch s' \<le> remaining s1" by auto
    with remaining_get_le [OF g] show ?thesis by simp
  qed
qed

lemma skip_blanks_weight: "skip_blanks ch s = (ch', s') \<Longrightarrow> weight ch' s' \<le> weight ch s"
proof (induction ch s rule: skip_blanks.induct)
  case (1 ch s)
  obtain c s1 where g: "get s = (c, s1)" by force
  show ?case
  proof (cases "is_blank ch")
    case True
    then have "skip_blanks c s1 = (ch', s')" using 1 g by (subst (asm) skip_blanks.simps) auto
    with 1 g True have "weight ch' s' \<le> weight c s1" by auto
    with weight_get [OF g] True show ?thesis by (auto simp: is_blank_def)
  next
    case False
    with 1 show ?thesis by (subst (asm) skip_blanks.simps) auto
  qed
qed

lemma skip_sp_weight: "skip_sp_stream s = (ch, s') \<Longrightarrow> weight ch s' \<le> remaining s"
proof (induction s rule: skip_sp_stream.induct)
  case (1 s)
  obtain c s1 where g: "get s = (c, s1)" by force
  show ?case
  proof (cases "isspace_ch c")
    case True
    then have "skip_sp_stream s1 = (ch, s')" using 1 g by (subst (asm) skip_sp_stream.simps) auto
    with 1 g True have "weight ch s' \<le> remaining s1" by auto
    with remaining_get_le [OF g] show ?thesis by simp
  next
    case False
    with 1 g weight_get [OF g] show ?thesis by (subst (asm) skip_sp_stream.simps) auto
  qed
qed

lemma then_get_weight: "then_get str s = (str', ch, s') \<Longrightarrow> weight ch s' \<le> remaining s"
  by (auto simp: then_get_def dest: weight_get split: prod.splits)

lemma take_hex_Suc:
  "get s = (c, s1) \<Longrightarrow>
     take_hex (Suc n) u s = (if isxdigit_ch c then take_hex n (u @ [the c]) s1 else Inl (u, c, s1))"
  by simp

lemma take_hex_weight: "take_hex n u s = Inl (u', ch, s') \<Longrightarrow> weight ch s' \<le> remaining s"
proof (induction n arbitrary: u s)
  case (Suc n)
  obtain c s1 where g: "get s = (c, s1)" by force
  show ?case
    using Suc.prems Suc.IH [of "u @ [the c]" s1] remaining_get_le [OF g] weight_get [OF g]
    unfolding take_hex_Suc [OF g] by (auto split: if_splits)
qed simp

lemma take_hex_remaining: "take_hex n u s = Inr (u', s') \<Longrightarrow> remaining s' \<le> remaining s"
proof (induction n arbitrary: u s)
  case (Suc n)
  obtain c s1 where g: "get s = (c, s1)" by force
  show ?case
    using Suc.prems Suc.IH [of "u @ [the c]" s1] remaining_get_le [OF g]
    unfolding take_hex_Suc [OF g] by (auto split: if_splits)
qed simp

lemma trail_sequence_weight: "trail_sequence w str s = (str', ch, s') \<Longrightarrow> weight ch s' \<le> remaining s"
  by (auto simp: trail_sequence_def Let_def split: sum.splits if_splits
      dest!: take_hex_weight take_hex_remaining then_get_weight)

lemma unicode_sequence_weight:
  assumes "unicode_sequence str s = (str', ch, s')"
  shows "weight ch s' \<le> remaining s"
proof (cases "take_hex 4 [] s")
  case (Inl a)
  with assms show ?thesis by (cases a) (auto simp: unicode_sequence_def dest: take_hex_weight)
next
  case (Inr a)
  obtain u s0 where a: "a = (u, s0)" by force
  obtain c s1 where g: "get s0 = (c, s1)" by force
  obtain pk s2 where p: "peek s1 = (pk, s2)" by force
  obtain d s3 where g3: "get s2 = (d, s3)" by force
  have le: "remaining s0 \<le> remaining s" using Inr a by (simp add: take_hex_remaining)
  have "weight c s1 \<le> remaining s0" "remaining s1 \<le> remaining s0" "remaining s3 \<le> remaining s2"
    "remaining s2 \<le> remaining s1" "weight c s2 \<le> weight c s1"
    using weight_get [OF g] remaining_get_le [OF g] remaining_get_le [OF g3] remaining_peek [OF p]
    by (auto simp: weight_def split: option.splits)
  with le assms show ?thesis
    using le_trans
    by (auto simp: unicode_sequence_def Let_def Inr a g p g3 split: if_splits
        dest!: trail_sequence_weight then_get_weight)
qed

lemma handle_backslash_weight:
  assumes "handle_backslash str s = (str', ch, s')"
  shows "weight ch s' \<le> remaining s"
proof -
  obtain c s1 where g: "get s = (c, s1)" by force
  obtain d s2 where g2: "get s1 = (d, s2)" by force
  obtain e s3 where g3: "get s2 = (e, s3)" by force
  obtain f s4 where g4: "get s3 = (f, s4)" by force
  have le: "remaining s1 \<le> remaining s" "weight d s2 \<le> remaining s1" "weight e s3 \<le> remaining s1"
    "weight f s4 \<le> remaining s1"
    using weight_get remaining_get_le g g2 g3 g4 by (meson le_trans)+
  show ?thesis
  proof (cases c)
    case (Some x)
    have "weight ch s' \<le> remaining s1"
      using assms le
      by (auto simp: handle_backslash_def g g2 g3 g4 Some split: if_splits
          dest!: unicode_sequence_weight then_get_weight skip_blanks_weight)
    with le show ?thesis by simp
  qed (use assms g in \<open>auto simp: handle_backslash_def\<close>)
qed

section \<open>Keys, values and files\<close>

function read_key :: "string \<Rightarrow> char option \<Rightarrow> istream \<Rightarrow> string \<times> char option \<times> istream" where
  "read_key key ch s =
     (case ch of
        None \<Rightarrow> (key, ch, s)
      | Some c \<Rightarrow>
          if c = CHR 0x5C then (let (key, ch, s) = handle_backslash key s in read_key key ch s)
          else if c = CHR ''='' \<or> c = CHR '':'' then (key, ch, s)
          else if isspace c then (key, ch, s)
          else (let (ch, s) = get s in read_key (key @ [c]) ch s))"
  by pat_completeness auto
termination
  by (relation "measure (\<lambda>(key, ch, s). weight ch s)")
    (auto simp: less_Suc_eq_le dest: handle_backslash_weight weight_get split: prod.splits)

function read_value :: "string \<Rightarrow> char option \<Rightarrow> istream \<Rightarrow> string \<times> char option \<times> istream" where
  "read_value val ch s =
     (case ch of
        None \<Rightarrow> (val, ch, s)
      | Some c \<Rightarrow>
          if c = CHR 0x5C then (let (val, ch, s) = handle_backslash val s in read_value val ch s)
          else if c = CHR 0x0A \<or> c = CHR 0x0D then (val, ch, s)
          else (let (ch, s) = get s in read_value (val @ [c]) ch s))"
  by pat_completeness auto
termination
  by (relation "measure (\<lambda>(key, ch, s). weight ch s)")
    (auto simp: less_Suc_eq_le dest: handle_backslash_weight weight_get split: prod.splits)

declare read_key.simps [simp del] read_value.simps [simp del]

lemma read_key_weight: "read_key key ch s = (key', ch', s') \<Longrightarrow> weight ch' s' \<le> weight ch s"
proof (induction key ch s rule: read_key.induct)
  case (1 key ch s)
  show ?case
  proof (cases ch)
    case (Some c)
    obtain k b t where h: "handle_backslash key s = (k, b, t)" by (metis prod_cases3)
    obtain d u where g: "get s = (d, u)" by force
    have le: "weight b t \<le> remaining s" "weight d u \<le> remaining s"
      using handle_backslash_weight [OF h] weight_get [OF g] by simp_all
    show ?thesis
      using "1.prems" "1.IH"(1) [OF Some _ h [symmetric] refl] "1.IH"(2) [OF Some _ _ _ g [symmetric]] le
      by (subst (asm) read_key.simps) (auto simp: Some h g split: if_splits)
  qed (use "1.prems" in \<open>subst (asm) read_key.simps, auto\<close>)
qed

lemma read_value_weight: "read_value val ch s = (val', ch', s') \<Longrightarrow> weight ch' s' \<le> weight ch s"
proof (induction val ch s rule: read_value.induct)
  case (1 val ch s)
  show ?case
  proof (cases ch)
    case (Some c)
    obtain k b t where h: "handle_backslash val s = (k, b, t)" by (metis prod_cases3)
    obtain d u where g: "get s = (d, u)" by force
    have le: "weight b t \<le> remaining s" "weight d u \<le> remaining s"
      using handle_backslash_weight [OF h] weight_get [OF g] by simp_all
    show ?thesis
      using "1.prems" "1.IH"(1) [OF Some _ h [symmetric] refl] "1.IH"(2) [OF Some _ _ g [symmetric]] le
      by (subst (asm) read_value.simps) (auto simp: Some h g split: if_splits)
  qed (use "1.prems" in \<open>subst (asm) read_value.simps, auto\<close>)
qed

text \<open>One entry of the file: the key, the separator with the blanks around it, and the value.\<close>

definition read_entry :: "char option \<Rightarrow> istream \<Rightarrow> string \<times> string \<times> char option \<times> istream" where
  "read_entry ch s =
     (let (key, ch, s) = read_key [] ch s;
          (ch, s) = skip_blanks ch s;
          (ch, s) = (if ch = Some (CHR ''='') \<or> ch = Some (CHR '':'') then get s else (ch, s));
          (ch, s) = skip_blanks ch s;
          (val, ch, s) = read_value [] ch s
      in (key, val, ch, s))"

function load_loop :: "entries \<Rightarrow> char option \<Rightarrow> istream \<Rightarrow> entries \<times> istream" where
  "load_loop m ch s =
     (case ch of
        None \<Rightarrow> (m, s)
      | Some c \<Rightarrow>
          if isspace c then (let (ch, s) = skip_sp_stream s in load_loop m ch s)
          else if c = CHR ''#'' \<or> c = CHR ''!'' then (let (ch, s) = skip_line s in load_loop m ch s)
          else
            (let (key, val, ch, s) = read_entry ch s;
                 m = (if key \<noteq> [] then fst (map_insert key val m) else m)
             in load_loop m ch s))"
  by pat_completeness auto

lemma read_entry_weight:
  assumes "read_entry (Some c) s = (key, val, ch', s')" and "\<not> isspace c"
  shows "weight ch' s' \<le> remaining s"
proof -
  obtain k c1 s1 where r: "read_key [] (Some c) s = (k, c1, s1)" by (metis prod_cases3)
  obtain c2 s2 where b: "skip_blanks c1 s1 = (c2, s2)" by force
  obtain c3 s3 where e: "(if c2 = Some (CHR ''='') \<or> c2 = Some (CHR '':'') then get s2 else (c2, s2)) = (c3, s3)"
    by force
  obtain c4 s4 where b4: "skip_blanks c3 s3 = (c4, s4)" by force
  obtain v c5 s5 where w: "read_value [] c4 s4 = (v, c5, s5)" by (metis prod_cases3)
  have le: "weight ch' s' \<le> weight c3 s3"
    using assms(1) read_value_weight [OF w] skip_blanks_weight [OF b4]
    by (simp add: read_entry_def r b e b4 w)
  show ?thesis
  proof (cases "c = CHR ''='' \<or> c = CHR '':''")
    case True
    then have "c1 = Some c \<and> s1 = s" using r by (subst (asm) read_key.simps) auto
    then have "c2 = Some c \<and> s2 = s" using b True by (subst (asm) skip_blanks.simps) (auto simp: is_blank_def)
    with e True weight_get [of s c3 s3] le show ?thesis by auto
  next
    case False
    obtain k b t where h: "handle_backslash [] s = (k, b, t)" by (metis prod_cases3)
    obtain d u where g: "get s = (d, u)" by force
    have "weight c1 s1 \<le> remaining s"
      using r False assms(2) handle_backslash_weight [OF h] weight_get [OF g]
      by (subst (asm) read_key.simps) (auto simp: h g split: if_splits dest!: read_key_weight)
    moreover have "weight c3 s3 \<le> weight c2 s2"
      using e weight_get [of s2 c3 s3] by (auto split: if_splits)
    ultimately show ?thesis using le skip_blanks_weight [OF b] by simp
  qed
qed

termination load_loop
  by (relation "measure (\<lambda>(m, ch, s). weight ch s)")
    (auto simp: less_Suc_eq_le dest: skip_sp_weight skip_line_weight read_entry_weight [OF sym] split: prod.splits)

declare load_loop.simps [simp del]

definition load :: "entries \<Rightarrow> istream \<Rightarrow> entries \<times> istream" where
  "load m s = (let (ch, s) = get s in load_loop m ch s)"

text \<open>\<open>get(key)\<close>; \<open>what\<close> is the text of the \<open>std::out_of_range\<close> that \<open>std::map::at\<close> throws.\<close>

definition properties_get :: "string \<Rightarrow> string \<Rightarrow> entries \<Rightarrow> string result" where
  "properties_get what key m =
     (case map_at key m of Inl _ \<Rightarrow> Inl (Not_found_error what) | Inr val \<Rightarrow> Inr val)"

section \<open>Files\<close>

text \<open>
  A property file as its author sees it. An entry is a key, blanks, an optional separator, blanks and
  a value; in keys and values the characters with a meaning of their own are written as escapes.
\<close>

datatype file_line =
    Blank_line string
  | Comment_line char string
  | Entry_line string string "char option" string string

definition written :: "char \<Rightarrow> string" where
  "written c =
     (if c = CHR 0x09 then [CHR 0x5C, CHR ''t'']
      else if c = CHR 0x0A then [CHR 0x5C, CHR ''n'']
      else if c = CHR 0x0C then [CHR 0x5C, CHR ''f'']
      else if c = CHR 0x0D then [CHR 0x5C, CHR ''r'']
      else if c \<in> {CHR '' '', CHR 0x0B, CHR ''='', CHR '':'', CHR ''#'', CHR ''!'', CHR 0x5C} then [CHR 0x5C, c]
      else [c])"

fun line_text :: "file_line \<Rightarrow> string" where
  "line_text (Blank_line ws) = ws @ [CHR 0x0A]"
| "line_text (Comment_line c cs) = c # cs @ [CHR 0x0A]"
| "line_text (Entry_line k b sep b' v) =
     concat (map written k) @ b @ (case sep of None \<Rightarrow> [] | Some c \<Rightarrow> [c]) @ b' @ concat (map written v) @ [CHR 0x0A]"

abbreviation blanks :: "string \<Rightarrow> bool" where
  "blanks b \<equiv> \<forall>c \<in> set b. is_blank (Some c)"

fun line_ok :: "file_line \<Rightarrow> bool" where
  "line_ok (Blank_line ws) \<longleftrightarrow> (\<forall>c \<in> set ws. isspace c)"
| "line_ok (Comment_line c cs) \<longleftrightarrow> c \<in> {CHR ''#'', CHR ''!''} \<and> CHR 0x0A \<notin> set cs \<and> CHR 0x0D \<notin> set cs"
| "line_ok (Entry_line k b sep b' v) \<longleftrightarrow> k \<noteq> [] \<and> blanks b \<and> blanks b' \<and>
     (case sep of None \<Rightarrow> b \<noteq> [] | Some c \<Rightarrow> c \<in> {CHR ''='', CHR '':''})"

fun line_entries :: "file_line \<Rightarrow> entries" where
  "line_entries (Entry_line k b sep b' v) = [(k, v)]"
| "line_entries _ = []"

text \<open>The text that is still to be read, with the character in hand in front.\<close>

definition at_text :: "char option \<Rightarrow> istream \<Rightarrow> string \<Rightarrow> bool" where
  "at_text ch s cs \<longleftrightarrow> (case cs of [] \<Rightarrow> ch = None | c # r \<Rightarrow> ch = Some c \<and> (\<exists>p. s = stream_at p r))"

lemma at_text_simps [simp]:
  "at_text ch s [] \<longleftrightarrow> ch = None"
  "at_text ch s (c # r) \<longleftrightarrow> ch = Some c \<and> (\<exists>p. s = stream_at p r)"
  by (simp_all add: at_text_def)

lemma get_at_text: "\<exists>ch s. get (stream_at p r) = (ch, s) \<and> at_text ch s r"
  by (cases r) auto

lemma then_get_at_text: "\<exists>ch s. then_get str (stream_at p r) = (str, ch, s) \<and> at_text ch s r"
  by (cases r) (auto simp: then_get_def)

text \<open>The reader of keys and the reader of values take one written character at a time.\<close>

lemma written_cases:
  obtains (escape) e where "written c = [CHR 0x5C, e]"
      "\<And>str p r. handle_backslash str (stream_at p (e # r)) = then_get (str @ [c]) (stream_at (e # p) r)"
  | (plain) "written c = [c]" "c \<noteq> CHR 0x5C" "c \<noteq> CHR ''=''" "c \<noteq> CHR '':''" "\<not> isspace c"
      "c \<noteq> CHR ''#''" "c \<noteq> CHR ''!''"
proof (cases "isspace c \<or> c \<in> {CHR ''='', CHR '':'', CHR ''#'', CHR ''!'', CHR 0x5C}")
  case True
  then have "\<exists>e. written c = [CHR 0x5C, e] \<and>
      (\<forall>str p r. handle_backslash str (stream_at p (e # r)) = then_get (str @ [c]) (stream_at (e # p) r))"
    unfolding isspace_def
    by (elim disjE insertE emptyE) (simp_all add: written_def handle_backslash_def)
  then show ?thesis using escape by blast
next
  case False
  then have "written c = [c]" by (auto simp: written_def isspace_def)
  with False show ?thesis using plain by auto
qed

lemma read_key_written:
  assumes "at_text ch s (written c @ r)"
  shows "\<exists>ch' s'. read_key key ch s = read_key (key @ [c]) ch' s' \<and> at_text ch' s' r"
proof (cases c rule: written_cases)
  case (escape e)
  with assms obtain p where p: "ch = Some (CHR 0x5C)" "s = stream_at p (e # r)" by auto
  obtain ch' s' where "then_get (key @ [c]) (stream_at (e # p) r) = (key @ [c], ch', s')" "at_text ch' s' r"
    using then_get_at_text by blast
  then show ?thesis using p escape(2) by (subst read_key.simps) auto
next
  case plain
  with assms obtain p where p: "ch = Some c" "s = stream_at p r" by auto
  obtain ch' s' where "get (stream_at p r) = (ch', s')" "at_text ch' s' r" using get_at_text by blast
  then show ?thesis using p plain by (subst read_key.simps) auto
qed

lemma read_value_written:
  assumes "at_text ch s (written c @ r)"
  shows "\<exists>ch' s'. read_value val ch s = read_value (val @ [c]) ch' s' \<and> at_text ch' s' r"
proof (cases c rule: written_cases)
  case (escape e)
  with assms obtain p where p: "ch = Some (CHR 0x5C)" "s = stream_at p (e # r)" by auto
  obtain ch' s' where "then_get (val @ [c]) (stream_at (e # p) r) = (val @ [c], ch', s')" "at_text ch' s' r"
    using then_get_at_text by blast
  then show ?thesis using p escape(2) by (subst read_value.simps) auto
next
  case plain
  with assms obtain p where p: "ch = Some c" "s = stream_at p r" by auto
  obtain ch' s' where "get (stream_at p r) = (ch', s')" "at_text ch' s' r" using get_at_text by blast
  then show ?thesis using p plain by (subst read_value.simps) (auto simp: isspace_def)
qed

lemma read_key_run:
  assumes "at_text ch s (concat (map written k) @ c # r)" and "isspace c \<or> c \<in> {CHR ''='', CHR '':''}"
  shows "\<exists>s'. read_key key ch s = (key @ k, Some c, s') \<and> at_text (Some c) s' (c # r)"
  using assms(1)
proof (induction k arbitrary: key ch s)
  case Nil
  with assms(2) show ?case by (subst read_key.simps) (auto simp: isspace_def)
next
  case (Cons a k)
  then obtain ch' s' where "read_key key ch s = read_key (key @ [a]) ch' s'"
      "at_text ch' s' (concat (map written k) @ c # r)"
    using read_key_written [of ch s a "concat (map written k) @ c # r" key] by auto
  with Cons.IH [of ch' s' "key @ [a]"] show ?case by simp
qed

lemma read_value_run:
  assumes "at_text ch s (concat (map written v) @ CHR 0x0A # r)"
  shows "\<exists>s'. read_value val ch s = (val @ v, Some (CHR 0x0A), s') \<and> at_text (Some (CHR 0x0A)) s' (CHR 0x0A # r)"
  using assms
proof (induction v arbitrary: val ch s)
  case Nil
  then show ?case by (subst read_value.simps) auto
next
  case (Cons a v)
  then obtain ch' s' where "read_value val ch s = read_value (val @ [a]) ch' s'"
      "at_text ch' s' (concat (map written v) @ CHR 0x0A # r)"
    using read_value_written [of ch s a "concat (map written v) @ CHR 0x0A # r" val] by auto
  with Cons.IH [of ch' s' "val @ [a]"] show ?case by simp
qed

lemma skip_blanks_run:
  assumes "at_text ch s (b @ c # r)" and "blanks b" and "\<not> is_blank (Some c)"
  shows "\<exists>s'. skip_blanks ch s = (Some c, s') \<and> at_text (Some c) s' (c # r)"
  using assms(1,2)
proof (induction b arbitrary: ch s)
  case Nil
  with assms(3) show ?case by (subst skip_blanks.simps) auto
next
  case (Cons a b)
  then obtain p where "ch = Some a" "s = stream_at p (b @ c # r)" by auto
  moreover obtain ch' s' where "get (stream_at p (b @ c # r)) = (ch', s')" "at_text ch' s' (b @ c # r)"
    using get_at_text by blast
  ultimately show ?case
    using Cons.IH [of ch' s'] Cons.prems(2) by (subst skip_blanks.simps) auto
qed

lemma written_head:
  "\<exists>c q. written a @ r = c # q \<and> \<not> isspace c \<and> c \<notin> {CHR ''='', CHR '':'', CHR ''#'', CHR ''!''}"
  by (cases a rule: written_cases) (auto simp: isspace_def)

lemma blank_isspace: "is_blank (Some c) \<Longrightarrow> isspace c"
  by (auto simp: is_blank_def isspace_def)

lemma value_head:
  "\<exists>c q. concat (map written v) @ CHR 0x0A # r = c # q \<and> \<not> is_blank (Some c) \<and> c \<notin> {CHR ''='', CHR '':''}"
proof (cases v)
  case (Cons a w)
  with written_head [of a "concat (map written w) @ CHR 0x0A # r"] blank_isspace show ?thesis by auto
qed (simp add: is_blank_def)

lemma read_entry_run:
  assumes "at_text ch s (line_text (Entry_line k b sep b' v) @ r)" and "line_ok (Entry_line k b sep b' v)"
  shows "\<exists>s'. read_entry ch s = (k, v, Some (CHR 0x0A), s') \<and> at_text (Some (CHR 0x0A)) s' (CHR 0x0A # r)"
proof -
  let ?v = "concat (map written v) @ CHR 0x0A # r"
  let ?sep = "case sep of None \<Rightarrow> [] | Some c \<Rightarrow> [c]"
  obtain c q where v: "?v = c # q" "\<not> is_blank (Some c)" "c \<notin> {CHR ''='', CHR '':''}" using value_head by blast
  obtain c0 q0 where c0: "b @ ?sep @ b' @ ?v = c0 # q0" "isspace c0 \<or> c0 \<in> {CHR ''='', CHR '':''}"
    using assms(2) by (cases b; cases sep) (auto simp: blank_isspace)
  have "at_text ch s (concat (map written k) @ c0 # q0)"
    using assms(1) by (simp add: c0(1) [symmetric])
  then obtain s1 where key: "read_key [] ch s = (k, Some c0, s1)" and t1: "at_text (Some c0) s1 (b @ ?sep @ b' @ ?v)"
    using read_key_run [of ch s k c0 q0 "[]"] c0 by auto
  have "\<exists>c2 s2 c3 s3. skip_blanks (Some c0) s1 = (c2, s2) \<and>
      (if c2 = Some (CHR ''='') \<or> c2 = Some (CHR '':'') then get s2 else (c2, s2)) = (c3, s3) \<and>
      (\<exists>b''. blanks b'' \<and> at_text c3 s3 (b'' @ c # q))"
  proof (cases sep)
    case None
    then obtain s2 where "skip_blanks (Some c0) s1 = (Some c, s2)" "at_text (Some c) s2 (c # q)"
      using skip_blanks_run [of "Some c0" s1 "b @ b'" c q] t1 assms(2) v by auto
    with v show ?thesis by (intro exI [of _ "[]"] exI conjI) auto
  next
    case (Some x)
    then have x: "x \<in> {CHR ''='', CHR '':''}" "\<not> is_blank (Some x)" using assms(2) by (auto simp: is_blank_def)
    with Some obtain s2 where s2: "skip_blanks (Some c0) s1 = (Some x, s2)" "at_text (Some x) s2 (x # b' @ ?v)"
      using skip_blanks_run [of "Some c0" s1 b x "b' @ ?v"] t1 assms(2) by auto
    then obtain p where "s2 = stream_at p (b' @ ?v)" by auto
    then obtain c3 s3 where "get s2 = (c3, s3)" "at_text c3 s3 (b' @ ?v)" using get_at_text by blast
    with s2 x v assms(2) show ?thesis by (intro exI [of _ b'] exI conjI) auto
  qed
  then obtain c2 s2 c3 s3 b'' where sep2: "skip_blanks (Some c0) s1 = (c2, s2)"
      "(if c2 = Some (CHR ''='') \<or> c2 = Some (CHR '':'') then get s2 else (c2, s2)) = (c3, s3)"
      and b'': "blanks b''" "at_text c3 s3 (b'' @ c # q)" by blast
  obtain s4 where s4: "skip_blanks c3 s3 = (Some c, s4)" "at_text (Some c) s4 (c # q)"
    using skip_blanks_run [OF b''(2,1) v(2)] by blast
  obtain s5 where "read_value [] (Some c) s4 = (v, Some (CHR 0x0A), s5)" "at_text (Some (CHR 0x0A)) s5 (CHR 0x0A # r)"
    using read_value_run [of "Some c" s4 v r "[]"] s4(2) v(1) by auto
  then show ?thesis
    by (simp add: read_entry_def key sep2 s4(1))
qed

lemma skip_sp_run:
  "\<forall>c \<in> set ws. isspace c \<Longrightarrow> r = [] \<or> \<not> isspace (hd r) \<Longrightarrow>
     \<exists>ch s. skip_sp_stream (stream_at p (ws @ r)) = (ch, s) \<and> at_text ch s r"
proof (induction ws arbitrary: p)
  case Nil
  then show ?case by (cases r) (subst skip_sp_stream.simps, auto)+
next
  case (Cons w ws)
  then show ?case by (subst skip_sp_stream.simps) auto
qed

lemma skip_line_run:
  "CHR 0x0A \<notin> set cs \<Longrightarrow> CHR 0x0D \<notin> set cs \<Longrightarrow>
     \<exists>s. skip_line (stream_at p (cs @ CHR 0x0A # r)) = (Some (CHR 0x0A), s) \<and> at_text (Some (CHR 0x0A)) s (CHR 0x0A # r)"
proof (induction cs arbitrary: p)
  case (Cons c cs)
  then show ?case by (subst skip_line.simps) auto
qed (subst skip_line.simps, auto)

lemma load_skips_space:
  assumes "at_text ch s (ws @ r)" and "\<forall>c \<in> set ws. isspace c" and "r = [] \<or> \<not> isspace (hd r)"
  shows "\<exists>ch' s'. load_loop m ch s = load_loop m ch' s' \<and> at_text ch' s' r"
proof (cases ws)
  case (Cons w ws')
  with assms obtain p where "ch = Some w" "s = stream_at p (ws' @ r)" "isspace w" by auto
  moreover obtain ch' s' where "skip_sp_stream (stream_at p (ws' @ r)) = (ch', s')" "at_text ch' s' r"
    using skip_sp_run [of ws' r p] assms Cons by auto
  ultimately show ?thesis by (subst load_loop.simps) auto
qed (use assms in auto)

text \<open>One comment, and one entry, after white space.\<close>

lemma load_comment_line:
  assumes "at_text ch s (ws @ line_text (Comment_line c cs) @ r)" and "\<forall>x \<in> set ws. isspace x"
    and "line_ok (Comment_line c cs)"
  shows "\<exists>s'. load_loop m ch s = load_loop m (Some (CHR 0x0A)) s' \<and> at_text (Some (CHR 0x0A)) s' (CHR 0x0A # r)"
proof -
  have c: "c \<in> {CHR ''#'', CHR ''!''}" "\<not> isspace c" using assms(3) by (auto simp: isspace_def)
  with assms obtain s1 p where "load_loop m ch s = load_loop m (Some c) s1" "s1 = stream_at p (cs @ CHR 0x0A # r)"
    using load_skips_space [of ch s ws "c # cs @ CHR 0x0A # r" m] by auto
  moreover obtain s2 where "skip_line (stream_at p (cs @ CHR 0x0A # r)) = (Some (CHR 0x0A), s2)"
      "at_text (Some (CHR 0x0A)) s2 (CHR 0x0A # r)"
    using skip_line_run [of cs p r] assms(3) by auto
  ultimately show ?thesis
    using c by (auto simp: load_loop.simps [of m "Some c"])
qed

lemma load_entry_line:
  assumes "at_text ch s (ws @ line_text (Entry_line k b sep b' v) @ r)" and "\<forall>x \<in> set ws. isspace x"
    and "line_ok (Entry_line k b sep b' v)"
  shows "\<exists>s'. load_loop m ch s = load_loop (fst (map_insert k v m)) (Some (CHR 0x0A)) s' \<and>
    at_text (Some (CHR 0x0A)) s' (CHR 0x0A # r)"
proof -
  let ?l = "Entry_line k b sep b' v"
  obtain a k' where k: "k = a # k'" using assms(3) by (cases k) auto
  obtain c q where h: "line_text ?l @ r = c # q" "\<not> isspace c" "c \<notin> {CHR ''#'', CHR ''!''}"
  proof -
    obtain x where "line_text ?l @ r = written a @ x" by (simp add: k)
    with written_head [of a x] that show thesis by auto
  qed
  with assms obtain s1 where s1: "load_loop m ch s = load_loop m (Some c) s1" "at_text (Some c) s1 (line_text ?l @ r)"
    using load_skips_space [of ch s ws "line_text ?l @ r" m] by auto
  then obtain s2 where "read_entry (Some c) s1 = (k, v, Some (CHR 0x0A), s2)" "at_text (Some (CHR 0x0A)) s2 ([CHR 0x0A] @ r)"
    using read_entry_run [of "Some c" s1 k b sep b' v r] assms(3) by auto
  with s1 h show ?thesis
    by (auto simp: load_loop.simps [of m "Some c"] k)
qed

lemma load_lines:
  "at_text ch s (ws @ concat (map line_text ls)) \<Longrightarrow> \<forall>c \<in> set ws. isspace c \<Longrightarrow> list_all line_ok ls \<Longrightarrow>
     fst (load_loop m ch s) = std_map.insert_all (concat (map line_entries ls)) m"
proof (induction ls arbitrary: ws ch s m)
  case Nil
  then obtain ch' s' where "load_loop m ch s = load_loop m ch' s'" "ch' = None"
    using load_skips_space [of ch s ws "[]" m] by auto
  then show ?case by (simp add: load_loop.simps)
next
  case (Cons l ls)
  have nl: "\<forall>c \<in> set [CHR 0x0A]. isspace c" by (simp add: isspace_def)
  have ok: "line_ok l" "list_all line_ok ls" using Cons.prems by simp_all
  have line: "at_text ch s (ws @ line_text l @ concat (map line_text ls))" using Cons.prems(1) by simp
  show ?case
  proof (cases l)
    case (Blank_line ws')
    with Cons.prems ok show ?thesis
      using Cons.IH [of ch s "ws @ ws' @ [CHR 0x0A]" m] by (auto simp: isspace_def)
  next
    case (Comment_line c cs)
    with load_comment_line [OF line [unfolded Comment_line] Cons.prems(2)] ok
    obtain s' where "load_loop m ch s = load_loop m (Some (CHR 0x0A)) s'"
        "at_text (Some (CHR 0x0A)) s' ([CHR 0x0A] @ concat (map line_text ls))"
      by fastforce
    with Cons.IH [OF _ nl ok(2), of "Some (CHR 0x0A)" s' m] Comment_line show ?thesis by simp
  next
    case (Entry_line k b sep b' v)
    with load_entry_line [OF line [unfolded Entry_line] Cons.prems(2)] ok
    obtain s' where "load_loop m ch s = load_loop (fst (map_insert k v m)) (Some (CHR 0x0A)) s'"
        "at_text (Some (CHR 0x0A)) s' ([CHR 0x0A] @ concat (map line_text ls))"
      by fastforce
    with Cons.IH [OF _ nl ok(2), of "Some (CHR 0x0A)" s' "fst (map_insert k v m)"] Entry_line show ?thesis by simp
  qed
qed

section \<open>Properties\<close>

text \<open>C39: A property file loads to its entries. For any sequence of blank lines, comments and entries,
  with any separator and blanks around it and the special characters of keys and values escaped, every
  key of the file is found with the value of its first entry, and every other key is refused with
  \<open>not_found_error\<close>.\<close>

theorem load_file:
  assumes "list_all line_ok ls"
  shows "case load [] (istream_of (concat (map line_text ls))) of (m, s) \<Rightarrow>
    keys_sorted m \<and>
    properties_get what key m =
      (case map_of (concat (map line_entries ls)) key of
         None \<Rightarrow> Inl (Not_found_error what) | Some val \<Rightarrow> Inr val)"
proof -
  let ?text = "concat (map line_text ls)" and ?es = "concat (map line_entries ls)"
  obtain ch s where g: "get (istream_of ?text) = (ch, s)" "at_text ch s ?text"
    using get_at_text [of "[]" ?text] by (auto simp: istream_of_stream_at)
  then have "fst (load [] (istream_of ?text)) = std_map.insert_all ?es []"
    using load_lines [of ch s "[]" ls "[]"] assms by (simp add: load_def)
  moreover have "keys_sorted (std_map.insert_all ?es [])"
    by (rule std_map.invar_insert_all) simp
  moreover have "map_of (std_map.insert_all ?es []) key = map_of ?es key"
    by (simp add: std_map.lookup_insert_all)
  ultimately show ?thesis
    by (auto simp: properties_get_def map_at_def split: option.splits prod.splits)
qed

theorem load_file_witness:
  "case load [] (istream_of (concat (map line_text
      [Comment_line (CHR ''#'') ''note'', Entry_line ''a b'' [] (Some (CHR ''='')) '' '' ''x=y'',
       Blank_line ''  '', Entry_line ''k'' '' '' None [] ''v'', Entry_line ''k'' [] (Some (CHR '':'')) [] ''w'']))) of (m, s) \<Rightarrow>
    keys_sorted m \<and>
    properties_get ''map::at'' ''k'' m =
      (case map_of (concat (map line_entries
        [Comment_line (CHR ''#'') ''note'', Entry_line ''a b'' [] (Some (CHR ''='')) '' '' ''x=y'',
         Blank_line ''  '', Entry_line ''k'' '' '' None [] ''v'', Entry_line ''k'' [] (Some (CHR '':'')) [] ''w''])) ''k'' of
         None \<Rightarrow> Inl (Not_found_error ''map::at'') | Some val \<Rightarrow> Inr val)"
  by (rule load_file) (simp add: is_blank_def isspace_def)

text \<open>Whatever the stream holds, loading keeps the map in order, never changes an entry that is already
  there and never adds an empty key.\<close>

lemma load_loop_extends:
  "keys_sorted m \<Longrightarrow> load_loop m ch s = (m', s') \<Longrightarrow>
     keys_sorted m' \<and> (\<forall>k v. map_of m k = Some v \<longrightarrow> map_of m' k = Some v) \<and>
     (map_of m [] = None \<longrightarrow> map_of m' [] = None)"
proof (induction m ch s rule: load_loop.induct)
  case (1 m ch s)
  show ?case
  proof (cases ch)
    case None
    with 1 show ?thesis by (simp add: load_loop.simps)
  next
    case (Some c)
    obtain c1 s1 where a: "skip_sp_stream s = (c1, s1)" by force
    obtain c2 s2 where b: "skip_line s = (c2, s2)" by force
    obtain k v c3 s3 where e: "read_entry ch s = (k, v, c3, s3)" by (metis prod_cases4)
    let ?m = "if k \<noteq> [] then fst (map_insert k v m) else m"
    have m: "keys_sorted ?m" "\<forall>j v. map_of m j = Some v \<longrightarrow> map_of ?m j = Some v"
      "map_of m [] = None \<longrightarrow> map_of ?m [] = None"
      using "1.prems"(1) by (simp_all add: sorted_map_insert lookup_map_insert)
    consider "isspace c" | "\<not> isspace c" "c = CHR ''#'' \<or> c = CHR ''!''"
      | "\<not> isspace c" "\<not> (c = CHR ''#'' \<or> c = CHR ''!'')" by blast
    then show ?thesis
    proof cases
      case 1
      with "1.prems" Some a have "load_loop m c1 s1 = (m', s')" by (simp add: load_loop.simps [of m "Some c"])
      then show ?thesis using "1.IH"(1) [OF Some 1 a [symmetric]] "1.prems"(1) by simp
    next
      case 2
      with "1.prems" Some b have "load_loop m c2 s2 = (m', s')" by (simp add: load_loop.simps [of m "Some c"])
      then show ?thesis using "1.IH"(2) [OF Some 2 b [symmetric]] "1.prems"(1) by simp
    next
      case 3
      with "1.prems" Some e have "load_loop ?m c3 s3 = (m', s')" by (simp add: load_loop.simps [of m "Some c"])
      then have "keys_sorted m' \<and> (\<forall>k v. map_of ?m k = Some v \<longrightarrow> map_of m' k = Some v) \<and>
          (map_of ?m [] = None \<longrightarrow> map_of m' [] = None)"
        using "1.IH"(3) [OF Some 3 e [symmetric] refl refl refl refl] m(1) by simp
      with m show ?thesis by blast
    qed
  qed
qed

text \<open>Loading any stream into a map keeps the map ordered, keeps every entry that was there (a later
  file never overrides an earlier one) and never adds an entry with an empty key.\<close>

theorem load_extends:
  assumes "keys_sorted m" and "map_of m [] = None"
  shows "case load m s of (m', s') \<Rightarrow> keys_sorted m' \<and> map_of m \<subseteq>\<^sub>m map_of m' \<and> map_of m' [] = None"
proof -
  obtain ch s1 where g: "get s = (ch, s1)" by force
  obtain m' s' where "load_loop m ch s1 = (m', s')" by force
  with load_loop_extends [OF assms(1) this] assms(2) show ?thesis
    by (auto simp: load_def g map_le_def)
qed

theorem load_extends_witness:
  "case load [(''k'', ''old'')] (istream_of ''k=new'') of (m', s') \<Rightarrow> keys_sorted m' \<and>
    map_of [(''k'', ''old'')] \<subseteq>\<^sub>m map_of m' \<and> map_of m' [] = None"
  by (rule load_extends) simp_all

text \<open>A value continued on the next line. Behind a backslash and LF the value goes on with the first
  character of the next line that is not blank; behind a backslash and CR LF the first character of the
  next line is dropped.\<close>

theorem continuation_line:
  assumes "\<not> is_blank (Some x)" and "\<not> is_blank (Some y)"
  shows "(\<exists>p'. handle_backslash str (stream_at p (CHR 0x0A # x # y # r)) = (str, Some x, stream_at p' (y # r))) \<and>
    (\<exists>p'. handle_backslash str (stream_at p (CHR 0x0D # CHR 0x0A # x # y # r)) = (str, Some y, stream_at p' r))"
  using assms by (auto simp: handle_backslash_def skip_blanks.simps)

theorem continuation_line_witness:
  "(\<exists>p'. handle_backslash ''val'' (stream_at [] (CHR 0x0A # CHR ''u'' # CHR ''e'' # [])) =
      (''val'', Some (CHR ''u''), stream_at p' (CHR ''e'' # []))) \<and>
    (\<exists>p'. handle_backslash ''val'' (stream_at [] (CHR 0x0D # CHR 0x0A # CHR ''u'' # CHR ''e'' # [])) =
      (''val'', Some (CHR ''e''), stream_at p' []))"
  by (rule continuation_line) (simp_all add: is_blank_def)

end
