(* ===== verification/Matrix.thy ===== *)
theory Matrix
  imports Prelude
begin

text \<open>
  \<open>math::matrix<T>\<close> of \<open>src/include/shan/math/matrix.h\<close>. A matrix is its two dimensions and the
  array \<open>_data_ptr\<close>; \<open>std::size_t\<close> quantities are \<open>nat\<close>, since an allocation bounds them far
  below the width of the type. The element type only has the operators the code uses: nothing is
  assumed of its addition, so what is shown holds for rounded floating point too. Array accesses are
  checked: one outside the array is the fault \<open>Undefined Out_of_bounds\<close>, a failed \<open>assert\<close> is
  \<open>Assertion_failed\<close>. The fresh array of \<open>new T[n]\<close> holds the arbitrary values \<open>junk\<close>.

  The loops of \<open>dot\<close> are the sequence of stores they issue, so that the loops of the tasks that the
  parallel \<open>dot\<close> gives to a \<open>worker_pool\<close> can be interleaved store by store.

  Shown: what each entry of a product, a transpose and an element-wise result is; the parallel product
  equals the sequential one whatever the interleaving; the smallest and largest entry come with the
  position of their first occurrence.
\<close>

section \<open>Arrays\<close>

definition load_at :: "'a list \<Rightarrow> nat \<Rightarrow> 'a result" where
  "load_at xs i = (if i < length xs then Inr (xs ! i) else Inl (Undefined Out_of_bounds))"

definition store_at :: "'a list \<Rightarrow> nat \<Rightarrow> 'a \<Rightarrow> 'a list result" where
  "store_at xs i x = (if i < length xs then Inr (xs[i := x]) else Inl (Undefined Out_of_bounds))"

text \<open>\<open>for (i = first ; i < first + n ; i++) body\<close>\<close>

fun for_loop :: "nat \<Rightarrow> nat \<Rightarrow> (nat \<Rightarrow> 's \<Rightarrow> 's result) \<Rightarrow> 's \<Rightarrow> 's result" where
  "for_loop first 0 body st = Inr st"
| "for_loop first (Suc n) body st = bind_result (body first st) (for_loop (Suc first) n body)"

lemma for_loop_snoc:
  "for_loop first (Suc n) body st = bind_result (for_loop first n body st) (body (first + n))"
proof (induction n arbitrary: first st)
  case (Suc n)
  show ?case
  proof (cases "body first st")
    case (Inr x)
    with Suc.IH [of "Suc first" x] show ?thesis by simp
  qed simp
next
  case 0
  show ?case by (cases "body first st") simp_all
qed

text \<open>A loop that fills an array position by position.\<close>

lemma for_loop_fill:
  assumes "\<And>i ys. i < n \<Longrightarrow> length ys = n \<Longrightarrow> body i ys = store_at ys i (f i)" and "length xs = n"
  shows "for_loop 0 n body xs = Inr (map f [0..<n])"
proof -
  have "k \<le> n \<Longrightarrow> for_loop 0 k body xs = Inr (map f [0..<k] @ drop k xs)" for k
  proof (induction k)
    case (Suc k)
    then have "for_loop 0 (Suc k) body xs = body k (map f [0..<k] @ drop k xs)"
      by (simp only: for_loop_snoc) simp
    also have "\<dots> = Inr ((map f [0..<k] @ drop k xs)[k := f k])"
      using Suc.prems assms by (simp add: store_at_def)
    also have "(map f [0..<k] @ drop k xs)[k := f k] = map f [0..<Suc k] @ drop (Suc k) xs"
      using Suc.prems assms(2) by (simp add: list_update_append Cons_nth_drop_Suc [symmetric])
    finally show ?case .
  qed simp
  from this [of n] assms(2) show ?thesis by simp
qed

section \<open>Model\<close>

record 'a matrix =
  rows :: nat
  cols :: nat
  data :: "'a list"

definition matrix_empty :: "'a matrix" where
  "matrix_empty = \<lparr>rows = 0, cols = 0, data = []\<rparr>"

definition matrix_new :: "(nat \<Rightarrow> 'a) \<Rightarrow> nat \<Rightarrow> nat \<Rightarrow> 'a matrix" where
  "matrix_new junk r c = \<lparr>rows = r, cols = c, data = map junk [0..<r * c]\<rparr>"

definition matrix_at :: "'a matrix \<Rightarrow> nat \<Rightarrow> nat \<Rightarrow> 'a result" where
  "matrix_at m r c = (if r < rows m \<and> c < cols m then load_at (data m) (r * cols m + c) else Inl Assertion_failed)"

text \<open>Writing through the reference that \<open>at\<close> returns.\<close>

definition matrix_set :: "'a matrix \<Rightarrow> nat \<Rightarrow> nat \<Rightarrow> 'a \<Rightarrow> 'a matrix result" where
  "matrix_set m r c x =
     (if r < rows m \<and> c < cols m
      then bind_result (store_at (data m) (r * cols m + c) x) (\<lambda>d. Inr (m\<lparr>data := d\<rparr>))
      else Inl Assertion_failed)"

text \<open>\<open>load(const std::vector<T>&)\<close>: \<open>&data[0]\<close> needs a first element.\<close>

definition load_vector :: "'a matrix \<Rightarrow> 'a list \<Rightarrow> 'a matrix result" where
  "load_vector m src =
     (let len = min (length src) (rows m * cols m) in
      if src = [] then Inl (Undefined Out_of_bounds)
      else if len \<le> length (data m) then Inr (m\<lparr>data := take len src @ drop len (data m)\<rparr>)
      else Inl (Undefined Out_of_bounds))"

text \<open>\<open>load(const T*)\<close>: \<open>src\<close> is what the pointer's allocation holds from there on.\<close>

definition load_pointer :: "'a matrix \<Rightarrow> 'a list \<Rightarrow> 'a matrix result" where
  "load_pointer m src =
     (let len = rows m * cols m in
      if len \<le> length src \<and> len \<le> length (data m) then Inr (m\<lparr>data := take len src @ drop len (data m)\<rparr>)
      else Inl (Undefined Out_of_bounds))"

text \<open>\<open>random\<close>: \<open>urd\<close> draws from the engine.\<close>

definition matrix_random :: "('g \<Rightarrow> 'a \<times> 'g) \<Rightarrow> 'g \<Rightarrow> 'a matrix \<Rightarrow> ('a matrix \<times> 'g) result" where
  "matrix_random urd g m =
     bind_result
       (for_loop 0 (rows m * cols m)
          (\<lambda>inx (dest, g). let (x, g) = urd g in bind_result (store_at dest inx x) (\<lambda>dest. Inr (dest, g)))
          (data m, g))
       (\<lambda>(dest, g). Inr (m\<lparr>data := dest\<rparr>, g))"

text \<open>\<open>min\<close> and \<open>max\<close> differ in the comparison; the position is the one stored through \<open>index_p\<close>.\<close>

definition matrix_extreme :: "('a \<Rightarrow> 'a \<Rightarrow> bool) \<Rightarrow> 'a matrix \<Rightarrow> ('a \<times> nat \<times> nat) result" where
  "matrix_extreme better m =
     bind_result (matrix_at m 0 0) (\<lambda>x.
       for_loop 1 (rows m * cols m - 1)
         (\<lambda>inx (val, row, col). bind_result (load_at (data m) inx) (\<lambda>x.
            Inr (if better x val then (x, inx div cols m, inx mod cols m) else (val, row, col))))
         (x, 0, 0))"

definition matrix_min :: "'a::linorder matrix \<Rightarrow> ('a \<times> nat \<times> nat) result" where
  "matrix_min m = matrix_extreme (<) m"

definition matrix_max :: "'a::linorder matrix \<Rightarrow> ('a \<times> nat \<times> nat) result" where
  "matrix_max m = matrix_extreme (>) m"

subsection \<open>Products\<close>

text \<open>The stores of the loops of \<open>dot\<close>: \<open>*dest = 0\<close> and \<open>*dest += *lpos * *rpos\<close>, with the
  pointers as offsets into the three arrays.\<close>

datatype store = Clear nat | Accumulate nat nat nat

fun target :: "store \<Rightarrow> nat" where
  "target (Clear d) = d"
| "target (Accumulate d l r) = d"

fun dot_inner :: "nat \<Rightarrow> nat \<Rightarrow> nat \<Rightarrow> nat \<Rightarrow> nat \<Rightarrow> store list" where
  "dot_inner 0 stride dest lpos rpos = []"
| "dot_inner (Suc n) stride dest lpos rpos =
     Accumulate dest lpos rpos # dot_inner n stride dest (lpos + 1) (rpos + stride)"

text \<open>The loop over the columns of one row: \<open>len\<close> is the length of the scalar products.\<close>

fun dot_cols :: "nat \<Rightarrow> nat \<Rightarrow> nat \<Rightarrow> nat \<Rightarrow> nat \<Rightarrow> nat \<Rightarrow> store list" where
  "dot_cols 0 len stride dest row_src_start col_src_start = []"
| "dot_cols (Suc n) len stride dest row_src_start col_src_start =
     Clear dest # dot_inner len stride dest row_src_start col_src_start @
     dot_cols n len stride (dest + 1) row_src_start (col_src_start + 1)"

fun dot_rows :: "nat \<Rightarrow> nat \<Rightarrow> nat \<Rightarrow> nat \<Rightarrow> nat \<Rightarrow> store list" where
  "dot_rows 0 len stride dest row_src_start = []"
| "dot_rows (Suc n) len stride dest row_src_start =
     dot_cols stride len stride dest row_src_start 0 @
     dot_rows n len stride (dest + stride) (row_src_start + len)"

fun exec_store :: "'a::{zero,plus,times} list \<Rightarrow> 'a list \<Rightarrow> store \<Rightarrow> 'a list \<Rightarrow> 'a list result" where
  "exec_store lhs rhs (Clear d) dest = store_at dest d 0"
| "exec_store lhs rhs (Accumulate d l r) dest =
     bind_result (load_at lhs l) (\<lambda>x. bind_result (load_at rhs r) (\<lambda>y.
     bind_result (load_at dest d) (\<lambda>z. store_at dest d (z + x * y))))"

fun exec_stores :: "'a::{zero,plus,times} list \<Rightarrow> 'a list \<Rightarrow> store list \<Rightarrow> 'a list \<Rightarrow> 'a list result" where
  "exec_stores lhs rhs [] dest = Inr dest"
| "exec_stores lhs rhs (w # ws) dest = bind_result (exec_store lhs rhs w dest) (exec_stores lhs rhs ws)"

definition dot :: "(nat \<Rightarrow> 'a) \<Rightarrow> 'a::{zero,plus,times} matrix \<Rightarrow> 'a matrix \<Rightarrow> 'a matrix result" where
  "dot junk self input =
     (if cols self \<noteq> rows input then Inl Assertion_failed
      else
        let m = matrix_new junk (rows self) (cols input) in
        bind_result (exec_stores (data self) (data input) (dot_rows (rows m) (cols self) (cols input) 0 0) (data m))
          (\<lambda>d. Inr (m\<lparr>data := d\<rparr>)))"

text \<open>The rows per task: at least one, doubled while the task is too small to be worth it.\<close>

function grow_rows :: "nat \<Rightarrow> nat \<Rightarrow> nat \<Rightarrow> nat" where
  "grow_rows work height n = (if n * work < 28000 \<and> n < height \<and> 0 < n then grow_rows work height (2 * n) else n)"
  by pat_completeness auto
termination
  by (relation "measure (\<lambda>(work, height, n). height - n)") auto

declare grow_rows.simps [simp del]

text \<open>The tasks: \<open>start\<close>, \<open>end\<close> and \<open>dest\<close> as the loop advances them. The loop's \<open>end\<close> is
  always ahead of its \<open>start\<close>, since a task has at least one row.\<close>

function dot_tasks :: "nat \<Rightarrow> nat \<Rightarrow> nat \<Rightarrow> nat \<Rightarrow> nat \<Rightarrow> nat \<Rightarrow> nat \<Rightarrow> store list list" where
  "dot_tasks height n len stride start end' dest =
     (if start < height \<and> start < end' then
        dot_rows (end' - start) len stride dest (start * len) #
        dot_tasks height n len stride end' (min (end' + n) height) (dest + n * stride)
      else [])"
  by pat_completeness auto
termination
  by (relation "measure (\<lambda>(height, n, len, stride, start, end', dest). height - start)") auto

declare dot_tasks.simps [simp del]

text \<open>
  \<open>dot(input, workers)\<close>. The pool has \<open>count\<close> threads; \<open>perform\<close> is what it does with the
  scheduled tasks until \<open>wait_complete\<close> returns: the order in which their stores happen.
\<close>

definition dot_workers ::
    "(nat \<Rightarrow> 'a) \<Rightarrow> nat \<Rightarrow> (store list list \<Rightarrow> store list) \<Rightarrow> 'a::{zero,plus,times} matrix \<Rightarrow> 'a matrix \<Rightarrow>
       'a matrix result" where
  "dot_workers junk count perform self input =
     (if cols self \<noteq> rows input then Inl Assertion_failed
      else if count = 0 then Inl (Undefined Division_by_zero)
      else
        let m = matrix_new junk (rows self) (cols input);
            n = grow_rows (cols self * cols input) (rows self) (max 1 (rows self div count)) in
        if n \<ge> rows self then dot junk self input
        else
          bind_result
            (exec_stores (data self) (data input)
               (perform (dot_tasks (rows self) n (cols self) (cols input) 0 n 0)) (data m))
            (\<lambda>d. Inr (m\<lparr>data := d\<rparr>)))"

subsection \<open>Transpose and element-wise operations\<close>

definition transpose_cell :: "'a list \<Rightarrow> nat \<Rightarrow> nat \<Rightarrow> nat \<times> nat \<times> 'a list \<Rightarrow> (nat \<times> nat \<times> 'a list) result" where
  "transpose_cell src stride r = (\<lambda>(row_pos, dest, d).
     bind_result (load_at src row_pos) (\<lambda>x.
     bind_result (store_at d dest x) (\<lambda>d. Inr (row_pos + stride, dest + 1, d))))"

definition transpose_col :: "'a matrix \<Rightarrow> nat \<Rightarrow> nat \<times> 'a list \<Rightarrow> (nat \<times> 'a list) result" where
  "transpose_col self c = (\<lambda>(dest, d).
     bind_result (for_loop 0 (rows self) (transpose_cell (data self) (cols self)) (c, dest, d))
       (\<lambda>(row_pos, dest, d). Inr (dest, d)))"

definition matrix_transpose :: "(nat \<Rightarrow> 'a) \<Rightarrow> 'a matrix \<Rightarrow> 'a matrix result" where
  "matrix_transpose junk self =
     (let m = matrix_new junk (cols self) (rows self) in
      bind_result (for_loop 0 (cols self) (transpose_col self) (0, data m))
        (\<lambda>(dest, d). Inr (m\<lparr>data := d\<rparr>)))"

text \<open>\<open>apply\<close> and the scalar operators: one loop each over the array, with \<open>func\<close> applied to the
  element. The function may throw.\<close>

definition matrix_apply :: "(nat \<Rightarrow> 'a) \<Rightarrow> ('a \<Rightarrow> 'a result) \<Rightarrow> 'a matrix \<Rightarrow> 'a matrix result" where
  "matrix_apply junk func self =
     (let m = matrix_new junk (rows self) (cols self) in
      bind_result
        (for_loop 0 (rows self * cols self)
           (\<lambda>inx dest. bind_result (load_at (data self) inx) (\<lambda>x.
              bind_result (func x) (\<lambda>y. store_at dest inx y)))
           (data m))
        (\<lambda>d. Inr (m\<lparr>data := d\<rparr>)))"

text \<open>The element-wise operators: the dimensions must agree.\<close>

definition matrix_zip :: "(nat \<Rightarrow> 'a) \<Rightarrow> ('a \<Rightarrow> 'a \<Rightarrow> 'a result) \<Rightarrow> 'a matrix \<Rightarrow> 'a matrix \<Rightarrow> 'a matrix result" where
  "matrix_zip junk oper self other =
     (if rows self \<noteq> rows other \<or> cols self \<noteq> cols other then Inl Assertion_failed
      else
        let m = matrix_new junk (rows self) (cols self) in
        bind_result
          (for_loop 0 (rows self * cols self)
             (\<lambda>inx dest. bind_result (load_at (data self) inx) (\<lambda>x.
                bind_result (load_at (data other) inx) (\<lambda>y.
                bind_result (oper x y) (\<lambda>z. store_at dest inx z))))
             (data m))
          (\<lambda>d. Inr (m\<lparr>data := d\<rparr>)))"

definition matrix_add :: "(nat \<Rightarrow> 'a) \<Rightarrow> 'a::plus matrix \<Rightarrow> 'a matrix \<Rightarrow> 'a matrix result" where
  "matrix_add junk self other = matrix_zip junk (\<lambda>x y. Inr (x + y)) self other"

definition matrix_add_scalar :: "(nat \<Rightarrow> 'a) \<Rightarrow> 'a::plus matrix \<Rightarrow> 'a \<Rightarrow> 'a matrix result" where
  "matrix_add_scalar junk self a = matrix_apply junk (\<lambda>x. Inr (x + a)) self"

definition matrix_sub :: "(nat \<Rightarrow> 'a) \<Rightarrow> 'a::minus matrix \<Rightarrow> 'a matrix \<Rightarrow> 'a matrix result" where
  "matrix_sub junk self other = matrix_zip junk (\<lambda>x y. Inr (x - y)) self other"

definition matrix_sub_scalar :: "(nat \<Rightarrow> 'a) \<Rightarrow> 'a::minus matrix \<Rightarrow> 'a \<Rightarrow> 'a matrix result" where
  "matrix_sub_scalar junk self a = matrix_apply junk (\<lambda>x. Inr (x - a)) self"

definition matrix_mul :: "(nat \<Rightarrow> 'a) \<Rightarrow> 'a::times matrix \<Rightarrow> 'a matrix \<Rightarrow> 'a matrix result" where
  "matrix_mul junk self other = matrix_zip junk (\<lambda>x y. Inr (x * y)) self other"

definition matrix_mul_scalar :: "(nat \<Rightarrow> 'a) \<Rightarrow> 'a::times matrix \<Rightarrow> 'a \<Rightarrow> 'a matrix result" where
  "matrix_mul_scalar junk self a = matrix_apply junk (\<lambda>x. Inr (x * a)) self"

text \<open>Division is the element type's own, \<open>quot\<close>; for integers it is undefined for a zero divisor.\<close>

definition matrix_div :: "(nat \<Rightarrow> 'a) \<Rightarrow> ('a \<Rightarrow> 'a \<Rightarrow> 'a result) \<Rightarrow> 'a matrix \<Rightarrow> 'a matrix \<Rightarrow> 'a matrix result" where
  "matrix_div junk quot self other = matrix_zip junk quot self other"

definition matrix_div_scalar :: "(nat \<Rightarrow> 'a) \<Rightarrow> ('a \<Rightarrow> 'a \<Rightarrow> 'a result) \<Rightarrow> 'a matrix \<Rightarrow> 'a \<Rightarrow> 'a matrix result" where
  "matrix_div_scalar junk quot self a = matrix_apply junk (\<lambda>x. quot x a) self"

text \<open>The free operators with the scalar on the left.\<close>

definition scalar_add :: "(nat \<Rightarrow> 'a) \<Rightarrow> 'a::plus \<Rightarrow> 'a matrix \<Rightarrow> 'a matrix result" where
  "scalar_add junk a m = matrix_add_scalar junk m a"

definition scalar_sub :: "(nat \<Rightarrow> 'a) \<Rightarrow> 'a::minus \<Rightarrow> 'a matrix \<Rightarrow> 'a matrix result" where
  "scalar_sub junk a m = matrix_apply junk (\<lambda>x. Inr (a - x)) m"

definition scalar_mul :: "(nat \<Rightarrow> 'a) \<Rightarrow> 'a::times \<Rightarrow> 'a matrix \<Rightarrow> 'a matrix result" where
  "scalar_mul junk a m = matrix_mul_scalar junk m a"

definition scalar_div :: "(nat \<Rightarrow> 'a) \<Rightarrow> ('a \<Rightarrow> 'a \<Rightarrow> 'a result) \<Rightarrow> 'a \<Rightarrow> 'a matrix \<Rightarrow> 'a matrix result" where
  "scalar_div junk quot a m = matrix_apply junk (\<lambda>x. quot a x) m"

text \<open>\<open>str(std::ostream&)\<close>; \<open>show\<close> is \<open>operator<<\<close> of the element type.\<close>

definition matrix_str :: "('a \<Rightarrow> string) \<Rightarrow> 'a matrix \<Rightarrow> string result" where
  "matrix_str show m =
     bind_result
       (for_loop 0 (rows m)
          (\<lambda>r os. bind_result
             (for_loop 0 (cols m)
                (\<lambda>c os. bind_result (matrix_at m r c) (\<lambda>x.
                   Inr (os @ show x @ (if c < cols m - 1 then '', '' else []))))
                os)
             (\<lambda>os. Inr (os @ '']'' @ (if r < rows m - 1 then [CHR '','', CHR 0x0A, CHR '' '', CHR ''[''] else []))))
          ''[['')
       (\<lambda>os. Inr (os @ '']''))"

section \<open>Well-formed matrices and their entries\<close>

definition matrix_wf :: "'a matrix \<Rightarrow> bool" where
  "matrix_wf m \<longleftrightarrow> length (data m) = rows m * cols m"

definition entry :: "'a matrix \<Rightarrow> nat \<Rightarrow> nat \<Rightarrow> 'a" where
  "entry m r c = data m ! (r * cols m + c)"

lemma index_less: "r < n \<Longrightarrow> c < k \<Longrightarrow> r * k + c < n * (k :: nat)"
proof -
  assume "r < n" and "c < k"
  then have "r * k + c < Suc r * k" by simp
  also have "\<dots> \<le> n * k" using \<open>r < n\<close> by (intro mult_le_mono1) simp
  finally show ?thesis .
qed

lemma matrix_at_entry: "matrix_wf m \<Longrightarrow> r < rows m \<Longrightarrow> c < cols m \<Longrightarrow> matrix_at m r c = Inr (entry m r c)"
  by (simp add: matrix_at_def load_at_def matrix_wf_def entry_def index_less)

lemma matrix_new_simps [simp]:
  "rows (matrix_new junk r c) = r" "cols (matrix_new junk r c) = c"
  "length (data (matrix_new junk r c)) = r * c" "matrix_wf (matrix_new junk r c)"
  by (simp_all add: matrix_new_def matrix_wf_def)

text \<open>Two well-formed matrices with the same dimensions and entries are equal.\<close>

lemma matrix_eqI:
  fixes m m' :: "'a matrix"
  assumes "matrix_wf m" "matrix_wf m'" "rows m = rows m'" "cols m = cols m'"
    and "\<And>r c. r < rows m \<Longrightarrow> c < cols m \<Longrightarrow> entry m r c = entry m' r c"
  shows "m = m'"
proof -
  have "data m = data m'"
  proof (rule nth_equalityI)
    fix i
    assume i: "i < length (data m)"
    then have c: "0 < cols m" using assms(1) by (cases "cols m") (auto simp: matrix_wf_def)
    have "i div cols m < rows m"
      using i assms(1) by (intro less_mult_imp_div_less) (simp add: matrix_wf_def)
    moreover have "i mod cols m < cols m" using c by simp
    ultimately have "entry m (i div cols m) (i mod cols m) = entry m' (i div cols m) (i mod cols m)"
      by (rule assms(5))
    then show "data m ! i = data m' ! i"
      using assms(4) by (simp add: entry_def)
  qed (use assms in \<open>simp add: matrix_wf_def\<close>)
  with assms(3,4) show ?thesis by simp
qed

section \<open>Element-wise operations\<close>

lemma matrix_apply_map:
  assumes "matrix_wf m" and "\<And>x. x \<in> set (data m) \<Longrightarrow> func x = Inr (f x)"
  shows "matrix_apply junk func m = Inr (m\<lparr>data := map f (data m)\<rparr>)"
proof -
  have "for_loop 0 (rows m * cols m)
      (\<lambda>inx dest. bind_result (load_at (data m) inx) (\<lambda>x. bind_result (func x) (\<lambda>y. store_at dest inx y)))
      (data (matrix_new junk (rows m) (cols m))) = Inr (map (\<lambda>i. f (data m ! i)) [0..<rows m * cols m])"
    using assms by (intro for_loop_fill) (simp_all add: load_at_def matrix_wf_def)
  moreover have "map (\<lambda>i. f (data m ! i)) [0..<rows m * cols m] = map f (data m)"
    using assms(1) by (intro nth_equalityI) (simp_all add: matrix_wf_def)
  ultimately show ?thesis
    by (simp add: matrix_apply_def Let_def matrix_new_def)
qed

lemma matrix_zip_map2:
  assumes "matrix_wf a" and "matrix_wf b" and "rows a = rows b" and "cols a = cols b"
    and "\<And>x y. x \<in> set (data a) \<Longrightarrow> y \<in> set (data b) \<Longrightarrow> oper x y = Inr (f x y)"
  shows "matrix_zip junk oper a b = Inr (a\<lparr>data := map2 f (data a) (data b)\<rparr>)"
proof -
  have "for_loop 0 (rows a * cols a)
      (\<lambda>inx dest. bind_result (load_at (data a) inx) (\<lambda>x. bind_result (load_at (data b) inx) (\<lambda>y.
         bind_result (oper x y) (\<lambda>z. store_at dest inx z))))
      (data (matrix_new junk (rows a) (cols a))) = Inr (map (\<lambda>i. f (data a ! i) (data b ! i)) [0..<rows a * cols a])"
    using assms by (intro for_loop_fill) (simp_all add: load_at_def matrix_wf_def)
  moreover have "map (\<lambda>i. f (data a ! i) (data b ! i)) [0..<rows a * cols a] = map2 f (data a) (data b)"
    using assms by (intro nth_equalityI) (simp_all add: matrix_wf_def)
  ultimately show ?thesis
    using assms(3,4) by (simp add: matrix_zip_def Let_def matrix_new_def)
qed

section \<open>Products\<close>

subsection \<open>Stores\<close>

fun in_bounds :: "nat \<Rightarrow> nat \<Rightarrow> nat \<Rightarrow> store \<Rightarrow> bool" where
  "in_bounds nl nr nd (Clear d) \<longleftrightarrow> d < nd"
| "in_bounds nl nr nd (Accumulate d l r) \<longleftrightarrow> d < nd \<and> l < nl \<and> r < nr"

fun effect :: "'a::{zero,plus,times} list \<Rightarrow> 'a list \<Rightarrow> 'a \<Rightarrow> store \<Rightarrow> 'a" where
  "effect lhs rhs x (Clear d) = 0"
| "effect lhs rhs x (Accumulate d l r) = x + lhs ! l * rhs ! r"

text \<open>A cell ends up with the effect of the stores to it, in their order.\<close>

definition cells :: "'a::{zero,plus,times} list \<Rightarrow> 'a list \<Rightarrow> store list \<Rightarrow> 'a list \<Rightarrow> 'a list" where
  "cells lhs rhs ws dest =
     map (\<lambda>i. foldl (effect lhs rhs) (dest ! i) (filter (\<lambda>w. target w = i) ws)) [0..<length dest]"

lemma exec_store_in_bounds:
  "in_bounds (length lhs) (length rhs) (length dest) w \<Longrightarrow>
     exec_store lhs rhs w dest = Inr (dest[target w := effect lhs rhs (dest ! target w) w]) \<and> target w < length dest"
  by (cases w) (simp_all add: load_at_def store_at_def)

lemma exec_stores_cells:
  "\<forall>w \<in> set ws. in_bounds (length lhs) (length rhs) (length dest) w \<Longrightarrow>
     exec_stores lhs rhs ws dest = Inr (cells lhs rhs ws dest)"
proof (induction ws arbitrary: dest)
  case Nil
  then show ?case by (simp add: cells_def map_nth)
next
  case (Cons w ws)
  let ?dest = "dest[target w := effect lhs rhs (dest ! target w) w]"
  have w: "exec_store lhs rhs w dest = Inr ?dest" "target w < length dest"
    using exec_store_in_bounds [of lhs rhs dest w] Cons.prems by simp_all
  have "cells lhs rhs ws ?dest = cells lhs rhs (w # ws) dest"
    using w(2) by (auto simp: cells_def nth_list_update)
  with Cons.IH [of ?dest] Cons.prems w(1) show ?case by simp
qed

subsection \<open>Interleavings\<close>

inductive interleaving :: "'b list list \<Rightarrow> 'b list \<Rightarrow> bool" where
  empty: "\<forall>ts \<in> set tss. ts = [] \<Longrightarrow> interleaving tss []"
| choose: "j < length tss \<Longrightarrow> tss ! j = t # ts \<Longrightarrow> interleaving (tss[j := ts]) us \<Longrightarrow> interleaving tss (t # us)"

lemma interleaving_set: "interleaving tss us \<Longrightarrow> set us = (\<Union>ts \<in> set tss. set ts)"
proof (induction rule: interleaving.induct)
  case (choose j tss t ts us)
  have "tss = take j tss @ (t # ts) # drop (Suc j) tss"
    using id_take_nth_drop [OF choose.hyps(1)] choose.hyps(2) by simp
  then have "set tss = set (take j tss) \<union> {t # ts} \<union> set (drop (Suc j) tss)"
    by (metis Un_insert_right list.simps(15) set_append sup_bot_right Un_insert_left)
  moreover have "set (tss[j := ts]) = set (take j tss) \<union> {ts} \<union> set (drop (Suc j) tss)"
    using choose.hyps(1) by (simp add: upd_conv_take_nth_drop)
  ultimately show ?case using choose.IH by auto
qed simp

text \<open>What one task alone does keeps its order.\<close>

lemma interleaving_filter:
  "interleaving tss us \<Longrightarrow> j < length tss \<Longrightarrow> (\<And>k. k < length tss \<Longrightarrow> k \<noteq> j \<Longrightarrow> filter P (tss ! k) = []) \<Longrightarrow>
     filter P us = filter P (tss ! j)"
proof (induction rule: interleaving.induct)
  case (empty tss)
  then show ?case by (metis filter.simps(1) nth_mem)
next
  case (choose i tss t ts us)
  have "filter P us = filter P (tss[i := ts] ! j)"
    using choose.prems choose.hyps by (intro choose.IH) (fastforce simp: nth_list_update split: if_splits)+
  moreover have "i \<noteq> j \<Longrightarrow> \<not> P t" using choose.prems(2) [of i] choose.hyps by (auto split: if_splits)
  ultimately show ?case using choose by (cases "i = j") auto
qed

lemma filter_concat_single:
  "j < n \<Longrightarrow> (\<And>i. i < n \<Longrightarrow> i \<noteq> j \<Longrightarrow> filter P (f i) = []) \<Longrightarrow>
     filter P (concat (map f [0..<n])) = filter P (f j)"
proof (induction n)
  case (Suc n)
  have "filter P (concat (map f [0..<n])) = []" if "j = n"
    using Suc.prems that by (auto simp: filter_concat)
  then show ?case using Suc by (cases "j = n") (auto simp: less_Suc_eq)
qed simp

lemma interleaving_concat: "\<forall>ts \<in> set pre. ts = [] \<Longrightarrow> interleaving (pre @ tss) (concat tss)"
proof (induction tss arbitrary: pre)
  case Nil
  then show ?case by (simp add: interleaving.empty)
next
  case (Cons ts tss)
  show ?case
  proof (induction ts)
    case Nil
    with Cons.prems Cons.IH [of "pre @ [[]]"] show ?case by simp
  next
    case (Cons t ts)
    then have "interleaving ((pre @ (t # ts) # tss)[length pre := ts]) (concat (ts # tss))" by simp
    then show ?case using interleaving.choose [of "length pre" "pre @ (t # ts) # tss" t ts] by simp
  qed
qed

text \<open>Tasks that store to different cells can be interleaved in any way.\<close>

lemma interleaving_filter_concat:
  assumes "interleaving tss us"
    and "\<And>j k. j < length tss \<Longrightarrow> k < length tss \<Longrightarrow> j \<noteq> k \<Longrightarrow> filter P (tss ! j) = [] \<or> filter P (tss ! k) = []"
  shows "filter P us = filter P (concat tss)"
proof (cases "\<exists>j < length tss. filter P (tss ! j) \<noteq> []")
  case True
  then obtain j where j: "j < length tss" "filter P (tss ! j) \<noteq> []" by blast
  have "interleaving tss (concat tss)" using interleaving_concat [of "[]" tss] by simp
  then show ?thesis
    using interleaving_filter [OF assms(1) j(1), of P] interleaving_filter [of tss "concat tss" j P] assms(2) j
    by metis
next
  case False
  then have "\<forall>ts \<in> set tss. filter P ts = []" by (auto simp: in_set_conv_nth)
  then show ?thesis
    using interleaving_set [OF assms(1)] by (auto simp: filter_empty_conv)
qed

subsection \<open>The stores of a product\<close>

lemma dot_inner_map: "dot_inner n stride d l r = map (\<lambda>k. Accumulate d (l + k) (r + k * stride)) [0..<n]"
proof (induction n arbitrary: l r)
  case (Suc n)
  have "[0..<Suc n] = 0 # map Suc [0..<n]" by (simp add: upt_conv_Cons map_Suc_upt)
  with Suc show ?case by (simp add: add.assoc)
qed simp

definition dot_cell :: "nat \<Rightarrow> nat \<Rightarrow> nat \<Rightarrow> nat \<Rightarrow> nat \<Rightarrow> store list" where
  "dot_cell len stride d l r = Clear d # dot_inner len stride d l r"

lemma dot_cols_concat:
  "dot_cols n len stride d row col = concat (map (\<lambda>c. dot_cell len stride (d + c) row (col + c)) [0..<n])"
proof (induction n arbitrary: d col)
  case (Suc n)
  have "[0..<Suc n] = 0 # map Suc [0..<n]" by (simp add: upt_conv_Cons map_Suc_upt)
  with Suc show ?case by (simp add: dot_cell_def o_def)
qed simp

lemma dot_rows_concat:
  "dot_rows n len stride d row =
     concat (map (\<lambda>r. dot_cols stride len stride (d + r * stride) (row + r * len) 0) [0..<n])"
proof (induction n arbitrary: d row)
  case (Suc n)
  have "[0..<Suc n] = 0 # map Suc [0..<n]" by (simp add: upt_conv_Cons map_Suc_upt)
  with Suc show ?case by (simp add: o_def ac_simps)
qed simp

lemma dot_rows_add:
  "dot_rows (n + k) len stride d row = dot_rows n len stride d row @ dot_rows k len stride (d + n * stride) (row + n * len)"
  by (induction n arbitrary: d row) (simp_all add: add.assoc add.commute)

lemma dot_cell_targets: "w \<in> set (dot_cell len stride d l r) \<Longrightarrow> target w = d"
  by (auto simp: dot_cell_def dot_inner_map)

lemma dot_cols_targets:
  "w \<in> set (dot_cols n len stride d row col) \<Longrightarrow> d \<le> target w \<and> target w < d + n"
  by (auto simp: dot_cols_concat dest!: dot_cell_targets)

lemma dot_rows_targets:
  assumes "w \<in> set (dot_rows n len stride d row)"
  shows "d \<le> target w \<and> target w < d + n * stride"
proof -
  from assms obtain r where r: "r < n" "w \<in> set (dot_cols stride len stride (d + r * stride) (row + r * len) 0)"
    by (auto simp: dot_rows_concat)
  have "Suc r * stride \<le> n * stride" using r(1) by (intro mult_le_mono1) simp
  with dot_cols_targets [OF r(2)] show ?thesis by simp
qed

lemma dot_rows_cell:
  assumes "r < n" and "c < stride"
  shows "filter (\<lambda>w. target w = d + (r * stride + c)) (dot_rows n len stride d row) =
    dot_cell len stride (d + (r * stride + c)) (row + r * len) c"
proof -
  let ?P = "\<lambda>w. target w = d + (r * stride + c)"
  have "filter ?P (dot_cols stride len stride (d + i * stride) (row + i * len) 0) = []" if "i \<noteq> r" for i
  proof -
    have "\<not> (d + i * stride \<le> d + (r * stride + c) \<and> d + (r * stride + c) < d + i * stride + stride)"
    proof
      assume a: "d + i * stride \<le> d + (r * stride + c) \<and> d + (r * stride + c) < d + i * stride + stride"
      then have "(r * stride + c) div stride = i"
        by (intro div_nat_eqI) (simp_all add: mult.commute)
      with assms(2) that show False by simp
    qed
    then show ?thesis using dot_cols_targets by (fastforce simp: filter_empty_conv)
  qed
  then have "filter ?P (dot_rows n len stride d row) =
      filter ?P (dot_cols stride len stride (d + r * stride) (row + r * len) 0)"
    unfolding dot_rows_concat using assms(1) by (intro filter_concat_single) auto
  also have "\<dots> = filter ?P (dot_cell len stride (d + r * stride + c) (row + r * len) (0 + c))"
    unfolding dot_cols_concat using assms(2)
    by (intro filter_concat_single) (auto simp: filter_empty_conv dest!: dot_cell_targets)
  also have "\<dots> = dot_cell len stride (d + (r * stride + c)) (row + r * len) c"
    by (auto simp: filter_id_conv add.assoc dest!: dot_cell_targets)
  finally show ?thesis .
qed

lemma dot_rows_in_bounds:
  assumes "w \<in> set (dot_rows n len stride 0 0)"
  shows "in_bounds (n * len) (len * stride) (n * stride) w"
proof -
  from assms obtain r c where rc: "r < n" "c < stride" "w \<in> set (dot_cell len stride (r * stride + c) (r * len) c)"
    by (auto simp: dot_rows_concat dot_cols_concat)
  then consider "w = Clear (r * stride + c)"
    | k where "k < len" "w = Accumulate (r * stride + c) (r * len + k) (c + k * stride)"
    by (auto simp: dot_cell_def dot_inner_map)
  then show ?thesis
    using rc index_less [of r n c stride] index_less [of r n _ len] index_less [of _ len c stride]
    by cases (auto simp: add.commute)
qed

section \<open>Properties of the product\<close>

text \<open>One entry of a product, summed in the order of the code.\<close>

definition dot_entry :: "'a::{zero,plus,times} matrix \<Rightarrow> 'a matrix \<Rightarrow> nat \<Rightarrow> nat \<Rightarrow> 'a" where
  "dot_entry a b r c = foldl (\<lambda>x k. x + entry a r k * entry b k c) 0 [0..<cols a]"

lemma dot_stores:
  assumes "matrix_wf a" and "matrix_wf b" and "cols a = rows b"
  shows "dot junk a b = Inr \<lparr>rows = rows a, cols = cols b,
    data = cells (data a) (data b) (dot_rows (rows a) (cols a) (cols b) 0 0) (map junk [0..<rows a * cols b])\<rparr>"
proof -
  have "\<forall>w \<in> set (dot_rows (rows a) (cols a) (cols b) 0 0).
      in_bounds (length (data a)) (length (data b)) (length (map junk [0..<rows a * cols b])) w"
    using dot_rows_in_bounds assms by (auto simp: matrix_wf_def)
  from exec_stores_cells [OF this] assms(3) show ?thesis
    by (simp add: dot_def Let_def matrix_new_def)
qed

lemma cells_dot_entry:
  assumes "matrix_wf a" and "matrix_wf b" and "cols a = rows b" and "r < rows a" and "c < cols b"
  shows "cells (data a) (data b) (dot_rows (rows a) (cols a) (cols b) 0 0) (map junk [0..<rows a * cols b])
    ! (r * cols b + c) = dot_entry a b r c"
proof -
  have "foldl (effect (data a) (data b)) x (map (\<lambda>k. Accumulate d (r * cols a + k) (c + k * cols b)) ks) =
      foldl (\<lambda>x k. x + entry a r k * entry b k c) x ks" for x d ks
    by (induction ks arbitrary: x) (simp_all add: entry_def add.commute)
  then show ?thesis
    using dot_rows_cell [OF assms(4,5), of 0 "cols a" 0] index_less [OF assms(4,5)]
    by (simp add: cells_def dot_cell_def dot_inner_map dot_entry_def)
qed

lemma dot_result:
  assumes "matrix_wf a" and "matrix_wf b" and "cols a = rows b"
  obtains m where "dot junk a b = Inr m" "matrix_wf m" "rows m = rows a" "cols m = cols b"
    "\<And>r c. r < rows a \<Longrightarrow> c < cols b \<Longrightarrow> entry m r c = dot_entry a b r c"
proof -
  let ?m = "\<lparr>rows = rows a, cols = cols b,
    data = cells (data a) (data b) (dot_rows (rows a) (cols a) (cols b) 0 0) (map junk [0..<rows a * cols b])\<rparr>"
  have "entry ?m r c = dot_entry a b r c" if "r < rows a" "c < cols b" for r c
    using cells_dot_entry [OF assms that, of junk] by (simp add: entry_def)
  moreover have "matrix_wf ?m" by (simp add: matrix_wf_def cells_def)
  ultimately show thesis using that [of ?m] dot_stores [OF assms, of junk] by simp
qed

text \<open>The product of two well-formed matrices whose dimensions agree is well formed, and each of its
  entries is the scalar product of a row and a column, summed up from zero in index order; when the
  dimensions do not agree the assertion fails.\<close>

theorem dot_entries:
  assumes "matrix_wf a" and "matrix_wf b"
  shows "if cols a = rows b
    then \<exists>m. dot junk a b = Inr m \<and> matrix_wf m \<and> rows m = rows a \<and> cols m = cols b \<and>
      (\<forall>r c. r < rows a \<longrightarrow> c < cols b \<longrightarrow> matrix_at m r c = Inr (dot_entry a b r c))
    else dot junk a b = Inl Assertion_failed"
proof (cases "cols a = rows b")
  case True
  obtain m where "dot junk a b = Inr m" "matrix_wf m" "rows m = rows a" "cols m = cols b"
      "\<And>r c. r < rows a \<Longrightarrow> c < cols b \<Longrightarrow> entry m r c = dot_entry a b r c"
    using dot_result [OF assms True, of junk] by blast
  with True show ?thesis by (simp add: matrix_at_entry)
qed (simp add: dot_def)

definition sample_left :: "int matrix" where
  "sample_left = \<lparr>rows = 2, cols = 2, data = [1, 2, 3, 4]\<rparr>"

definition sample_right :: "int matrix" where
  "sample_right = \<lparr>rows = 2, cols = 1, data = [5, 6]\<rparr>"

lemma samples_wf: "matrix_wf sample_left" "matrix_wf sample_right"
  by (simp_all add: matrix_wf_def sample_left_def sample_right_def)

theorem dot_entries_witness:
  "\<exists>m. dot (\<lambda>i. 9) sample_left sample_right = Inr m \<and> matrix_wf m \<and> matrix_at m 1 0 = Inr 39"
proof -
  have "dot_entry sample_left sample_right 1 0 = 39"
    by (simp add: dot_entry_def entry_def sample_left_def sample_right_def eval_nat_numeral)
  then show ?thesis
    using dot_entries [OF samples_wf, of "\<lambda>i. 9"] by (auto simp: sample_left_def sample_right_def)
qed

lemma grow_rows_ge: "0 < n \<Longrightarrow> n \<le> grow_rows work height n"
proof (induction work height n rule: grow_rows.induct)
  case (1 work height n)
  then show ?case by (subst grow_rows.simps) (auto intro: le_trans [of n "2 * n"])
qed

lemma dot_tasks_concat:
  "0 < n \<Longrightarrow> start \<le> height \<Longrightarrow> end' = min (start + n) height \<Longrightarrow> dest = start * stride \<Longrightarrow>
     concat (dot_tasks height n len stride start end' dest) = dot_rows (height - start) len stride dest (start * len)"
proof (induction height n len stride start end' dest rule: dot_tasks.induct)
  case (1 height n len stride start end' dest)
  show ?case
  proof (cases "start < height")
    case True
    let ?k = "end' - start"
    have e: "start < end'" "end' \<le> height" "start + ?k = end'" using True "1.prems" by auto
    have "concat (dot_tasks height n len stride end' (min (end' + n) height) (dest + n * stride)) =
        dot_rows (height - end') len stride (dest + ?k * stride) (start * len + ?k * len)"
    proof (cases "end' < height")
      case True
      then have "end' = start + n" using "1.prems" by simp
      then show ?thesis
        using "1.IH" [OF conjI [OF \<open>start < height\<close> e(1)]] "1.prems" e
        by (simp add: add_mult_distrib)
    next
      case False
      then show ?thesis using e by (subst dot_tasks.simps) simp
    qed
    then show ?thesis
      using dot_rows_add [of ?k "height - end'" len stride dest "start * len"] e True
      by (subst dot_tasks.simps) simp
  next
    case False
    then show ?thesis using "1.prems" by (subst dot_tasks.simps) simp
  qed
qed

lemma dot_tasks_targets:
  "end' - start \<le> n \<Longrightarrow> j < length (dot_tasks height n len stride start end' dest) \<Longrightarrow>
     w \<in> set (dot_tasks height n len stride start end' dest ! j) \<Longrightarrow>
     dest + j * (n * stride) \<le> target w \<and> target w < dest + Suc j * (n * stride)"
proof (induction height n len stride start end' dest arbitrary: j rule: dot_tasks.induct)
  case (1 height n len stride start end' dest)
  have run: "start < height \<and> start < end'"
  proof (rule ccontr)
    assume "\<not> (start < height \<and> start < end')"
    then have "dot_tasks height n len stride start end' dest = []" by (subst dot_tasks.simps) auto
    with "1.prems"(2) show False by simp
  qed
  note unfold = dot_tasks.simps [of height n len stride start end' dest, unfolded if_P [OF run]]
  show ?case
  proof (cases j)
    case 0
    then have "w \<in> set (dot_rows (end' - start) len stride dest (start * len))"
      using "1.prems"(3) by (simp add: unfold)
    from dot_rows_targets [OF this] have "dest \<le> target w \<and> target w < dest + n * stride"
      using mult_le_mono1 [OF "1.prems"(1), of stride] by linarith
    with 0 show ?thesis by simp
  next
    case (Suc i)
    have "min (end' + n) height - end' \<le> n" by simp
    then show ?thesis
      using Suc "1.IH" [OF run, of i] "1.prems"(2,3) by (simp add: unfold add.assoc)
  qed
qed

lemma dot_tasks_disjoint:
  assumes "end' - start \<le> n" and "j < length (dot_tasks height n len stride start end' dest)"
    and "k < length (dot_tasks height n len stride start end' dest)" and "j \<noteq> k"
  shows "filter (\<lambda>w. target w = i) (dot_tasks height n len stride start end' dest ! j) = [] \<or>
    filter (\<lambda>w. target w = i) (dot_tasks height n len stride start end' dest ! k) = []"
proof (rule ccontr)
  assume "\<not> ?thesis"
  then obtain v w where "v \<in> set (dot_tasks height n len stride start end' dest ! j)" "target v = i"
      "w \<in> set (dot_tasks height n len stride start end' dest ! k)" "target w = i"
    by (auto simp: filter_empty_conv)
  then have "j * (n * stride) \<le> i - dest" "i - dest < Suc j * (n * stride)"
      "k * (n * stride) \<le> i - dest" "i - dest < Suc k * (n * stride)"
    using dot_tasks_targets [OF assms(1,2)] dot_tasks_targets [OF assms(1,3)] by force+
  then have "(i - dest) div (n * stride) = j" "(i - dest) div (n * stride) = k"
    by (auto intro!: div_nat_eqI simp: mult.commute)
  with assms(4) show False by simp
qed

lemma dot_any_junk:
  assumes "matrix_wf a" and "matrix_wf b" and "cols a = rows b"
  shows "dot junk a b = dot junk' a b"
proof -
  let ?ws = "dot_rows (rows a) (cols a) (cols b) 0 0"
  have "cells (data a) (data b) ?ws (map junk [0..<rows a * cols b]) ! i =
      cells (data a) (data b) ?ws (map junk' [0..<rows a * cols b]) ! i" if i: "i < rows a * cols b" for i
  proof -
    have "i div cols b < rows a" "i mod cols b < cols b"
      using i by (simp_all add: less_mult_imp_div_less) (cases "cols b"; simp)
    from cells_dot_entry [OF assms this] show ?thesis by simp
  qed
  then have "cells (data a) (data b) ?ws (map junk [0..<rows a * cols b]) =
      cells (data a) (data b) ?ws (map junk' [0..<rows a * cols b])"
    by (intro nth_equalityI) (simp_all add: cells_def)
  then show ?thesis by (simp add: dot_stores [OF assms])
qed

text \<open>The tasks, however their stores are interleaved, leave what the rows one after the other leave.\<close>

lemma dot_tasks_stores:
  assumes "matrix_wf a" and "matrix_wf b" and "cols a = rows b" and "0 < n" and "n \<le> rows a"
    and "tasks = dot_tasks (rows a) n (cols a) (cols b) 0 n 0" and "interleaving tasks ws" and "length xs = rows a * cols b"
  shows "exec_stores (data a) (data b) ws xs = Inr (cells (data a) (data b) (dot_rows (rows a) (cols a) (cols b) 0 0) xs)"
proof -
  let ?ws = "dot_rows (rows a) (cols a) (cols b) 0 0"
  have all: "concat tasks = ?ws" using dot_tasks_concat [OF assms(4), of 0 "rows a" n 0] assms(5,6) by simp
  have filt: "filter (\<lambda>w. target w = i) ws = filter (\<lambda>w. target w = i) ?ws" for i
    unfolding all [symmetric]
    by (rule interleaving_filter_concat [OF assms(7)], unfold assms(6), rule dot_tasks_disjoint) simp_all
  have "set ws = set ?ws" using interleaving_set [OF assms(7)] all by (metis set_concat)
  then have "\<forall>w \<in> set ws. in_bounds (length (data a)) (length (data b)) (length xs) w"
    using dot_rows_in_bounds assms(1-3,8) by (auto simp: matrix_wf_def)
  moreover have "cells (data a) (data b) ws xs = cells (data a) (data b) ?ws xs"
    by (simp only: cells_def filt)
  ultimately show ?thesis by (simp only: exec_stores_cells)
qed

text \<open>C14: The parallel product is the sequential product. Whatever the number of threads and however
  the stores of the scheduled tasks are interleaved, as long as the pool performs every task,
  \<open>dot(input, workers)\<close> returns what \<open>dot(input)\<close> returns, the uninitialised array
  notwithstanding.\<close>

theorem dot_workers_dot:
  assumes "matrix_wf a" and "matrix_wf b" and "0 < count"
    and "\<And>tasks. interleaving tasks (perform tasks)"
  shows "dot_workers junk count perform a b = dot junk' a b"
proof (cases "cols a = rows b")
  case True
  let ?n = "grow_rows (cols a * cols b) (rows a) (max 1 (rows a div count))"
  have same: "dot junk a b = dot junk' a b" by (rule dot_any_junk [OF assms(1,2) True])
  show ?thesis
  proof (cases "?n \<ge> rows a")
    case ge: True
    then show ?thesis using True assms(3) same by (simp add: dot_workers_def Let_def)
  next
    case False
    have "0 < ?n" using grow_rows_ge [of "max 1 (rows a div count)" "cols a * cols b" "rows a"] by (simp add: less_max_iff_disj)
    with False have "dot_workers junk count perform a b = dot junk a b"
      using True assms(3) dot_tasks_stores [OF assms(1,2) True _ _ refl assms(4), of ?n "map junk [0..<rows a * cols b]"]
      by (simp add: dot_workers_def Let_def matrix_new_def dot_stores [OF assms(1,2) True])
    with same show ?thesis by simp
  qed
qed (simp add: dot_workers_def dot_def)

theorem dot_workers_dot_witness:
  "dot_workers (\<lambda>i. 7) 2 concat sample_left sample_right = dot (\<lambda>i. 9) sample_left sample_right"
  by (rule dot_workers_dot [OF samples_wf]) (use interleaving_concat [of "[]"] in simp_all)

section \<open>Transpose\<close>

lemma transpose_cells:
  assumes "\<And>r. r < n \<Longrightarrow> c + r * k < length src" and "dest + n \<le> length d"
  shows "for_loop 0 n (transpose_cell src k) (c, dest, d) =
    Inr (c + n * k, dest + n, take dest d @ map (\<lambda>r. src ! (c + r * k)) [0..<n] @ drop (dest + n) d)"
  using assms
proof (induction n)
  case (Suc n)
  let ?d = "take dest d @ map (\<lambda>r. src ! (c + r * k)) [0..<n] @ drop (dest + n) d"
  have "?d[dest + n := src ! (c + n * k)] =
      take dest d @ map (\<lambda>r. src ! (c + r * k)) [0..<Suc n] @ drop (dest + Suc n) d"
    using Suc.prems(2)
    by (simp add: list_update_append Cons_nth_drop_Suc [symmetric, of "dest + n"] min_def)
  then have "transpose_cell src k n (c + n * k, dest + n, ?d) = Inr (c + Suc n * k, dest + Suc n,
      take dest d @ map (\<lambda>r. src ! (c + r * k)) [0..<Suc n] @ drop (dest + Suc n) d)"
    using Suc.prems(1) [of n] Suc.prems(2) by (simp add: transpose_cell_def load_at_def store_at_def)
  moreover have "for_loop 0 n (transpose_cell src k) (c, dest, d) = Inr (c + n * k, dest + n, ?d)"
    using Suc.prems by (intro Suc.IH) simp_all
  ultimately show ?case by (simp only: for_loop_snoc bind_result_Inr add_0)
qed simp

lemma transpose_cols:
  assumes "matrix_wf m" and "length d = cols m * rows m" and "n \<le> cols m"
  shows "for_loop 0 n (transpose_col m) (0, d) =
    Inr (n * rows m, concat (map (\<lambda>c. map (\<lambda>r. entry m r c) [0..<rows m]) [0..<n]) @ drop (n * rows m) d)"
  using assms(3)
proof (induction n)
  case (Suc n)
  let ?pre = "concat (map (\<lambda>c. map (\<lambda>r. entry m r c) [0..<rows m]) [0..<n])"
  have len: "length ?pre = n * rows m" by (simp add: length_concat o_def sum_list_triv)
  have "Suc n * rows m \<le> cols m * rows m" using Suc.prems by (intro mult_le_mono1) simp
  then have "n * rows m + rows m \<le> length (?pre @ drop (n * rows m) d)" using assms(2) len by simp
  moreover have "n + r * cols m < length (data m)" if "r < rows m" for r
    using index_less [of r "rows m" n "cols m"] Suc.prems that assms(1) by (simp add: matrix_wf_def add.commute)
  ultimately have "transpose_col m n (n * rows m, ?pre @ drop (n * rows m) d) =
      Inr (Suc n * rows m, (?pre @ map (\<lambda>r. entry m r n) [0..<rows m]) @ drop (Suc n * rows m) d)"
    using len by (simp add: transpose_col_def transpose_cells entry_def add.commute)
  then show ?case using Suc by (simp only: for_loop_snoc bind_result_Inr add_0) simp
qed simp

definition transposed :: "'a matrix \<Rightarrow> 'a matrix" where
  "transposed m = \<lparr>rows = cols m, cols = rows m,
     data = concat (map (\<lambda>c. map (\<lambda>r. entry m r c) [0..<rows m]) [0..<cols m])\<rparr>"

lemma matrix_transpose_transposed: "matrix_wf m \<Longrightarrow> matrix_transpose junk m = Inr (transposed m)"
  using transpose_cols [of m "data (matrix_new junk (cols m) (rows m))" "cols m"]
  by (simp add: matrix_transpose_def Let_def transposed_def matrix_new_def)

lemma nth_concat_rows:
  "i < n \<Longrightarrow> j < k \<Longrightarrow> concat (map (\<lambda>c. map (f c) [0..<k]) [0..<n]) ! (i * k + j) = f i j"
proof (induction n)
  case (Suc n)
  have len: "length (concat (map (\<lambda>c. map (f c) [0..<k]) [0..<n])) = n * k"
    by (simp add: length_concat o_def sum_list_triv)
  then show ?case
    using Suc index_less [of i n j k] by (cases "i = n") (auto simp: nth_append)
qed simp

lemma transposed_simps [simp]:
  "rows (transposed m) = cols m" "cols (transposed m) = rows m" "matrix_wf (transposed m)"
  by (simp_all add: transposed_def matrix_wf_def length_concat o_def sum_list_triv)

lemma entry_transposed: "r < rows m \<Longrightarrow> c < cols m \<Longrightarrow> entry (transposed m) c r = entry m r c"
  using nth_concat_rows [of c "cols m" r "rows m" "\<lambda>c r. entry m r c"]
  by (simp add: entry_def transposed_def)

text \<open>Transposing swaps the dimensions and the indices of every entry, and transposing twice gives
  the matrix back.\<close>

theorem transpose_involution:
  assumes "matrix_wf m"
  shows "\<exists>t. matrix_transpose junk m = Inr t \<and> rows t = cols m \<and> cols t = rows m \<and>
    (\<forall>r c. r < rows m \<longrightarrow> c < cols m \<longrightarrow> matrix_at t c r = matrix_at m r c) \<and>
    matrix_transpose junk t = Inr m"
proof -
  have "transposed (transposed m) = m"
    using assms by (intro matrix_eqI) (simp_all add: entry_transposed)
  moreover have "matrix_at (transposed m) c r = matrix_at m r c" if "r < rows m" "c < cols m" for r c
    using that assms by (simp add: matrix_at_entry entry_transposed)
  ultimately show ?thesis
    using matrix_transpose_transposed [OF assms, of junk] matrix_transpose_transposed [of "transposed m" junk]
    by simp
qed

theorem transpose_involution_witness:
  "\<exists>t. matrix_transpose (\<lambda>i. 0) sample_left = Inr t \<and> rows t = cols sample_left \<and> cols t = rows sample_left \<and>
    (\<forall>r c. r < rows sample_left \<longrightarrow> c < cols sample_left \<longrightarrow> matrix_at t c r = matrix_at sample_left r c) \<and>
    matrix_transpose (\<lambda>i. 0) t = Inr sample_left"
  by (rule transpose_involution [OF samples_wf(1)])

lemma dot_entry_transposed:
  fixes a b :: "'a::{zero,plus,ab_semigroup_mult} matrix"
  assumes "cols a = rows b" and "r < rows a" and "c < cols b"
  shows "dot_entry (transposed b) (transposed a) c r = dot_entry a b r c"
proof -
  have "foldl (\<lambda>x k. x + entry (transposed b) c k * entry (transposed a) k r) x ks =
      foldl (\<lambda>x k. x + entry a r k * entry b k c) x ks" if "set ks \<subseteq> {..<cols a}" for x ks
    using that assms by (induction ks arbitrary: x) (simp_all add: entry_transposed mult.commute)
  from this [of "[0..<cols a]" 0] assms(1) show ?thesis
    by (simp add: dot_entry_def atLeast0LessThan)
qed

text \<open>The transpose of a product is the product of the transposes in the other order, for any element
  type whose multiplication commutes (rounded or not).\<close>

theorem transpose_dot:
  fixes a b :: "'a::{zero,plus,ab_semigroup_mult} matrix"
  assumes "matrix_wf a" and "matrix_wf b" and "cols a = rows b"
  shows "bind_result (dot junk a b) (matrix_transpose junk) =
    bind_result (matrix_transpose junk b) (\<lambda>bt. bind_result (matrix_transpose junk a) (\<lambda>at. dot junk bt at))"
proof -
  obtain m where m: "dot junk a b = Inr m" "matrix_wf m" "rows m = rows a" "cols m = cols b"
      "\<And>r c. r < rows a \<Longrightarrow> c < cols b \<Longrightarrow> entry m r c = dot_entry a b r c"
    using dot_result [OF assms, of junk] by blast
  obtain t where t: "dot junk (transposed b) (transposed a) = Inr t" "matrix_wf t" "rows t = cols b" "cols t = rows a"
      "\<And>r c. r < cols b \<Longrightarrow> c < rows a \<Longrightarrow> entry t r c = dot_entry (transposed b) (transposed a) r c"
    using dot_result [of "transposed b" "transposed a" junk] assms(3) by auto
  have "transposed m = t"
    using m t assms(3) by (intro matrix_eqI) (simp_all add: entry_transposed dot_entry_transposed)
  then show ?thesis using m t assms by (simp add: matrix_transpose_transposed)
qed

theorem transpose_dot_witness:
  "bind_result (dot (\<lambda>i. 0) sample_left sample_right) (matrix_transpose (\<lambda>i. 0)) =
    bind_result (matrix_transpose (\<lambda>i. 0) sample_right) (\<lambda>bt.
      bind_result (matrix_transpose (\<lambda>i. 0) sample_left) (\<lambda>at. dot (\<lambda>i. 0) bt at))"
  by (rule transpose_dot [OF samples_wf]) (simp add: sample_left_def sample_right_def)

section \<open>Smallest and largest entry\<close>

text \<open>The comparison that \<open>min\<close> and \<open>max\<close> share.\<close>

locale strict_choice =
  fixes better :: "'a \<Rightarrow> 'a \<Rightarrow> bool"
  assumes asym: "better x y \<Longrightarrow> \<not> better y x"
    and negative_trans: "better x v \<Longrightarrow> \<not> better y v \<Longrightarrow> better x y"
begin

definition scan :: "'a matrix \<Rightarrow> nat \<Rightarrow> 'a \<times> nat \<times> nat \<Rightarrow> ('a \<times> nat \<times> nat) result" where
  "scan m = (\<lambda>inx (val, row, col). bind_result (load_at (data m) inx) (\<lambda>x.
     Inr (if better x val then (x, inx div cols m, inx mod cols m) else (val, row, col))))"

definition first_best :: "'a matrix \<Rightarrow> nat \<Rightarrow> 'a \<times> nat \<times> nat \<Rightarrow> bool" where
  "first_best m n = (\<lambda>(val, row, col). let j = row * cols m + col in
     j < n \<and> col < cols m \<and> val = data m ! j \<and> (\<forall>i < n. \<not> better (data m ! i) val) \<and> (\<forall>i < j. better val (data m ! i)))"

lemma scan_first_best:
  assumes "first_best m n st" and "n < length (data m)" and "0 < cols m"
  shows "\<exists>st'. scan m n st = Inr st' \<and> first_best m (Suc n) st'"
proof -
  obtain val row col where st: "st = (val, row, col)" by (cases st)
  let ?j = "row * cols m + col" and ?x = "data m ! n"
  from assms(1) have old: "?j < n" "col < cols m" "val = data m ! ?j" "\<And>i. i < n \<Longrightarrow> \<not> better (data m ! i) val"
      "\<And>i. i < ?j \<Longrightarrow> better val (data m ! i)"
    by (auto simp: first_best_def st Let_def)
  show ?thesis
  proof (cases "better ?x val")
    case True
    then have "better ?x (data m ! i)" if "i < n" for i
      using negative_trans [OF True] old(4) that by blast
    moreover from this have "\<not> better (data m ! i) ?x" if "i < Suc n" for i
      using asym that less_Suc_eq by metis
    ultimately show ?thesis
      using True assms(2,3) by (simp add: scan_def st load_at_def first_best_def Let_def)
  next
    case False
    then show ?thesis
      using old assms(2) by (auto simp: scan_def st load_at_def first_best_def Let_def less_Suc_eq)
  qed
qed

lemma extreme_scan:
  "matrix_extreme better m =
     bind_result (matrix_at m 0 0) (\<lambda>x. for_loop 1 (rows m * cols m - 1) (scan m) (x, 0, 0))"
  by (simp add: matrix_extreme_def scan_def)

lemma extreme_first_best:
  assumes "matrix_wf m" and "0 < rows m" and "0 < cols m"
  shows "\<exists>st. matrix_extreme better m = Inr st \<and> first_best m (rows m * cols m) st"
proof -
  have len: "length (data m) = rows m * cols m" "0 < length (data m)" using assms by (simp_all add: matrix_wf_def)
  have "Suc k \<le> length (data m) \<Longrightarrow>
      \<exists>st. for_loop 1 k (scan m) (data m ! 0, 0, 0) = Inr st \<and> first_best m (Suc k) st" for k
  proof (induction k)
    case 0
    then show ?case using assms asym by (auto simp: first_best_def)
  next
    case (Suc k)
    then obtain st where "for_loop 1 k (scan m) (data m ! 0, 0, 0) = Inr st" "first_best m (Suc k) st" by auto
    with scan_first_best [of m "Suc k" st] Suc.prems assms(3) show ?case
      by (simp only: for_loop_snoc bind_result_Inr) simp
  qed
  from this [of "rows m * cols m - 1"] len show ?thesis
    using matrix_at_entry [OF assms] by (simp add: extreme_scan entry_def)
qed

end

interpretation smallest: strict_choice "(<) :: 'a::linorder \<Rightarrow> 'a \<Rightarrow> bool"
  by unfold_locales auto

interpretation largest: strict_choice "(>) :: 'a::linorder \<Rightarrow> 'a \<Rightarrow> bool"
  by unfold_locales auto

lemma first_best_entry:
  assumes "matrix_wf m" and "strict_choice better" and "strict_choice.first_best better m (rows m * cols m) (val, r, c)"
  shows "r < rows m" "c < cols m" "entry m r c = val"
    "r' < rows m \<Longrightarrow> c' < cols m \<Longrightarrow> \<not> better (entry m r' c') val"
    "r' < rows m \<Longrightarrow> c' < cols m \<Longrightarrow> r' < r \<or> r' = r \<and> c' < c \<Longrightarrow> better val (entry m r' c')"
proof -
  note best = assms(3) [unfolded strict_choice.first_best_def [OF assms(2)] prod.case Let_def]
  show "c < cols m" "entry m r c = val" using best by (simp_all add: entry_def)
  have "r * cols m < rows m * cols m" using best by linarith
  then show "r < rows m" by simp
  show "\<not> better (entry m r' c') val" if "r' < rows m" "c' < cols m"
    using best index_less [OF that] unfolding entry_def by blast
  assume rc: "r' < rows m" "c' < cols m" "r' < r \<or> r' = r \<and> c' < c"
  have "r' * cols m + c' < r * cols m + c"
    using rc(3) index_less [of r' r c' "cols m"] rc(2) by (auto intro: trans_less_add1)
  with best show "better val (entry m r' c')" unfolding entry_def by blast
qed

text \<open>The smallest entry. On a well-formed matrix that is not empty, \<open>min\<close> returns an entry that no
  other entry is below, together with the position of its first occurrence in row order; on a matrix
  with no rows or no columns its assertion fails.\<close>

theorem matrix_min_first:
  assumes "matrix_wf m"
  shows "if 0 < rows m \<and> 0 < cols m
    then \<exists>val r c. matrix_min m = Inr (val, r, c) \<and> matrix_at m r c = Inr val \<and>
      (\<forall>r' c'. r' < rows m \<longrightarrow> c' < cols m \<longrightarrow> val \<le> entry m r' c' \<and>
        (r' < r \<or> r' = r \<and> c' < c \<longrightarrow> val < entry m r' c'))
    else matrix_min m = Inl Assertion_failed"
proof (cases "0 < rows m \<and> 0 < cols m")
  case True
  then obtain val r c where ex: "matrix_min m = Inr (val, r, c)" "smallest.first_best m (rows m * cols m) (val, r, c)"
    using smallest.extreme_first_best [OF assms] by (auto simp: matrix_min_def)
  note best = first_best_entry [OF assms smallest.strict_choice_axioms ex(2)]
  with ex(1) True matrix_at_entry [OF assms best(1,2)] show ?thesis by (auto simp: not_less)
qed (auto simp: matrix_min_def matrix_extreme_def matrix_at_def)

theorem matrix_min_first_witness:
  "\<exists>val r c. matrix_min sample_left = Inr (val, r, c) \<and> matrix_at sample_left r c = Inr val \<and> val \<le> 1"
proof -
  have pos: "0 < rows sample_left \<and> 0 < cols sample_left" by (simp add: sample_left_def)
  with matrix_min_first [OF samples_wf(1)] obtain val r c where "matrix_min sample_left = Inr (val, r, c)" "matrix_at sample_left r c = Inr val"
      "val \<le> entry sample_left 0 0"
    unfolding if_P [OF pos] by blast
  then show ?thesis by (auto simp: entry_def sample_left_def)
qed

lemma matrix_max_first:
  assumes "matrix_wf m" and "0 < rows m" and "0 < cols m"
  shows "\<exists>val r c. matrix_max m = Inr (val, r, c) \<and> matrix_at m r c = Inr val \<and>
    (\<forall>r' c'. r' < rows m \<longrightarrow> c' < cols m \<longrightarrow> entry m r' c' \<le> val \<and>
      (r' < r \<or> r' = r \<and> c' < c \<longrightarrow> entry m r' c' < val))"
proof -
  obtain val r c where ex: "matrix_max m = Inr (val, r, c)" "largest.first_best m (rows m * cols m) (val, r, c)"
    using largest.extreme_first_best [OF assms] by (auto simp: matrix_max_def)
  note best = first_best_entry [OF assms(1) largest.strict_choice_axioms ex(2)]
  with ex(1) matrix_at_entry [OF assms(1) best(1,2)] show ?thesis by (auto simp: not_less)
qed

section \<open>Element-wise results\<close>

lemma entry_zip:
  assumes "matrix_wf a" and "matrix_wf b" and "rows a = rows b" and "cols a = cols b" and "r < rows a" and "c < cols a"
  shows "entry (a\<lparr>data := map2 f (data a) (data b)\<rparr>) r c = f (entry a r c) (entry b r c)"
  using assms index_less [of r "rows a" c "cols a"] by (simp add: entry_def matrix_wf_def)

lemma zip_at:
  assumes "matrix_wf a" and "matrix_wf b" and "rows a = rows b" and "cols a = cols b"
  shows "\<exists>m. matrix_zip junk (\<lambda>x y. Inr (f x y)) a b = Inr m \<and>
    (\<forall>r c. r < rows a \<longrightarrow> c < cols a \<longrightarrow> matrix_at m r c = Inr (f (entry a r c) (entry b r c)))"
proof -
  let ?m = "a\<lparr>data := map2 f (data a) (data b)\<rparr>"
  have "matrix_wf ?m" using assms by (simp add: matrix_wf_def)
  then have "matrix_at ?m r c = Inr (f (entry a r c) (entry b r c))" if "r < rows a" "c < cols a" for r c
    using matrix_at_entry [of ?m r c] entry_zip [OF assms that, of f] that by simp
  then show ?thesis using matrix_zip_map2 [OF assms, of _ f] by auto
qed

text \<open>The element-wise operators. For well-formed matrices of equal dimensions, sum, difference and
  product have at every position the sum, difference and product of the entries there; for other
  dimensions the assertion fails.\<close>

theorem elementwise_entries:
  fixes a b :: "'a::{plus,minus,times} matrix"
  assumes "matrix_wf a" and "matrix_wf b"
  shows "if rows a = rows b \<and> cols a = cols b
    then \<exists>s d p. matrix_add junk a b = Inr s \<and> matrix_sub junk a b = Inr d \<and> matrix_mul junk a b = Inr p \<and>
      (\<forall>r c. r < rows a \<longrightarrow> c < cols a \<longrightarrow>
        matrix_at s r c = Inr (entry a r c + entry b r c) \<and>
        matrix_at d r c = Inr (entry a r c - entry b r c) \<and>
        matrix_at p r c = Inr (entry a r c * entry b r c))
    else matrix_add junk a b = Inl Assertion_failed \<and> matrix_sub junk a b = Inl Assertion_failed \<and>
      matrix_mul junk a b = Inl Assertion_failed"
proof (cases "rows a = rows b \<and> cols a = cols b")
  case True
  then have dims: "rows a = rows b" "cols a = cols b" by simp_all
  show ?thesis
    unfolding if_P [OF True] matrix_add_def matrix_sub_def matrix_mul_def
    using zip_at [OF assms dims, of junk "(+)"] zip_at [OF assms dims, of junk "(-)"]
      zip_at [OF assms dims, of junk "(*)"] by blast
next
  case False
  then have "matrix_zip junk oper a b = Inl Assertion_failed" for oper by (auto simp: matrix_zip_def)
  then show ?thesis
    unfolding if_not_P [OF False] matrix_add_def matrix_sub_def matrix_mul_def by simp
qed

theorem elementwise_entries_witness:
  "\<exists>s. matrix_add (\<lambda>i. 0) sample_left sample_left = Inr s \<and> matrix_at s 1 1 = Inr 8"
proof -
  have "entry sample_left 1 1 = 4" by (simp add: entry_def sample_left_def eval_nat_numeral)
  moreover have "1 < rows sample_left" "1 < cols sample_left" by (simp_all add: sample_left_def)
  ultimately show ?thesis
    using elementwise_entries [OF samples_wf(1) samples_wf(1), of "\<lambda>i. 0"] by auto
qed

end
