(* ===== verification/Pool.thy ===== *)
theory Pool
  imports Streambuf
begin

text \<open>
  \<open>util::static_pool\<close> and \<open>util::pool\<close> of \<open>src/include/shan/util/pool.h\<close>. Objects live in a store
  of addresses, since what matters is which of them are shared; a \<open>ptr_type\<close> is an address or
  \<open>None\<close> for a null pointer. The pooled class is a parameter: its constructor and its \<open>reset\<close>. The
  mutex makes each call one step. An address that no shared pointer refers to any more stays in the
  store; nothing looks at it again.

  The locale \<open>poolable\<close> is the contract of the interface of that name: \<open>reset\<close> makes an object as
  good as new. It is interpreted on \<open>streambuf\<close>, the class the network layer pools. Shown: clients
  that return only what they hold never share an object, and always get a clean one.
\<close>

section \<open>Model\<close>

record 'o pool =
  object_store :: "nat \<rightharpoonup> 'o"
  fresh_addr :: nat
  free_list :: "nat option list"

definition pool_new :: "'o pool" where
  "pool_new = \<lparr>object_store = Map.empty, fresh_addr = 0, free_list = []\<rparr>"

definition get_object :: "('args \<Rightarrow> 'o) \<Rightarrow> ('args \<Rightarrow> 'o \<Rightarrow> 'o) \<Rightarrow> 'args \<Rightarrow> 'o pool \<Rightarrow> (nat \<times> 'o pool) result" where
  "get_object construct renew args p =
     (case free_list p of
        [] \<Rightarrow>
          let a = fresh_addr p in
          Inr (a, p\<lparr>object_store := (object_store p)(a \<mapsto> construct args), fresh_addr := Suc a\<rparr>)
      | ptr # ptrs \<Rightarrow>
          (case ptr of
             None \<Rightarrow> Inl (Undefined Null_dereference)
           | Some a \<Rightarrow>
               (case object_store p a of
                  None \<Rightarrow> Inl (Undefined Out_of_bounds)
                | Some x \<Rightarrow> Inr (a, p\<lparr>object_store := (object_store p)(a \<mapsto> renew args x), free_list := ptrs\<rparr>))))"

text \<open>\<open>room\<close>: whether \<open>push_back\<close> gets its memory; its exception is swallowed.\<close>

definition static_return :: "nat \<Rightarrow> bool \<Rightarrow> nat option \<Rightarrow> 'o pool \<Rightarrow> 'o pool" where
  "static_return max_size room obj p =
     (if obj \<noteq> None \<and> length (free_list p) < max_size \<and> room then p\<lparr>free_list := free_list p @ [obj]\<rparr> else p)"

definition pool_return :: "nat \<Rightarrow> bool \<Rightarrow> nat option \<Rightarrow> 'o pool \<Rightarrow> 'o pool" where
  "pool_return max_size room obj p =
     (if length (free_list p) < max_size \<and> room then p\<lparr>free_list := free_list p @ [obj]\<rparr> else p)"

section \<open>Clients\<close>

text \<open>
  The states that clients of a static pool can reach, with the addresses they hold: they get objects,
  use the ones they hold in any way that keeps the class invariant, and return what they hold.
\<close>

inductive pool_reachable ::
    "('args \<Rightarrow> 'o) \<Rightarrow> ('args \<Rightarrow> 'o \<Rightarrow> 'o) \<Rightarrow> ('args \<Rightarrow> bool) \<Rightarrow> ('o \<Rightarrow> bool) \<Rightarrow> nat \<Rightarrow> 'o pool \<Rightarrow> nat set \<Rightarrow> bool"
  for construct renew args_ok valid max_size where
  start: "pool_reachable construct renew args_ok valid max_size pool_new {}"
| take_out: "pool_reachable construct renew args_ok valid max_size p held \<Longrightarrow> args_ok args \<Longrightarrow>
    get_object construct renew args p = Inr (a, p') \<Longrightarrow>
    pool_reachable construct renew args_ok valid max_size p' (insert a held)"
| mutate: "pool_reachable construct renew args_ok valid max_size p held \<Longrightarrow> a \<in> held \<Longrightarrow> valid x \<Longrightarrow>
    pool_reachable construct renew args_ok valid max_size (p\<lparr>object_store := (object_store p)(a \<mapsto> x)\<rparr>) held"
| give_back: "pool_reachable construct renew args_ok valid max_size p held \<Longrightarrow> a \<in> held \<Longrightarrow>
    pool_reachable construct renew args_ok valid max_size (static_return max_size room (Some a) p) (held - {a})"

definition pool_inv :: "('o \<Rightarrow> bool) \<Rightarrow> nat \<Rightarrow> 'o pool \<Rightarrow> nat set \<Rightarrow> bool" where
  "pool_inv valid max_size p held \<longleftrightarrow>
     None \<notin> set (free_list p) \<and> distinct (free_list p) \<and> length (free_list p) \<le> max_size \<and>
     (\<forall>a. Some a \<in> set (free_list p) \<longrightarrow> a \<notin> held) \<and>
     (\<forall>a. a \<in> held \<or> Some a \<in> set (free_list p) \<longrightarrow> a < fresh_addr p \<and> (\<exists>x. object_store p a = Some x \<and> valid x))"

section \<open>The contract of a pooled class\<close>

locale poolable =
  fixes construct :: "'args \<Rightarrow> 'o"
    and renew :: "'args \<Rightarrow> 'o \<Rightarrow> 'o"
    and args_ok :: "'args \<Rightarrow> bool"
    and valid :: "'o \<Rightarrow> bool"
    and clean :: "'o \<Rightarrow> bool"
  assumes construct_clean: "args_ok args \<Longrightarrow> valid (construct args) \<and> clean (construct args)"
    and renew_clean: "valid x \<Longrightarrow> valid (renew args x) \<and> clean (renew args x)"
begin

lemma get_object_clean:
  assumes "pool_inv valid max_size p held" and "args_ok args"
  shows "\<exists>a p' x. get_object construct renew args p = Inr (a, p') \<and> a \<notin> held \<and>
    object_store p' a = Some x \<and> valid x \<and> clean x \<and> (\<forall>b. b \<noteq> a \<longrightarrow> object_store p' b = object_store p b) \<and>
    pool_inv valid max_size p' (insert a held)"
proof (cases "free_list p")
  case Nil
  then show ?thesis
    using assms construct_clean [OF assms(2)] by (auto simp: get_object_def Let_def pool_inv_def less_Suc_eq)
next
  case (Cons ptr ptrs)
  then obtain a x where a: "ptr = Some a" "object_store p a = Some x" "valid x" "a \<notin> held"
    using assms(1) by (cases ptr) (auto simp: pool_inv_def)
  let ?p = "p\<lparr>object_store := (object_store p)(a \<mapsto> renew args x), free_list := ptrs\<rparr>"
  have "pool_inv valid max_size ?p (insert a held)"
    using assms(1) Cons a renew_clean [OF a(3), of args] by (auto simp: pool_inv_def)
  with Cons a renew_clean [OF a(3), of args] show ?thesis by (auto simp: get_object_def)
qed

lemma reachable_inv:
  "pool_reachable construct renew args_ok valid max_size p held \<Longrightarrow> pool_inv valid max_size p held"
proof (induction rule: pool_reachable.induct)
  case start
  then show ?case by (simp add: pool_inv_def pool_new_def)
next
  case (take_out p held args a p')
  with get_object_clean [OF take_out.IH take_out.hyps(2)] show ?case by auto
next
  case (mutate p held a x)
  then show ?case by (auto simp: pool_inv_def)
next
  case (give_back p held a room)
  then show ?case by (auto simp: pool_inv_def static_return_def)
qed

end

interpretation streambuf_pool: poolable streambuf_new pool_reset "\<lambda>sz. sz < 2 ^ 63" sb_inv
  "\<lambda>sb. content sb = [] \<and> mark sb = None"
  by unfold_locales
    (simp_all add: streambuf_new_inv pool_reset_inv, simp_all add: streambuf_new_def pool_reset_def Let_def)

section \<open>Properties\<close>

abbreviation streambufs_reachable :: "nat \<Rightarrow> streambuf pool \<Rightarrow> nat set \<Rightarrow> bool" where
  "streambufs_reachable \<equiv> pool_reachable streambuf_new pool_reset (\<lambda>sz. sz < 2 ^ 63) sb_inv"

text \<open>The pool of stream buffers. As long as clients return only buffers they hold, a request for a
  buffer succeeds, hands out one that nobody holds, in good order, empty and without a mark, whatever its
  last user left in it, and touches no other buffer; and the pool never keeps more than its maximum.\<close>

theorem streambuf_pool_safe:
  assumes "streambufs_reachable max_size p held" and "sz < 2 ^ 63"
  shows "length (free_list p) \<le> max_size \<and>
    (\<exists>a p' sb. get_object streambuf_new pool_reset sz p = Inr (a, p') \<and> a \<notin> held \<and>
      object_store p' a = Some sb \<and> sb_inv sb \<and> content sb = [] \<and> mark sb = None \<and>
      (\<forall>b. b \<noteq> a \<longrightarrow> object_store p' b = object_store p b))"
proof
  have valid: "pool_inv sb_inv max_size p held" using streambuf_pool.reachable_inv assms(1) .
  then show "length (free_list p) \<le> max_size" by (simp add: pool_inv_def)
  show "\<exists>a p' sb. get_object streambuf_new pool_reset sz p = Inr (a, p') \<and> a \<notin> held \<and>
      object_store p' a = Some sb \<and> sb_inv sb \<and> content sb = [] \<and> mark sb = None \<and>
      (\<forall>b. b \<noteq> a \<longrightarrow> object_store p' b = object_store p b)"
    using streambuf_pool.get_object_clean [OF valid assms(2)] by blast
qed

theorem streambuf_pool_safe_witness:
  "length (free_list (pool_new :: streambuf pool)) \<le> 8 \<and>
    (\<exists>a p' sb. get_object streambuf_new pool_reset 256 pool_new = Inr (a, p') \<and> a \<notin> {} \<and>
      object_store p' a = Some sb \<and> sb_inv sb \<and> content sb = [] \<and> mark sb = None \<and>
      (\<forall>b. b \<noteq> a \<longrightarrow> object_store p' b = object_store pool_new b))"
  by (rule streambuf_pool_safe) (simp_all add: pool_reachable.start)

text \<open>Returning a null pointer. The static pool ignores it; the other pool stores it, and a later
  request that reaches it calls \<open>reset\<close> through the null pointer.\<close>

theorem return_null:
  assumes "free_list p = []" and "0 < max_size"
  shows "static_return max_size True None p = p \<and>
    get_object construct renew args (pool_return max_size True None p) = Inl (Undefined Null_dereference)"
  using assms by (simp add: static_return_def pool_return_def get_object_def)

theorem return_null_witness:
  "static_return 4 True None pool_new = (pool_new :: streambuf pool) \<and>
    get_object streambuf_new pool_reset 256 (pool_return 4 True None pool_new) = Inl (Undefined Null_dereference)"
  by (rule return_null) (simp_all add: pool_new_def)

end
