(* ===== verification/Transitions.thy ===== *)
theory Transitions
  imports Prelude
begin

text \<open>
  What the step relations of the components share. A predicate that every step keeps holds for ever; what every step
  from such a state leaves in a preorder to what was before (the same, later, longer) it leaves so for ever.
\<close>

locale persistent =
  fixes step :: "'s \<Rightarrow> 's \<Rightarrow> bool"
    and keeps :: "'s \<Rightarrow> bool"
    and later :: "'s \<Rightarrow> 's \<Rightarrow> bool"
  assumes keeps_step: "step s s' \<Longrightarrow> keeps s \<Longrightarrow> keeps s'"
    and later_step: "step s s' \<Longrightarrow> keeps s \<Longrightarrow> later s s'"
    and later_refl: "later s s"
    and later_trans: "later r s \<Longrightarrow> later s t \<Longrightarrow> later r t"
begin

lemma for_ever: "step\<^sup>*\<^sup>* s s' \<Longrightarrow> keeps s \<Longrightarrow> keeps s' \<and> later s s'"
proof (induction rule: rtranclp_induct)
  case base
  then show ?case by (simp add: later_refl)
next
  case (step t u)
  then show ?case using keeps_step later_step later_trans by blast
qed

end

text \<open>A machine whose reachable states are the closure of its starts under steps, with an invariant.\<close>

locale invariant_machine = persistent step inv "\<lambda>_ _. True"
  for step :: "'s \<Rightarrow> 's \<Rightarrow> bool" and inv :: "'s \<Rightarrow> bool" +
  fixes start :: "'s \<Rightarrow> bool"
    and reachable :: "'s \<Rightarrow> bool"
  assumes start_inv: "start s \<Longrightarrow> inv s"
    and reachable_least: "reachable s \<Longrightarrow> (\<And>r. start r \<Longrightarrow> Q r) \<Longrightarrow> (\<And>r t. Q r \<Longrightarrow> step r t \<Longrightarrow> Q t) \<Longrightarrow> Q s"
begin

lemma always: "reachable s \<Longrightarrow> inv s"
  using reachable_least start_inv keeps_step by blast

lemma always_after: "reachable s \<Longrightarrow> step\<^sup>*\<^sup>* s s' \<Longrightarrow> inv s'"
  using always for_ever by blast

end

end
