(* ===== verification/Lock_Queue.thy ===== *)
theory Lock_Queue
  imports Transitions
begin

text \<open>
  The queues of \<open>src/include/shan/thread/\<close>: \<open>queue.h\<close>, \<open>spinlock.h\<close> and \<open>spinlock_queue.h\<close>.

  The bodies of their functions are functions on the sequence \<open>_queue\<close>. For \<open>queue\<close> the mutex makes
  each call one step; a call of \<open>pop\<close> that has to wait is \<open>None\<close>. For \<open>spinlock_queue\<close> the lock
  itself is code, so a second model runs any number of threads on it: the state is the flag, the
  sequence and where each thread is, and a thread's step is one access to the shared state.

  Shown: both queues deliver what was pushed, in order (locale \<open>fifo\<close>); two threads are never
  inside the spinlock together; every history of the spinlock queue is one of a sequential queue, and
  \<open>pop_front\<close> is never called on an empty sequence.
\<close>

section \<open>The bodies\<close>

definition queue_size :: "'a list \<Rightarrow> nat" where
  "queue_size q = length q"

definition queue_push :: "'a \<Rightarrow> 'a list \<Rightarrow> 'a list" where
  "queue_push elem q = q @ [elem]"

text \<open>\<open>pop\<close> blocks until the sequence is not empty.\<close>

definition queue_pop :: "'a list \<Rightarrow> ('a \<times> 'a list) option" where
  "queue_pop q = (case q of [] \<Rightarrow> None | x # r \<Rightarrow> Some (x, r))"

text \<open>\<open>pop_if_possible\<close> returns \<open>nullptr\<close>, here \<open>None\<close>, at once.\<close>

definition queue_pop_if_possible :: "'a list \<Rightarrow> 'a option \<times> 'a list" where
  "queue_pop_if_possible q = (case q of [] \<Rightarrow> (None, q) | x # r \<Rightarrow> (Some x, r))"

definition queue_clear :: "'a list \<Rightarrow> 'a list" where
  "queue_clear q = []"

definition sl_empty :: "'a list \<Rightarrow> bool" where
  "sl_empty q \<longleftrightarrow> q = []"

definition sl_push :: "'a \<Rightarrow> 'a list \<Rightarrow> 'a list" where
  "sl_push val q = q @ [val]"

definition sl_pop :: "'a list \<Rightarrow> 'a option \<times> 'a list" where
  "sl_pop q = (case q of [] \<Rightarrow> (None, q) | x # r \<Rightarrow> (Some x, r))"

lemma sl_pop_simps: "sl_pop [] = (None, [])" "sl_pop (x # q) = (Some x, q)"
  by (simp_all add: sl_pop_def)

section \<open>The contract of a queue\<close>

datatype 'a queue_op = Push 'a | Pop

fun pushed :: "'a queue_op list \<Rightarrow> 'a list" where
  "pushed [] = []"
| "pushed (Push x # ops) = x # pushed ops"
| "pushed (Pop # ops) = pushed ops"

locale fifo =
  fixes new_queue :: 'q
    and enqueue :: "'a \<Rightarrow> 'q \<Rightarrow> 'q"
    and dequeue :: "'q \<Rightarrow> 'a option \<times> 'q"
    and elements :: "'q \<Rightarrow> 'a list"
  assumes elements_new: "elements new_queue = []"
    and elements_enqueue: "elements (enqueue x q) = elements q @ [x]"
    and dequeue_empty: "elements q = [] \<Longrightarrow> dequeue q = (None, q)"
    and dequeue_front: "elements q = x # xs \<Longrightarrow> \<exists>q'. dequeue q = (Some x, q') \<and> elements q' = xs"
begin

fun run_ops :: "'a queue_op list \<Rightarrow> 'q \<Rightarrow> 'a list \<times> 'q" where
  "run_ops [] q = ([], q)"
| "run_ops (Push x # ops) q = run_ops ops (enqueue x q)"
| "run_ops (Pop # ops) q =
     (let (r, q') = dequeue q; (xs, q'') = run_ops ops q' in ((case r of None \<Rightarrow> xs | Some x \<Rightarrow> x # xs), q''))"

lemma run_ops_order: "run_ops ops q = (popped, q') \<Longrightarrow> elements q @ pushed ops = popped @ elements q'"
proof (induction ops q arbitrary: popped rule: run_ops.induct)
  case (3 ops q)
  show ?case
  proof (cases "elements q")
    case Nil
    with 3 show ?thesis by (auto simp: dequeue_empty split: prod.splits)
  next
    case (Cons x xs)
    then obtain q1 where "dequeue q = (Some x, q1)" "elements q1 = xs" using dequeue_front by blast
    with 3 Cons show ?thesis by (auto split: prod.splits)
  qed
qed (auto simp: elements_enqueue)

lemma fifo_order: "run_ops ops new_queue = (popped, q) \<Longrightarrow> pushed ops = popped @ elements q"
  using run_ops_order [of ops new_queue popped q] by (simp add: elements_new)

end

interpretation locked_queue: fifo "[]" queue_push queue_pop_if_possible "\<lambda>q. q"
  by unfold_locales (auto simp: queue_push_def queue_pop_if_possible_def)

interpretation spin_queue: fifo "[]" sl_push sl_pop "\<lambda>q. q"
  by unfold_locales (auto simp: sl_push_def sl_pop_def)

section \<open>Threads on a spinlock queue\<close>

datatype 'a call = Call_empty | Call_push 'a | Call_pop

datatype 'a reply = Reply_bool bool | Reply_void | Reply_pop "'a option"

text \<open>Where a thread is: outside, spinning in \<open>lock\<close>, inside at the start of the body, between copying
  the front and \<open>pop_front\<close>, or at the end of the body, about to \<open>unlock\<close>.\<close>

datatype 'a place =
    Outside
  | Spinning "'a call"
  | Inside "'a call"
  | Copied 'a
  | Leaving "'a reply"

record 'a threads =
  flag :: bool
  items :: "'a list"
  place :: "nat \<Rightarrow> 'a place"
  history :: "('a call \<times> 'a reply) list"

definition threads_init :: "'a threads" where
  "threads_init = \<lparr>flag = False, items = [], place = (\<lambda>_. Outside), history = []\<rparr>"

text \<open>\<open>history\<close> is not part of the program: it records each call when its body has taken effect.\<close>

inductive thread_step :: "'a threads \<Rightarrow> 'a threads \<Rightarrow> bool" where
  invoke: "place s t = Outside \<Longrightarrow> thread_step s (s\<lparr>place := (place s)(t := Spinning c)\<rparr>)"
| spin: "place s t = Spinning c \<Longrightarrow> flag s \<Longrightarrow> thread_step s s"
| acquire: "place s t = Spinning c \<Longrightarrow> \<not> flag s \<Longrightarrow>
    thread_step s (s\<lparr>flag := True, place := (place s)(t := Inside c)\<rparr>)"
| body_empty: "place s t = Inside Call_empty \<Longrightarrow>
    thread_step s (s\<lparr>place := (place s)(t := Leaving (Reply_bool (items s = []))),
      history := history s @ [(Call_empty, Reply_bool (items s = []))]\<rparr>)"
| body_push: "place s t = Inside (Call_push x) \<Longrightarrow>
    thread_step s (s\<lparr>items := items s @ [x], place := (place s)(t := Leaving Reply_void),
      history := history s @ [(Call_push x, Reply_void)]\<rparr>)"
| body_pop_empty: "place s t = Inside Call_pop \<Longrightarrow> items s = [] \<Longrightarrow>
    thread_step s (s\<lparr>place := (place s)(t := Leaving (Reply_pop None)),
      history := history s @ [(Call_pop, Reply_pop None)]\<rparr>)"
| body_pop_copy: "place s t = Inside Call_pop \<Longrightarrow> items s = x # xs \<Longrightarrow>
    thread_step s (s\<lparr>place := (place s)(t := Copied x)\<rparr>)"
| body_pop_front: "place s t = Copied x \<Longrightarrow>
    thread_step s (s\<lparr>items := tl (items s), place := (place s)(t := Leaving (Reply_pop (Some x))),
      history := history s @ [(Call_pop, Reply_pop (Some x))]\<rparr>)"
| release: "place s t = Leaving r \<Longrightarrow>
    thread_step s (s\<lparr>flag := False, place := (place s)(t := Outside)\<rparr>)"

inductive threads_reachable :: "'a threads \<Rightarrow> bool" where
  init: "threads_reachable threads_init"
| step: "threads_reachable s \<Longrightarrow> thread_step s s' \<Longrightarrow> threads_reachable s'"

inductive_cases thread_stepE: "thread_step s s'"

fun holds_lock :: "'a place \<Rightarrow> bool" where
  "holds_lock Outside = False"
| "holds_lock (Spinning c) = False"
| "holds_lock _ = True"

text \<open>The sequential queue that the histories are compared with.\<close>

fun sequential :: "'a call \<Rightarrow> 'a list \<Rightarrow> 'a reply \<times> 'a list" where
  "sequential Call_empty q = (Reply_bool (sl_empty q), q)"
| "sequential (Call_push x) q = (Reply_void, sl_push x q)"
| "sequential Call_pop q = (let (r, q') = sl_pop q in (Reply_pop r, q'))"

fun replay :: "('a call \<times> 'a reply) list \<Rightarrow> 'a list \<Rightarrow> 'a list option" where
  "replay [] q = Some q"
| "replay ((c, r) # h) q = (let (r', q') = sequential c q in if r = r' then replay h q' else None)"

lemma replay_append: "replay (h @ h') q = Option.bind (replay h q) (replay h')"
  by (induction h arbitrary: q) (auto simp: Let_def split: prod.splits)

definition threads_inv :: "'a threads \<Rightarrow> bool" where
  "threads_inv s \<longleftrightarrow>
     (\<forall>t u. holds_lock (place s t) \<longrightarrow> holds_lock (place s u) \<longrightarrow> t = u) \<and>
     (\<forall>t. holds_lock (place s t) \<longrightarrow> flag s) \<and>
     (flag s \<longrightarrow> (\<exists>t. holds_lock (place s t))) \<and>
     (\<forall>t x. place s t = Copied x \<longrightarrow> (\<exists>xs. items s = x # xs)) \<and>
     replay (history s) [] = Some (items s)"

lemma threads_init_inv: "threads_inv threads_init"
  by (simp add: threads_inv_def threads_init_def)

text \<open>Moving one thread: the parts of the invariant about places.\<close>

definition lock_inv :: "bool \<Rightarrow> (nat \<Rightarrow> 'a place) \<Rightarrow> bool" where
  "lock_inv locked pl \<longleftrightarrow>
     (\<forall>t u. holds_lock (pl t) \<longrightarrow> holds_lock (pl u) \<longrightarrow> t = u) \<and>
     (locked \<longleftrightarrow> (\<exists>t. holds_lock (pl t)))"

lemma lock_inv_stay:
  "lock_inv locked pl \<Longrightarrow> holds_lock (pl t) = holds_lock p \<Longrightarrow> lock_inv locked (pl(t := p))"
  unfolding lock_inv_def by (metis fun_upd_apply)

lemma lock_inv_enter: "lock_inv False pl \<Longrightarrow> holds_lock p \<Longrightarrow> lock_inv True (pl(t := p))"
  unfolding lock_inv_def by auto

lemma lock_inv_leave: "lock_inv locked pl \<Longrightarrow> holds_lock (pl t) \<Longrightarrow> \<not> holds_lock p \<Longrightarrow> lock_inv False (pl(t := p))"
  unfolding lock_inv_def by (metis fun_upd_apply)

lemma threads_inv_lock:
  "threads_inv s \<longleftrightarrow> lock_inv (flag s) (place s) \<and>
     (\<forall>t x. place s t = Copied x \<longrightarrow> (\<exists>xs. items s = x # xs)) \<and> replay (history s) [] = Some (items s)"
  by (auto simp: threads_inv_def lock_inv_def)

text \<open>Only the thread inside can be between copying and \<open>pop_front\<close>.\<close>

lemma copied_alone:
  "lock_inv locked pl \<Longrightarrow> holds_lock (pl t) \<Longrightarrow> pl u = Copied x \<Longrightarrow> u = t"
  unfolding lock_inv_def by (metis holds_lock.simps(4))

lemma thread_step_inv:
  assumes "thread_step s s'" and "threads_inv s"
  shows "threads_inv s'"
proof -
  from assms(2) have lock: "lock_inv (flag s) (place s)"
    and copied: "\<And>t x. place s t = Copied x \<Longrightarrow> \<exists>xs. items s = x # xs"
    and rep: "replay (history s) [] = Some (items s)" by (auto simp: threads_inv_lock)
  note alone = copied_alone [OF lock]
  from assms(1) show ?thesis
  proof cases
    case (invoke t c)
    then show ?thesis using lock_inv_stay [OF lock, of t] copied rep by (auto simp: threads_inv_lock)
  next
    case (spin t c)
    then show ?thesis using assms(2) by simp
  next
    case (acquire t c)
    then show ?thesis using lock_inv_enter [of "place s" _ t] lock copied rep by (auto simp: threads_inv_lock)
  next
    case (body_empty t)
    then show ?thesis
      using lock_inv_stay [OF lock, of t] copied rep
      by (auto simp: threads_inv_lock replay_append sl_empty_def)
  next
    case (body_push t x)
    then show ?thesis
      using lock_inv_stay [OF lock, of t] alone [of t] rep
      by (auto simp: threads_inv_lock replay_append sl_push_def)
  next
    case (body_pop_empty t)
    then show ?thesis
      using lock_inv_stay [OF lock, of t] copied rep
      by (auto simp: threads_inv_lock replay_append sl_pop_def)
  next
    case (body_pop_copy t x xs)
    then show ?thesis
      using lock_inv_stay [OF lock, of t] alone [of t] rep by (auto simp: threads_inv_lock)
  next
    case (body_pop_front t x)
    then obtain xs where xs: "items s = x # xs" using copied by blast
    have "lock_inv (flag s') (place s')"
      using body_pop_front lock_inv_stay [OF lock, of t "Leaving (Reply_pop (Some x))"] by simp
    moreover have "place s' u \<noteq> Copied y" for u y
      using body_pop_front alone [of t u y] by auto
    moreover have "replay (history s') [] = Some (items s')"
      using body_pop_front rep xs by (simp add: replay_append sl_pop_simps)
    ultimately show ?thesis by (simp add: threads_inv_lock)
  next
    case (release t r)
    then show ?thesis
      using lock_inv_leave [OF lock, of t] copied rep by (auto simp: threads_inv_lock)
  qed
qed

interpretation thread_machine: invariant_machine thread_step threads_inv "\<lambda>s. s = threads_init" threads_reachable
proof
  show "Q s" if "threads_reachable s" "\<And>r. r = threads_init \<Longrightarrow> Q r" "\<And>r t. Q r \<Longrightarrow> thread_step r t \<Longrightarrow> Q t" for Q s
    using that by (induction rule: threads_reachable.induct) blast+
qed (auto intro: threads_init_inv thread_step_inv)

lemma threads_reachable_inv: "threads_reachable s \<Longrightarrow> threads_inv s"
  by (rule thread_machine.always)

text \<open>One thread has pushed and is about to leave while another one spins.\<close>

definition sample_threads :: "nat threads" where
  "sample_threads = \<lparr>flag = True, items = [7],
     place = (\<lambda>_. Outside)(0 := Leaving Reply_void, Suc 0 := Spinning Call_pop),
     history = [(Call_push 7, Reply_void)]\<rparr>"

lemma sample_threads_reachable: "threads_reachable sample_threads"
proof -
  have "threads_reachable \<lparr>flag = False, items = [], place = (\<lambda>_. Outside)(0 := Spinning (Call_push (7 :: nat))), history = []\<rparr>"
    using threads_reachable.step [OF threads_reachable.init thread_step.invoke [of threads_init 0 "Call_push 7"]]
    by (simp add: threads_init_def)
  from threads_reachable.step [OF this thread_step.acquire [of _ 0]]
  have "threads_reachable \<lparr>flag = True, items = [], place = (\<lambda>_. Outside)(0 := Inside (Call_push (7 :: nat))), history = []\<rparr>"
    by simp
  from threads_reachable.step [OF this thread_step.body_push [of _ 0]]
  have "threads_reachable \<lparr>flag = True, items = [7 :: nat], place = (\<lambda>_. Outside)(0 := Leaving Reply_void),
      history = [(Call_push 7, Reply_void)]\<rparr>"
    by simp
  from threads_reachable.step [OF this thread_step.invoke [of _ "Suc 0" Call_pop]] show ?thesis
    by (simp add: sample_threads_def)
qed

section \<open>Properties\<close>

text \<open>Mutual exclusion and progress of the spinlock. In every state that any number of threads can
  reach, at most one thread is between \<open>lock\<close> and \<open>unlock\<close>, and whenever a thread is spinning, either
  it can enter or the thread inside can take its next step, so the lock never blocks for good.\<close>

theorem spinlock_exclusion:
  assumes "threads_reachable s"
  shows "(\<forall>t u. holds_lock (place s t) \<longrightarrow> holds_lock (place s u) \<longrightarrow> t = u) \<and>
    (\<forall>t c. place s t = Spinning c \<longrightarrow>
      (\<exists>s' u. thread_step s s' \<and> place s' u \<noteq> place s u))"
proof -
  have inv: "threads_inv s" by (rule threads_reachable_inv [OF assms])
  have "\<exists>s' u. thread_step s s' \<and> place s' u \<noteq> place s u" if "place s t = Spinning c" for t c
  proof (cases "flag s")
    case False
    from thread_step.acquire [OF that False] show ?thesis
      by (rule exI [of _ "_ :: 'a threads", OF exI [of _ t], OF conjI]) (simp add: that)
  next
    case True
    then obtain u where u: "holds_lock (place s u)" using inv by (auto simp: threads_inv_def)
    show ?thesis
    proof (cases "place s u")
      case (Inside d)
      then show ?thesis
        using thread_step.body_empty [of s u] thread_step.body_push [of s u]
          thread_step.body_pop_empty [of s u] thread_step.body_pop_copy [of s u]
        by (cases d; cases "items s") (force intro: exI [of _ u])+
    next
      case (Copied x)
      from thread_step.body_pop_front [OF this] Copied show ?thesis by (force intro: exI [of _ u])
    next
      case (Leaving r)
      from thread_step.release [OF this] Leaving show ?thesis by (force intro: exI [of _ u])
    qed (use u in simp_all)
  qed
  with inv show ?thesis by (auto simp: threads_inv_def)
qed

theorem spinlock_exclusion_witness:
  "(\<nexists>t u. holds_lock (place sample_threads t) \<and> holds_lock (place sample_threads u) \<and> t \<noteq> u) \<and>
    (\<exists>s' u. thread_step sample_threads s' \<and> place s' u \<noteq> place sample_threads u)"
proof -
  have "place sample_threads (Suc 0) = Spinning Call_pop" by (simp add: sample_threads_def)
  with spinlock_exclusion [OF sample_threads_reachable] show ?thesis by blast
qed

fun history_op :: "'a call \<times> 'a reply \<Rightarrow> 'a queue_op list" where
  "history_op (Call_push x, r) = [Push x]"
| "history_op (Call_pop, r) = [Pop]"
| "history_op (Call_empty, r) = []"

fun reply_elements :: "'a call \<times> 'a reply \<Rightarrow> 'a list" where
  "reply_elements (c, Reply_pop (Some x)) = [x]"
| "reply_elements (c, r) = []"

lemma replay_run_ops:
  "replay h q = Some q' \<Longrightarrow>
     spin_queue.run_ops (concat (map history_op h)) q = (concat (map reply_elements h), q')"
proof (induction h q rule: replay.induct)
  case (2 c r h q)
  show ?case
  proof (cases c)
    case Call_pop
    with 2 show ?thesis by (cases q) (auto simp: sl_pop_simps Let_def split: if_splits)
  qed (use 2 in \<open>auto simp: Let_def split: if_splits\<close>)
qed simp

text \<open>C18: The spinlock queue is a queue. Whatever the interleaving of any number of threads, the calls, in
  the order in which their bodies took effect, have the replies of a sequential queue whose content is
  the sequence; so what was popped, followed by what is still inside, is what was pushed, in order; and
  \<open>pop_front\<close> only runs on a sequence that starts with the copied element.\<close>

theorem spinlock_queue_linearizable:
  assumes "threads_reachable s"
  shows "replay (history s) [] = Some (items s) \<and>
    pushed (concat (map history_op (history s))) = concat (map reply_elements (history s)) @ items s \<and>
    (\<forall>t x. place s t = Copied x \<longrightarrow> (\<exists>xs. items s = x # xs))"
  using threads_reachable_inv [OF assms] spin_queue.fifo_order [OF replay_run_ops, of "history s" "items s"]
  by (simp add: threads_inv_def)

theorem spinlock_queue_linearizable_witness:
  "replay (history sample_threads) [] = Some (items sample_threads) \<and>
    pushed (concat (map history_op (history sample_threads))) =
      concat (map reply_elements (history sample_threads)) @ items sample_threads \<and>
    (\<nexists>t x. place sample_threads t = Copied x \<and> items sample_threads = [])"
  using spinlock_queue_linearizable [OF sample_threads_reachable] by fastforce

end
