(* ===== verification/Worker_Pool.thy ===== *)
theory Worker_Pool
  imports Lock_Queue "HOL-Library.Multiset"
begin

text \<open>
  \<open>thread::worker_pool\<close> of \<open>src/include/shan/thread/worker_pool.h\<close>, as the steps of its threads: the
  workers in \<open>do_work\<close>, the callers of \<open>schedule\<close>, one caller of \<open>wait_complete\<close> and one of
  \<open>stop\<close>. A step is one access to shared state, or the evaluation of one condition; the calls of the
  task queue are steps of their own, as \<open>Lock_Queue\<close> shows they appear to be. Waiting on a condition
  variable is being able to go on only when its predicate holds; which thread is notified does not
  change what can happen then. A task is a number; running it is one step, at its end.

  \<open>scheduled\<close>, \<open>executed\<close> and \<open>dropped\<close> record what happened and are not part of the program.

  Shown: every scheduled task is in the queue, with one worker, done or dropped, and exactly once;
  \<open>_working_threads\<close> counts the workers that may hold a task; when \<open>wait_complete\<close> returns on a
  running pool, every task that was in when it looked has been executed; and a task can be lost by
  \<open>stop(true)\<close>.
\<close>

section \<open>Model\<close>

datatype worker =
    At_test
  | At_increment
  | At_pop
  | At_check nat
  | At_run nat
  | At_decrement
  | At_wait
  | Blocked
  | Exited

datatype caller = Not_scheduling | Pushing nat

datatype waiter = Not_waiting | Saw_empty "nat list" | Complete "nat list"

record workers =
  running :: bool
  wait_stop :: bool
  stopping :: bool
  working_threads :: int
  task_queue :: "nat list"
  worker_at :: "nat \<Rightarrow> worker"
  caller_at :: "nat \<Rightarrow> caller"
  waiter_at :: waiter
  scheduled :: "nat list"
  executed :: "nat list"
  dropped :: "nat list"

definition worker_pool_new :: workers where
  "worker_pool_new = \<lparr>running = True, wait_stop = False, stopping = False, working_threads = 0, task_queue = [],
     worker_at = (\<lambda>_. At_test), caller_at = (\<lambda>_. Not_scheduling), waiter_at = Not_waiting,
     scheduled = [], executed = [], dropped = []\<rparr>"

text \<open>\<open>do_work\<close>, step by step; \<open>_task_queue.pop(task) && (_running || _wait_stop)\<close> pops first.\<close>

inductive worker_step :: "workers \<Rightarrow> nat \<Rightarrow> workers \<Rightarrow> bool" where
  test_go: "worker_at s i = At_test \<Longrightarrow> running s \<or> wait_stop s \<Longrightarrow>
    worker_step s i (s\<lparr>worker_at := (worker_at s)(i := At_increment)\<rparr>)"
| test_end: "worker_at s i = At_test \<Longrightarrow> \<not> (running s \<or> wait_stop s) \<Longrightarrow>
    worker_step s i (s\<lparr>worker_at := (worker_at s)(i := Exited)\<rparr>)"
| increment: "worker_at s i = At_increment \<Longrightarrow>
    worker_step s i (s\<lparr>working_threads := working_threads s + 1, worker_at := (worker_at s)(i := At_pop)\<rparr>)"
| pop_task: "worker_at s i = At_pop \<Longrightarrow> sl_pop (task_queue s) = (Some t, q) \<Longrightarrow>
    worker_step s i (s\<lparr>task_queue := q, worker_at := (worker_at s)(i := At_check t)\<rparr>)"
| pop_nothing: "worker_at s i = At_pop \<Longrightarrow> sl_pop (task_queue s) = (None, q) \<Longrightarrow>
    worker_step s i (s\<lparr>task_queue := q, worker_at := (worker_at s)(i := At_decrement)\<rparr>)"
| check_go: "worker_at s i = At_check t \<Longrightarrow> running s \<or> wait_stop s \<Longrightarrow>
    worker_step s i (s\<lparr>worker_at := (worker_at s)(i := At_run t)\<rparr>)"
| check_end: "worker_at s i = At_check t \<Longrightarrow> \<not> (running s \<or> wait_stop s) \<Longrightarrow>
    worker_step s i (s\<lparr>dropped := dropped s @ [t], worker_at := (worker_at s)(i := At_decrement)\<rparr>)"
| run_task: "worker_at s i = At_run t \<Longrightarrow>
    worker_step s i (s\<lparr>executed := executed s @ [t], worker_at := (worker_at s)(i := At_pop)\<rparr>)"
| decrement: "worker_at s i = At_decrement \<Longrightarrow>
    worker_step s i (s\<lparr>working_threads := working_threads s - 1, worker_at := (worker_at s)(i := At_wait)\<rparr>)"
| wait_break: "worker_at s i = At_wait \<Longrightarrow> \<not> running s \<Longrightarrow>
    worker_step s i (s\<lparr>worker_at := (worker_at s)(i := Exited)\<rparr>)"
| wait_enter: "worker_at s i = At_wait \<Longrightarrow> running s \<Longrightarrow>
    worker_step s i (s\<lparr>worker_at := (worker_at s)(i := Blocked)\<rparr>)"
| wait_leave: "worker_at s i = Blocked \<Longrightarrow> \<not> sl_empty (task_queue s) \<or> \<not> running s \<Longrightarrow>
    worker_step s i (s\<lparr>worker_at := (worker_at s)(i := At_test)\<rparr>)"

text \<open>\<open>schedule\<close> on a pool that has workers: the test of \<open>_running\<close>, then the push. Without workers the
  task runs in the calling thread.\<close>

datatype schedule_path = Queued | Run_inline | Refused

definition schedule_path :: "nat \<Rightarrow> bool \<Rightarrow> schedule_path" where
  "schedule_path worker_count run = (if run then (if worker_count > 0 then Queued else Run_inline) else Refused)"

inductive caller_step :: "nat \<Rightarrow> workers \<Rightarrow> workers \<Rightarrow> bool" for n where
  schedule_test: "caller_at s c = Not_scheduling \<Longrightarrow> schedule_path n (running s) = Queued \<Longrightarrow>
    caller_step n s (s\<lparr>caller_at := (caller_at s)(c := Pushing t)\<rparr>)"
| schedule_push: "caller_at s c = Pushing t \<Longrightarrow>
    caller_step n s (s\<lparr>task_queue := sl_push t (task_queue s), scheduled := scheduled s @ [t],
      caller_at := (caller_at s)(c := Not_scheduling)\<rparr>)"
| schedule_inline: "caller_at s c = Not_scheduling \<Longrightarrow> schedule_path n (running s) = Run_inline \<Longrightarrow>
    caller_step n s (s\<lparr>scheduled := scheduled s @ [t], executed := executed s @ [t]\<rparr>)"

text \<open>The predicate of \<open>wait_complete\<close>: \<open>_task_queue.empty()\<close> first, then \<open>_working_threads == 0\<close>.
  The waiter keeps what had been scheduled when it looked.\<close>

inductive waiter_step :: "workers \<Rightarrow> workers \<Rightarrow> bool" where
  see_empty: "waiter_at s = Not_waiting \<Longrightarrow> sl_empty (task_queue s) \<Longrightarrow>
    waiter_step s (s\<lparr>waiter_at := Saw_empty (scheduled s)\<rparr>)"
| see_idle: "waiter_at s = Saw_empty g \<Longrightarrow> working_threads s = 0 \<Longrightarrow>
    waiter_step s (s\<lparr>waiter_at := Complete g\<rparr>)"
| see_busy: "waiter_at s = Saw_empty g \<Longrightarrow> working_threads s \<noteq> 0 \<Longrightarrow>
    waiter_step s (s\<lparr>waiter_at := Not_waiting\<rparr>)"
| wait_again: "waiter_at s = Complete g \<Longrightarrow> waiter_step s (s\<lparr>waiter_at := Not_waiting\<rparr>)"

text \<open>\<open>stop(wait)\<close>: the two flags; joining changes nothing here.\<close>

inductive stop_step :: "workers \<Rightarrow> workers \<Rightarrow> bool" where
  stop_wait: "\<not> stopping s \<Longrightarrow> stop_step s (s\<lparr>wait_stop := w, stopping := True\<rparr>)"
| stop_running: "stopping s \<Longrightarrow> stop_step s (s\<lparr>running := False\<rparr>)"

inductive pool_step :: "nat \<Rightarrow> workers \<Rightarrow> workers \<Rightarrow> bool" for n where
  worker: "i < n \<Longrightarrow> worker_step s i s' \<Longrightarrow> pool_step n s s'"
| caller: "caller_step n s s' \<Longrightarrow> pool_step n s s'"
| waiter: "waiter_step s s' \<Longrightarrow> pool_step n s s'"
| stopper: "stop_step s s' \<Longrightarrow> pool_step n s s'"

inductive workers_reachable :: "nat \<Rightarrow> workers \<Rightarrow> bool" for n where
  begin_pool: "workers_reachable n worker_pool_new"
| go_on: "workers_reachable n s \<Longrightarrow> pool_step n s s' \<Longrightarrow> workers_reachable n s'"

section \<open>Accounting\<close>

fun in_hand :: "worker \<Rightarrow> nat multiset" where
  "in_hand (At_check t) = {#t#}"
| "in_hand (At_run t) = {#t#}"
| "in_hand _ = {#}"

fun counted :: "worker \<Rightarrow> int" where
  "counted At_pop = 1"
| "counted (At_check t) = 1"
| "counted (At_run t) = 1"
| "counted At_decrement = 1"
| "counted _ = 0"

definition all_workers :: "(worker \<Rightarrow> 'b::comm_monoid_add) \<Rightarrow> nat \<Rightarrow> workers \<Rightarrow> 'b" where
  "all_workers f n s = (\<Sum>i<n. f (worker_at s i))"

lemma all_workers_move:
  fixes f :: "worker \<Rightarrow> 'b::cancel_comm_monoid_add"
  assumes "i < n" and "worker_at s' = (worker_at s)(i := w)"
  shows "all_workers f n s' + f (worker_at s i) = all_workers f n s + f w"
proof -
  have "(\<Sum>j<n. f (worker_at s' j)) = f w + (\<Sum>j\<in>{..<n} - {i}. f (worker_at s j))"
    using assms by (subst sum.remove [of _ i]) (auto intro!: sum.cong)
  moreover have "(\<Sum>j<n. f (worker_at s j)) = f (worker_at s i) + (\<Sum>j\<in>{..<n} - {i}. f (worker_at s j))"
    using assms(1) by (subst sum.remove [of _ i]) auto
  ultimately show ?thesis by (simp add: all_workers_def ac_simps)
qed

lemma all_workers_waiter [simp]: "all_workers f n (s\<lparr>waiter_at := w\<rparr>) = all_workers f n s"
  by (simp add: all_workers_def)

text \<open>What has left the queue.\<close>

definition past :: "nat \<Rightarrow> workers \<Rightarrow> nat multiset" where
  "past n s = all_workers in_hand n s + mset (executed s) + mset (dropped s)"

definition workers_inv :: "nat \<Rightarrow> workers \<Rightarrow> bool" where
  "workers_inv n s \<longleftrightarrow>
     mset (scheduled s) = mset (task_queue s) + past n s \<and>
     working_threads s = all_workers counted n s \<and>
     (running s \<longrightarrow> dropped s = []) \<and>
     (case waiter_at s of
        Not_waiting \<Rightarrow> True
      | Saw_empty g \<Rightarrow> mset g \<subseteq># past n s
      | Complete g \<Rightarrow> mset g \<subseteq># mset (executed s) + mset (dropped s))"

lemma workers_inv_new: "workers_inv n worker_pool_new"
  by (simp add: workers_inv_def worker_pool_new_def past_def all_workers_def)

lemma sl_pop_cases: "sl_pop q = (Some t, q') \<longleftrightarrow> q = t # q'" "sl_pop q = (None, q') \<longleftrightarrow> q = [] \<and> q' = []"
  by (auto simp: sl_pop_def split: list.splits)

text \<open>A worker's step moves tasks forward and keeps the count.\<close>

lemma worker_step_moves:
  assumes "worker_step s i s'" and "i < n"
  shows "mset (task_queue s') + past n s' = mset (task_queue s) + past n s"
    and "past n s \<subseteq># past n s'"
    and "mset (executed s) + mset (dropped s) \<subseteq># mset (executed s') + mset (dropped s')"
    and "working_threads s' - all_workers counted n s' = working_threads s - all_workers counted n s"
    and "scheduled s' = scheduled s \<and> waiter_at s' = waiter_at s \<and> running s' = running s"
    and "running s \<Longrightarrow> dropped s' = dropped s"
proof -
  obtain w where w: "worker_at s' = (worker_at s)(i := w)" using assms(1) by cases auto
  note hand = all_workers_move [OF assms(2) w, of in_hand]
    and count = all_workers_move [OF assms(2) w, of counted]
  have h: "all_workers in_hand n s' + in_hand (worker_at s i) = all_workers in_hand n s + in_hand (worker_at s' i)"
    using hand w by simp
  have c: "all_workers counted n s' + counted (worker_at s i) = all_workers counted n s + counted (worker_at s' i)"
    using count w by simp
  show "mset (task_queue s') + past n s' = mset (task_queue s) + past n s"
    using assms(1) h by cases (auto simp: past_def sl_pop_cases)
  show "past n s \<subseteq># past n s'"
    using assms(1) h by cases (auto simp: past_def sl_pop_cases)
  show "mset (executed s) + mset (dropped s) \<subseteq># mset (executed s') + mset (dropped s')"
    using assms(1) by cases auto
  show "working_threads s' - all_workers counted n s' = working_threads s - all_workers counted n s"
    using assms(1) c by cases auto
  show "scheduled s' = scheduled s \<and> waiter_at s' = waiter_at s \<and> running s' = running s"
    using assms(1) by cases auto
  show "dropped s' = dropped s" if "running s"
    using assms(1) that by cases auto
qed

lemma in_hand_counted: "counted w = 0 \<Longrightarrow> in_hand w = {#}" "0 \<le> counted w" "counted w \<le> 1"
  by (cases w; simp)+

lemma nobody_counted:
  assumes "all_workers counted n s = 0"
  shows "all_workers in_hand n s = {#}"
proof -
  have "\<forall>i \<in> {..<n}. counted (worker_at s i) = 0"
    using assms by (subst (asm) all_workers_def, subst (asm) sum_nonneg_eq_0_iff) (auto simp: in_hand_counted)
  then show ?thesis by (simp add: all_workers_def in_hand_counted)
qed

lemma workers_inv_step:
  assumes "pool_step n s s'" and "workers_inv n s"
  shows "workers_inv n s'"
  using assms(1)
proof cases
  case (worker i)
  note moves = worker_step_moves [OF worker(2,1)]
  from assms(2) moves show ?thesis
    unfolding workers_inv_def
    by (auto split: waiter.splits intro: subset_mset.order_trans)
next
  case caller
  then show ?thesis
    using assms(2)
    by cases (auto simp: workers_inv_def past_def all_workers_def sl_push_def split: waiter.splits
        intro: subset_mset.order_trans)
next
  case waiter
  then show ?thesis
    using assms(2) nobody_counted [of n s]
    by cases (auto simp: workers_inv_def past_def sl_empty_def split: waiter.splits)
next
  case stopper
  then show ?thesis
    using assms(2) by cases (auto simp: workers_inv_def past_def all_workers_def split: waiter.splits)
qed

interpretation pool_machine:
  invariant_machine "pool_step n" "workers_inv n" "\<lambda>s. s = worker_pool_new" "workers_reachable n" for n
proof
  show "Q s" if "workers_reachable n s" "\<And>r. r = worker_pool_new \<Longrightarrow> Q r" "\<And>r t. Q r \<Longrightarrow> pool_step n r t \<Longrightarrow> Q t" for Q s
    using that by (induction rule: workers_reachable.induct) blast+
qed (auto intro: workers_inv_new workers_inv_step)

lemma workers_reachable_inv: "workers_reachable n s \<Longrightarrow> workers_inv n s"
  by (rule pool_machine.always)

section \<open>Properties\<close>

text \<open>C17: Every scheduled task is somewhere, once: in the queue, in the hands of one worker, executed, or
  dropped, and nothing is dropped while the pool is running; \<open>_working_threads\<close> stays between zero and
  the number of workers.\<close>

theorem tasks_accounted:
  assumes "workers_reachable n s"
  shows "mset (scheduled s) =
      mset (task_queue s) + (\<Sum>i<n. in_hand (worker_at s i)) + mset (executed s) + mset (dropped s) \<and>
    (running s \<longrightarrow> dropped s = []) \<and> 0 \<le> working_threads s \<and> working_threads s \<le> int n"
proof -
  have inv: "workers_inv n s" by (rule workers_reachable_inv [OF assms])
  have "(\<Sum>i<n. counted (worker_at s i)) \<le> (\<Sum>i<n. 1)" by (intro sum_mono in_hand_counted)
  moreover have "0 \<le> (\<Sum>i<n. counted (worker_at s i))" by (intro sum_nonneg in_hand_counted)
  ultimately show ?thesis
    using inv by (auto simp: workers_inv_def past_def all_workers_def)
qed

theorem tasks_accounted_witness:
  "mset (scheduled worker_pool_new) = mset (task_queue worker_pool_new) +
      (\<Sum>i<2. in_hand (worker_at worker_pool_new i)) + mset (executed worker_pool_new) + mset (dropped worker_pool_new) \<and>
    running worker_pool_new \<and> dropped worker_pool_new = [] \<and>
    0 \<le> working_threads worker_pool_new \<and> working_threads worker_pool_new \<le> int 2"
  using tasks_accounted [OF workers_reachable.begin_pool, of 2] by (simp add: worker_pool_new_def)

text \<open>C15: \<open>wait_complete\<close>. When it returns on a pool that is still running, every task that had been
  scheduled when it saw the queue empty has been executed to the end, although the queue and the count
  are looked at one after the other while workers go on.\<close>

theorem wait_complete_sound:
  assumes "workers_reachable n s" and "waiter_at s = Complete g" and "running s"
  shows "mset g \<subseteq># mset (executed s)"
  using workers_reachable_inv [OF assms(1)] assms(2,3) by (auto simp: workers_inv_def)

section \<open>Running the pool\<close>

text \<open>The worker's next step as a function, and scripts of steps.\<close>

definition worker_next :: "nat \<Rightarrow> workers \<Rightarrow> workers option" where
  "worker_next i s =
     (let move = (\<lambda>w. (worker_at s)(i := w)); go = (running s \<or> wait_stop s) in
      case worker_at s i of
        At_test \<Rightarrow> Some (s\<lparr>worker_at := move (if go then At_increment else Exited)\<rparr>)
      | At_increment \<Rightarrow> Some (s\<lparr>working_threads := working_threads s + 1, worker_at := move At_pop\<rparr>)
      | At_pop \<Rightarrow>
          (case sl_pop (task_queue s) of
             (Some t, q) \<Rightarrow> Some (s\<lparr>task_queue := q, worker_at := move (At_check t)\<rparr>)
           | (None, q) \<Rightarrow> Some (s\<lparr>task_queue := q, worker_at := move At_decrement\<rparr>))
      | At_check t \<Rightarrow>
          if go then Some (s\<lparr>worker_at := move (At_run t)\<rparr>)
          else Some (s\<lparr>dropped := dropped s @ [t], worker_at := move At_decrement\<rparr>)
      | At_run t \<Rightarrow> Some (s\<lparr>executed := executed s @ [t], worker_at := move At_pop\<rparr>)
      | At_decrement \<Rightarrow> Some (s\<lparr>working_threads := working_threads s - 1, worker_at := move At_wait\<rparr>)
      | At_wait \<Rightarrow> Some (s\<lparr>worker_at := move (if running s then Blocked else Exited)\<rparr>)
      | Blocked \<Rightarrow>
          if \<not> sl_empty (task_queue s) \<or> \<not> running s then Some (s\<lparr>worker_at := move At_test\<rparr>) else None
      | Exited \<Rightarrow> None)"

lemma worker_next_step: "worker_next i s = Some s' \<Longrightarrow> worker_step s i s'"
  by (cases "worker_at s i")
    (auto simp: worker_next_def Let_def intro: worker_step.intros split: if_splits prod.splits option.splits)

datatype action = Work nat | Schedule nat nat | Stop_flags bool | Look

text \<open>\<open>Schedule c t\<close>: caller \<open>c\<close> tests and pushes without a step in between; \<open>Stop_flags w\<close>: both flags.\<close>

definition act :: "nat \<Rightarrow> action \<Rightarrow> workers \<Rightarrow> workers option" where
  "act n a s =
     (case a of
        Work i \<Rightarrow> if i < n then worker_next i s else None
      | Schedule c t \<Rightarrow>
          if caller_at s c = Not_scheduling \<and> schedule_path n (running s) = Queued
          then Some (s\<lparr>task_queue := sl_push t (task_queue s), scheduled := scheduled s @ [t],
            caller_at := (caller_at s)(c := Not_scheduling)\<rparr>)
          else None
      | Stop_flags w \<Rightarrow>
          if stopping s then None else Some (s\<lparr>wait_stop := w, stopping := True, running := False\<rparr>)
      | Look \<Rightarrow>
          (case waiter_at s of
             Not_waiting \<Rightarrow> if sl_empty (task_queue s) then Some (s\<lparr>waiter_at := Saw_empty (scheduled s)\<rparr>) else None
           | Saw_empty g \<Rightarrow> Some (s\<lparr>waiter_at := (if working_threads s = 0 then Complete g else Not_waiting)\<rparr>)
           | Complete g \<Rightarrow> Some (s\<lparr>waiter_at := Not_waiting\<rparr>)))"

fun script :: "nat \<Rightarrow> action list \<Rightarrow> workers \<Rightarrow> workers option" where
  "script n [] s = Some s"
| "script n (a # as) s = Option.bind (act n a s) (script n as)"

lemma act_reachable:
  assumes "workers_reachable n s" and "act n a s = Some s'"
  shows "workers_reachable n s'"
proof (cases a)
  case (Work i)
  with assms show ?thesis
    by (auto simp: act_def split: if_splits intro: workers_reachable.go_on pool_step.worker worker_next_step)
next
  case (Schedule c t)
  let ?s = "s\<lparr>caller_at := (caller_at s)(c := Pushing t)\<rparr>"
  have ok: "caller_at s c = Not_scheduling" "schedule_path n (running s) = Queued"
    using assms(2) Schedule by (auto simp: act_def split: if_splits)
  have "workers_reachable n ?s"
    using assms(1) caller_step.schedule_test [OF ok] by (meson workers_reachable.go_on pool_step.caller)
  moreover have "caller_step n ?s s'"
    using caller_step.schedule_push [of ?s c t n] assms(2) Schedule ok by (simp add: act_def)
  ultimately show ?thesis by (meson workers_reachable.go_on pool_step.caller)
next
  case (Stop_flags w)
  then have st: "\<not> stopping s" using assms(2) by (auto simp: act_def split: if_splits)
  have "workers_reachable n (s\<lparr>wait_stop := w, stopping := True\<rparr>)"
    using assms(1) stop_step.stop_wait [OF st] by (meson workers_reachable.go_on pool_step.stopper)
  moreover have "stop_step (s\<lparr>wait_stop := w, stopping := True\<rparr>) s'"
    using stop_step.stop_running [of "s\<lparr>wait_stop := w, stopping := True\<rparr>"] assms(2) Stop_flags st by (simp add: act_def)
  ultimately show ?thesis by (meson workers_reachable.go_on pool_step.stopper)
next
  case Look
  then have "waiter_step s s'"
    using assms(2) by (cases "waiter_at s") (auto simp: act_def intro: waiter_step.intros split: if_splits)
  with assms(1) show ?thesis by (meson workers_reachable.go_on pool_step.waiter)
qed

lemma script_reachable: "workers_reachable n s \<Longrightarrow> script n as s = Some s' \<Longrightarrow> workers_reachable n s'"
  by (induction as arbitrary: s) (auto simp: bind_eq_Some_conv intro: act_reachable)

lemmas script_simps = act_def worker_next_def worker_pool_new_def schedule_path_def sl_push_def sl_pop_def sl_empty_def Let_def

theorem wait_complete_sound_witness:
  "\<exists>s :: workers. waiter_at s = Complete [5] \<and> running s \<and> mset [5] \<subseteq># mset (executed s)"
proof -
  obtain s where s: "script 1 ([Schedule 0 5] @ replicate 8 (Work 0) @ [Look, Look]) worker_pool_new = Some s"
      "waiter_at s = Complete [5]" "running s"
    by (simp add: script_simps eval_nat_numeral)
  from wait_complete_sound [OF script_reachable [OF workers_reachable.begin_pool s(1)] s(2,3)] s(2,3)
  show ?thesis by blast
qed

text \<open>C16: \<open>stop(true)\<close> can lose a task. The one worker has found the queue empty; a task is scheduled and
  accepted, then \<open>stop(true)\<close> is called; the worker sees the cleared \<open>_running\<close> at the end of its
  round and leaves, so \<open>stop\<close> returns with the task still in the queue.\<close>

theorem stop_loses_task:
  "\<exists>s. workers_reachable 1 s \<and> wait_stop s \<and> \<not> running s \<and> worker_at s 0 = Exited \<and>
    scheduled s = [5] \<and> executed s = [] \<and> task_queue s = [5]"
proof -
  obtain s where "script 1 ([Work 0, Work 0, Work 0, Schedule 0 5, Stop_flags True, Work 0, Work 0]) worker_pool_new = Some s"
      "wait_stop s" "\<not> running s" "worker_at s 0 = Exited" "scheduled s = [5]" "executed s = []" "task_queue s = [5]"
    by (simp add: script_simps)
  with script_reachable [OF workers_reachable.begin_pool] show ?thesis by blast
qed

end
