(* ===== verification/Net_Context.thy ===== *)
theory Net_Context
  imports Prelude
begin

text \<open>
  \<open>net::context_base\<close> of \<open>src/include/shan/net/context_base.h\<close>: the state every acceptor and channel
  context keeps. \<open>_param\<close>, which is only stored and returned, is left out.
\<close>

datatype context_stat = CREATED | OPEN | STARTED | BOUND | CONNECTED | REQ_CLOSE | DISCONNECTED | CLOSED

fun stat_code :: "context_stat \<Rightarrow> nat" where
  "stat_code CREATED = 0"
| "stat_code OPEN = 1"
| "stat_code STARTED = 2"
| "stat_code BOUND = 3"
| "stat_code CONNECTED = 4"
| "stat_code REQ_CLOSE = 5"
| "stat_code DISCONNECTED = 6"
| "stat_code CLOSED = 7"

lemma stat_code_inject [simp]: "stat_code s = stat_code t \<longleftrightarrow> s = t"
  by (cases s; cases t) simp_all

instantiation context_stat :: linorder
begin

definition less_eq_context_stat :: "context_stat \<Rightarrow> context_stat \<Rightarrow> bool" where
  "less_eq_context_stat s t \<longleftrightarrow> stat_code s \<le> stat_code t"

definition less_context_stat :: "context_stat \<Rightarrow> context_stat \<Rightarrow> bool" where
  "less_context_stat s t \<longleftrightarrow> stat_code s < stat_code t"

instance
  by standard (auto simp: less_eq_context_stat_def less_context_stat_def)

end

lemmas stat_order = less_eq_context_stat_def less_context_stat_def

lemma stat_le_CLOSED [simp]: "s \<le> CLOSED"
  by (cases s) (simp_all add: stat_order)

text \<open>The states of a service, of \<open>service_base.h\<close>.\<close>

datatype service_stat = SERVICE_CREATED | SERVICE_RUNNING | SERVICE_REQ_STOP | SERVICE_STOPPED

section \<open>Tasks in progress\<close>

type_synonym channel_task = u8

definition T_NONE :: channel_task where "T_NONE = 0"
definition T_CONNECT :: channel_task where "T_CONNECT = push_bit 0 1"
definition T_HANDSHAKE :: channel_task where "T_HANDSHAKE = push_bit 1 1"
definition T_READ :: channel_task where "T_READ = push_bit 2 1"
definition T_WRITE :: channel_task where "T_WRITE = push_bit 3 1"
definition T_SHUTDOWN :: channel_task where "T_SHUTDOWN = push_bit 4 1"
definition T_BUSY :: channel_task where "T_BUSY = T_CONNECT OR T_HANDSHAKE OR T_READ OR T_WRITE"

record context_base =
  done_flag :: bool
  connected_flag :: bool
  tasks :: channel_task
  stat :: context_stat

definition context_new :: context_base where
  "context_new = \<lparr>done_flag = False, connected_flag = False, tasks = T_NONE, stat = CREATED\<rparr>"

definition set_task_in_progress :: "channel_task \<Rightarrow> 'a context_base_scheme \<Rightarrow> 'a context_base_scheme" where
  "set_task_in_progress task c = c\<lparr>tasks := tasks c OR task\<rparr>"

definition clear_task_in_progress :: "channel_task \<Rightarrow> 'a context_base_scheme \<Rightarrow> 'a context_base_scheme" where
  "clear_task_in_progress task c = c\<lparr>tasks := tasks c AND (NOT task)\<rparr>"

definition is_task_in_progress :: "channel_task \<Rightarrow> 'a context_base_scheme \<Rightarrow> bool" where
  "is_task_in_progress task c \<longleftrightarrow> tasks c OR task \<noteq> 0"

definition is_channel_busy :: "'a context_base_scheme \<Rightarrow> bool" where
  "is_channel_busy c \<longleftrightarrow> tasks c AND T_BUSY \<noteq> 0"

definition settable_stat :: "context_stat \<Rightarrow> 'a context_base_scheme \<Rightarrow> bool" where
  "settable_stat s c \<longleftrightarrow> stat c < s"

definition set_stat :: "context_stat \<Rightarrow> 'a context_base_scheme \<Rightarrow> 'a context_base_scheme" where
  "set_stat s c = c\<lparr>stat := s\<rparr>"

definition set_connected :: "bool \<Rightarrow> 'a context_base_scheme \<Rightarrow> 'a context_base_scheme" where
  "set_connected b c = c\<lparr>connected_flag := b\<rparr>"

definition set_done :: "bool \<Rightarrow> 'a context_base_scheme \<Rightarrow> 'a context_base_scheme" where
  "set_done b c = c\<lparr>done_flag := b\<rparr>"

lemmas context_simps = set_stat_def set_connected_def set_done_def set_task_in_progress_def clear_task_in_progress_def

section \<open>The bits\<close>

text \<open>Whether one of the five tasks, by its bit number, is in progress.\<close>

definition in_progress :: "nat \<Rightarrow> 'a context_base_scheme \<Rightarrow> bool" where
  "in_progress k c \<longleftrightarrow> bit (tasks c) k"

definition task_bit :: "nat \<Rightarrow> channel_task" where
  "task_bit k = push_bit k 1"

lemma task_bits:
  "T_CONNECT = task_bit 0" "T_HANDSHAKE = task_bit 1" "T_READ = task_bit 2" "T_WRITE = task_bit 3" "T_SHUTDOWN = task_bit 4"
  by (simp_all add: T_CONNECT_def T_HANDSHAKE_def T_READ_def T_WRITE_def T_SHUTDOWN_def task_bit_def)

lemma bit_task: "bit (task_bit k) j \<longleftrightarrow> j = k \<and> k < 8"
  by (auto simp: task_bit_def bit_exp_iff)

lemma in_progress_set: "k < 8 \<Longrightarrow> in_progress j (set_task_in_progress (task_bit k) c) \<longleftrightarrow> j = k \<or> in_progress j c"
  by (auto simp: in_progress_def set_task_in_progress_def bit_or_iff bit_task)

lemma in_progress_clear: "in_progress j (clear_task_in_progress (task_bit k) c) \<longleftrightarrow> j \<noteq> k \<and> in_progress j c"
  by (auto simp: in_progress_def clear_task_in_progress_def bit_and_iff bit_not_iff bit_task dest: bit_imp_le_length)

lemmas in_progress_tasks [simp] =
  in_progress_set [of 2, folded task_bits, simplified] in_progress_set [of 3, folded task_bits, simplified]
  in_progress_clear [of _ 2, folded task_bits] in_progress_clear [of _ 3, folded task_bits]
  in_progress_clear [of _ 4, folded task_bits]

lemma word_eq_0_bits: "(w :: channel_task) = 0 \<longleftrightarrow> (\<forall>k < 8. \<not> bit w k)"
  by (auto simp: bit_eq_iff bit_imp_le_length dest: bit_imp_le_length)

lemma busy_bits: "is_channel_busy c \<longleftrightarrow> (\<exists>k < 4. in_progress k c)"
proof -
  have "bit T_BUSY k \<longleftrightarrow> k < 4" for k
    by (auto simp: T_BUSY_def task_bits bit_or_iff bit_task)
  then have "is_channel_busy c \<longleftrightarrow> (\<exists>k < 8. bit (tasks c) k \<and> k < 4)"
    by (simp add: is_channel_busy_def word_eq_0_bits bit_and_iff)
  moreover have "k < 4 \<Longrightarrow> k < 8" for k :: nat by simp
  ultimately show ?thesis by (auto simp only: in_progress_def)
qed

text \<open>Bookkeeping of the tasks in progress. Setting or clearing a task changes that task only; a
  channel is busy exactly when a connect, handshake, read or write is in progress; but
  \<open>is_task_in_progress\<close> answers true for each of the five tasks whether it is in progress or not.\<close>

theorem task_bookkeeping:
  assumes "task = [T_CONNECT, T_HANDSHAKE, T_READ, T_WRITE, T_SHUTDOWN] ! k" and "k < 5"
  shows "in_progress j (set_task_in_progress task c) = (j = k \<or> in_progress j c) \<and>
    in_progress j (clear_task_in_progress task c) = (j \<noteq> k \<and> in_progress j c) \<and>
    is_channel_busy c = (\<exists>i < 4. in_progress i c) \<and>
    is_task_in_progress task c"
proof -
  have task: "task = task_bit k"
    using assms by (auto simp: task_bits less_Suc_eq eval_nat_numeral)
  have "bit (tasks c OR task_bit k) k" using assms(2) by (simp add: bit_or_iff bit_task)
  then have "is_task_in_progress (task_bit k) c" by (auto simp: is_task_in_progress_def)
  then show ?thesis using assms(2) by (simp add: task in_progress_set in_progress_clear busy_bits)
qed

theorem task_bookkeeping_witness:
  "in_progress 3 (set_task_in_progress T_READ context_new) = ((3 :: nat) = 2 \<or> in_progress 3 context_new) \<and>
    in_progress 3 (clear_task_in_progress T_READ context_new) = ((3 :: nat) \<noteq> 2 \<and> in_progress 3 context_new) \<and>
    is_channel_busy context_new = (\<exists>i < 4. in_progress i context_new) \<and>
    is_task_in_progress T_READ context_new"
  using task_bookkeeping [of T_READ 2 3 context_new] by simp

end
