(* ===== verification/Channel_Context.thy ===== *)
theory Channel_Context
  imports Net_Context
begin

text \<open>
  \<open>channel_context<Protocol>\<close> of \<open>channel_context.h\<close> with the channels it works on: \<open>tcp_channel_base.h\<close>,
  \<open>tcp_channel.h\<close>, \<open>ssl_channel.h\<close> and \<open>udp_channel.h\<close>, the contexts \<open>tcp_channel_context.h\<close> and
  \<open>ssl_channel_context.h\<close>, the addresses of \<open>ip_port.h\<close>, and the calls that \<open>service_base.h\<close> offers the
  application, all under \<open>src/include/shan/net/\<close>.

  Everything here runs in the channel's strand, one callback at a time; the state is the context with
  its channel, the operations handed to asio that have not completed, and the functions posted to the
  strand. The library asio is what may happen next: an outstanding operation completes, with success or
  an error, at any time. The handlers of the application are a parameter: for every callback the calls
  they make on the context, and whether they throw. Of the read buffer only the number of unread bytes
  is kept; \<open>Streambuf\<close> is about the buffer itself. Of an exception's text the \<open>what()\<close> of the
  handler's exception is left out. \<open>events\<close>, \<open>accepted\<close> and \<open>finished\<close> are records and not part of
  the program. The virtual functions of the three kinds of channel are chosen by \<open>protocol\<close>.
\<close>

section \<open>State\<close>

datatype protocol = Tcp | Tls | Udp

datatype ip = V4 | V6

text \<open>An address of asio is a number here, and the unspecified one is zero.\<close>

record ip_port =
  host :: nat
  portnum :: u16

definition ip_port_default :: ip_port where
  "ip_port_default = \<lparr>host = 0, portnum = 0\<rparr>"

definition ip_port_of :: "(string \<Rightarrow> nat option) \<Rightarrow> string \<Rightarrow> u16 \<Rightarrow> ip_port option" where
  "ip_port_of from_string ip_str p =
     (if length ip_str > 0 then map_option (\<lambda>a. \<lparr>host = a, portnum = p\<rparr>) (from_string ip_str)
      else Some \<lparr>host = 0, portnum = p\<rparr>)"

definition is_valid :: "ip_port \<Rightarrow> bool" where
  "is_valid p \<longleftrightarrow> host p \<noteq> 0"

text \<open>What \<open>object_ptr\<close> points to: a stream buffer with its bytes, or something else.\<close>

datatype net_object = Buffer "u8 list" | Other nat

datatype callback =
    Channel_created
  | Channel_bound
  | Channel_connected
  | Channel_read
  | Channel_rdbuf_empty
  | Channel_read_from ip_port
  | Channel_write net_object
  | Channel_written nat
  | Channel_disconnected
  | User_event int
  | Exception_caught string

text \<open>The functions posted to the strand. The first five begin the life of a channel: accepted by a server,
  connected by a client to a resolved address or to a name, and bound to a local port, with a remote name or
  not, or with a remote address that may be unspecified.\<close>

datatype posted =
    Post_accepted
  | Post_connect
  | Post_resolve
  | Post_bind_name u16 ip bool
  | Post_bind_address u16 ip ip_port
  | Post_start_connect
  | Post_write net_object
  | Post_write_to net_object ip_port
  | Post_close
  | Post_exception string
  | Post_user_event int

text \<open>An element of the queue of buffers to write, which is a datagram with its destination for UDP and
  only a buffer for TCP, where the destination stays unspecified; and a write handed to asio.\<close>

record message =
  payload :: "u8 list"
  destination :: ip_port

datatype write_operation = Send "u8 list" | Send_to "u8 list" ip_port

record channel = context_base +
  kind :: protocol
  socket_open :: bool
  registered :: bool
  service_running :: bool
  unread :: nat
  resolves :: nat
  connects :: nat
  handshakes :: nat
  shutdowns :: nat
  reads :: nat
  write_queue :: "message list"
  writes :: "write_operation list"
  posts :: "posted list"
  events :: "callback list"
  accepted :: "message list"
  finished :: "message list"

definition channel_new :: "protocol \<Rightarrow> posted list \<Rightarrow> bool \<Rightarrow> bool \<Rightarrow> channel" where
  "channel_new k ps connected_socket in_service = context_base.extend context_new
     \<lparr>kind = k, socket_open = connected_socket, registered = in_service, service_running = True, unread = 0,
       resolves = 0, connects = 0, handshakes = 0, shutdowns = 0, reads = 0, write_queue = [], writes = [],
       posts = ps, events = [], accepted = [], finished = []\<rparr>"

definition not_running_error :: string where
  "not_running_error = ''the service is not running.''"

text \<open>A channel handler: given the callback and everything that happened before, its calls on the
  context and whether it throws in the end; \<open>channel_write\<close> may also replace the object, before it
  returns or throws.\<close>

datatype request = Ask_write net_object | Ask_write_to net_object ip_port | Ask_close | Ask_done | Ask_consume nat | Ask_event int

record channel_handler =
  react :: "callback \<Rightarrow> channel \<Rightarrow> request list \<times> bool"
  encode :: "net_object \<Rightarrow> bool \<Rightarrow> net_object"

section \<open>Calls of the application\<close>

definition post :: "posted \<Rightarrow> channel \<Rightarrow> channel" where
  "post p c = c\<lparr>posts := posts c @ [p]\<rparr>"

definition fire_exception_caught :: "string \<Rightarrow> channel \<Rightarrow> channel" where
  "fire_exception_caught what c = post (Post_exception what) c"

definition fire_user_event :: "int \<Rightarrow> channel \<Rightarrow> channel" where
  "fire_user_event i c = post (Post_user_event i) c"

definition fire_channel_write :: "net_object \<Rightarrow> channel \<Rightarrow> channel" where
  "fire_channel_write obj c = post (Post_write obj) c"

definition fire_channel_close :: "channel \<Rightarrow> channel" where
  "fire_channel_close c =
     (if OPEN \<le> stat c \<and> stat c < REQ_CLOSE then post Post_close (set_stat REQ_CLOSE c) else c)"

text \<open>\<open>write_channel\<close>, \<open>close_channel\<close> and \<open>fire_user_event_channel\<close> of the service look the context
  up first; the second component says that an exception is thrown.\<close>

definition write_channel :: "net_object \<Rightarrow> channel \<Rightarrow> channel \<times> bool" where
  "write_channel obj c =
     (if service_running c \<and> registered c then (fire_channel_write obj c, False) else (c, True))"

definition write_channel_to :: "ip_port \<Rightarrow> net_object \<Rightarrow> channel \<Rightarrow> channel \<times> bool" where
  "write_channel_to dest obj c =
     (if service_running c \<and> registered c then (post (Post_write_to obj dest) c, False) else (c, True))"

definition close_channel :: "channel \<Rightarrow> channel" where
  "close_channel c = (if registered c then fire_channel_close c else c)"

definition fire_user_event_channel :: "int \<Rightarrow> channel \<Rightarrow> channel" where
  "fire_user_event_channel i c = (if registered c then fire_user_event i c else c)"

text \<open>Only the context of a UDP channel has \<open>write_to\<close>.\<close>

fun perform :: "request list \<Rightarrow> channel \<Rightarrow> channel \<times> bool" where
  "perform [] c = (c, False)"
| "perform (Ask_write obj # rs) c =
     (let (c, threw) = write_channel obj c in if threw then (c, True) else perform rs c)"
| "perform (Ask_write_to obj dest # rs) c =
     (if kind c \<noteq> Udp then perform rs c
      else let (c, threw) = write_channel_to dest obj c in if threw then (c, True) else perform rs c)"
| "perform (Ask_close # rs) c = perform rs (close_channel c)"
| "perform (Ask_done # rs) c = perform rs (set_done True c)"
| "perform (Ask_consume n # rs) c = perform rs (c\<lparr>unread := unread c - n\<rparr>)"
| "perform (Ask_event i # rs) c = perform rs (fire_user_event i c)"

definition call_handler :: "channel_handler \<Rightarrow> callback \<Rightarrow> channel \<Rightarrow> channel \<times> bool" where
  "call_handler h cb c = (let (rs, throws) = react h cb c; (c, threw) = perform rs c in (c, threw \<or> throws))"

text \<open>\<open>for (it = begin ; !done() && (it != end) ; it++) (*it)->...\<close>\<close>

fun call_handlers :: "channel_handler list \<Rightarrow> callback \<Rightarrow> channel \<Rightarrow> channel \<times> bool" where
  "call_handlers [] cb c = (c, False)"
| "call_handlers (h # hs) cb c =
     (if done_flag c then (c, False)
      else let (c, threw) = call_handler h cb c in if threw then (c, True) else call_handlers hs cb c)"

fun call_channel_write_handler :: "channel_handler list \<Rightarrow> net_object \<Rightarrow> channel \<Rightarrow> net_object \<times> channel \<times> bool" where
  "call_channel_write_handler [] obj c = (obj, c, False)"
| "call_channel_write_handler (h # hs) obj c =
     (if done_flag c then (obj, c, False)
      else
        let (c, threw) = call_handler h (Channel_write obj) c in
        if threw then (encode h obj True, c, True) else call_channel_write_handler hs (encode h obj False) c)"

text \<open>Resetting \<open>done\<close>, calling the handlers, and reporting what they throw.\<close>

definition handler_failed :: "string \<Rightarrow> string" where
  "handler_failed which = ''An exception has thrown in '' @ which @ '' handler.''"

definition fire :: "channel_handler list \<Rightarrow> string \<Rightarrow> callback \<Rightarrow> channel \<Rightarrow> channel" where
  "fire hs which cb c =
     (let (c, threw) = call_handlers hs cb (c\<lparr>events := events c @ [cb]\<rparr>) in
      if threw then fire_exception_caught (handler_failed which) c else c)"

definition reset_and_fire :: "channel_handler list \<Rightarrow> string \<Rightarrow> callback \<Rightarrow> channel \<Rightarrow> channel" where
  "reset_and_fire hs which cb c = fire hs which cb (set_done False c)"

section \<open>The channel\<close>

definition start_read :: "channel \<Rightarrow> channel" where
  "start_read c = c\<lparr>reads := reads c + 1\<rparr>"

definition issue_write :: "write_operation \<Rightarrow> channel \<Rightarrow> channel" where
  "issue_write w c = c\<lparr>writes := writes c @ [w]\<rparr>"

text \<open>\<open>push_back\<close>, and a write when the queue was empty.\<close>

definition push_message :: "message \<Rightarrow> write_operation \<Rightarrow> channel \<Rightarrow> channel" where
  "push_message m w c =
     (let c = c\<lparr>write_queue := write_queue c @ [m], accepted := accepted c @ [m]\<rparr> in
      if length (write_queue c) = 1 then issue_write w c else c)"

definition write_streambuf :: "u8 list \<Rightarrow> channel \<Rightarrow> channel" where
  "write_streambuf b c = push_message \<lparr>payload = b, destination = ip_port_default\<rparr> (Send b) c"

definition write_streambuf_to :: "u8 list \<Rightarrow> ip_port \<Rightarrow> channel \<Rightarrow> channel" where
  "write_streambuf_to b dest c = push_message \<lparr>payload = b, destination = dest\<rparr> (Send_to b dest) c"

text \<open>\<open>front\<close> and \<open>pop_front\<close> are only reached with a queue that is not empty, as is shown below. For TCP the
  destination is never valid.\<close>

definition write_operation_of :: "message \<Rightarrow> write_operation" where
  "write_operation_of m = (if is_valid (destination m) then Send_to (payload m) (destination m) else Send (payload m))"

definition write_next_streambuf :: "channel \<Rightarrow> channel" where
  "write_next_streambuf c = issue_write (write_operation_of (hd (write_queue c))) c"

definition remove_sent_data :: "channel \<Rightarrow> channel" where
  "remove_sent_data c = c\<lparr>write_queue := tl (write_queue c), finished := finished c @ [hd (write_queue c)]\<rparr>"

definition has_data_to_write :: "channel \<Rightarrow> bool" where
  "has_data_to_write c \<longleftrightarrow> write_queue c \<noteq> []"

definition close_socket :: "channel \<Rightarrow> channel" where
  "close_socket c = (if socket_open c then c\<lparr>socket_open := False\<rparr> else c)"

definition close_immediately :: "channel \<Rightarrow> channel" where
  "close_immediately c = close_socket (set_stat CLOSED c)"

definition close_without_shutdown :: "channel \<Rightarrow> channel" where
  "close_without_shutdown c = close_socket (set_stat CLOSED c)"

text \<open>Connecting opens the socket if it is closed.\<close>

definition start_connect :: "channel \<Rightarrow> channel" where
  "start_connect c = c\<lparr>connects := connects c + 1, socket_open := True\<rparr>"

definition start_handshake :: "channel \<Rightarrow> channel" where
  "start_handshake c = c\<lparr>handshakes := handshakes c + 1\<rparr>"

section \<open>Callbacks\<close>

definition call_channel_created :: "channel_handler list \<Rightarrow> channel \<Rightarrow> channel" where
  "call_channel_created hs c = reset_and_fire hs ''channel_created'' Channel_created c"

definition call_channel_disconnected :: "channel_handler list \<Rightarrow> channel \<Rightarrow> channel" where
  "call_channel_disconnected hs c =
     (let c = (if connected_flag c then
                 let c = set_connected False c;
                     c = (if settable_stat DISCONNECTED c then set_stat DISCONNECTED c else c)
                 in reset_and_fire hs ''channel_disconnected'' Channel_disconnected c
               else c)
      in if settable_stat CLOSED c then close_immediately c else c)"

definition erase_context :: "channel \<Rightarrow> channel" where
  "erase_context c = c\<lparr>registered := False\<rparr>"

definition shutdown_complete :: "channel_handler list \<Rightarrow> channel \<Rightarrow> channel" where
  "shutdown_complete hs c =
     (let c = close_without_shutdown (clear_task_in_progress T_SHUTDOWN c) in
      if connected_flag c then erase_context (call_channel_disconnected hs c) else c)"

text \<open>The shutdown handler of a plain channel is wrapped in the strand it is called from, so it runs at
  once; with TLS it is called when the shutdown has completed.\<close>

definition ssl_close_gracefully :: "channel \<Rightarrow> channel" where
  "ssl_close_gracefully c =
     (let c = set_stat CLOSED c in if socket_open c then c\<lparr>shutdowns := shutdowns c + 1\<rparr> else c)"

text \<open>The contexts of plain TCP and of UDP close alike.\<close>

definition close_at_once :: "channel_handler list \<Rightarrow> channel \<Rightarrow> channel" where
  "close_at_once hs c = shutdown_complete hs (close_socket (set_stat CLOSED c))"

definition close_gracefully :: "channel_handler list \<Rightarrow> channel \<Rightarrow> channel" where
  "close_gracefully hs c = (if kind c = Tls then ssl_close_gracefully c else close_at_once hs c)"

definition handle_req_close :: "channel_handler list \<Rightarrow> channel \<Rightarrow> channel" where
  "handle_req_close hs c = (if stat c = REQ_CLOSE \<and> \<not> is_channel_busy c then close_gracefully hs c else c)"

definition read_if_connected :: "channel \<Rightarrow> channel" where
  "read_if_connected c = (if stat c = CONNECTED then start_read (set_task_in_progress T_READ c) else c)"

definition call_channel_connected :: "channel_handler list \<Rightarrow> channel \<Rightarrow> channel" where
  "call_channel_connected hs c =
     (if \<not> settable_stat CONNECTED c then c
      else
        let c = set_connected True (set_stat CONNECTED c);
            c = reset_and_fire hs ''channel_connected'' Channel_connected c
        in handle_req_close hs (read_if_connected c))"

subsection \<open>What handlers can change\<close>

text \<open>Handlers post to the strand, set \<open>done\<close>, use up unread bytes, and may request the close.\<close>

fun begins :: "posted \<Rightarrow> bool" where
  "begins Post_accepted = True"
| "begins Post_connect = True"
| "begins Post_resolve = True"
| "begins (Post_bind_name lp v remote) = True"
| "begins (Post_bind_address lp v dest) = True"
| "begins _ = False"

definition starts :: "posted \<Rightarrow> bool" where
  "starts p \<longleftrightarrow> begins p \<or> p = Post_start_connect"

lemma starts_simps [simp]:
  "starts Post_accepted" "starts Post_connect" "starts Post_resolve" "starts (Post_bind_name lp v remote)"
  "starts (Post_bind_address lp v dest)" "starts Post_start_connect"
  "\<not> starts (Post_write obj)" "\<not> starts (Post_write_to obj dest)" "\<not> starts Post_close" "\<not> starts (Post_exception what)" "\<not> starts (Post_user_event i)"
  by (simp_all add: starts_def)

definition posts_grow :: "channel \<Rightarrow> channel \<Rightarrow> bool" where
  "posts_grow c c' \<longleftrightarrow>
     (\<exists>ps. posts c' = posts c @ ps \<and> (\<forall>p \<in> set ps. \<not> starts p \<and> (p = Post_close \<longrightarrow> stat c < REQ_CLOSE)))"

definition handler_effect :: "channel \<Rightarrow> channel \<Rightarrow> bool" where
  "handler_effect c c' \<longleftrightarrow>
     posts_grow c c' \<and>
     connected_flag c' = connected_flag c \<and> tasks c' = tasks c \<and> socket_open c' = socket_open c \<and>
     kind c' = kind c \<and> resolves c' = resolves c \<and> connects c' = connects c \<and>
     handshakes c' = handshakes c \<and> shutdowns c' = shutdowns c \<and> registered c' = registered c \<and> service_running c' = service_running c \<and> reads c' = reads c \<and>
     write_queue c' = write_queue c \<and> writes c' = writes c \<and> events c' = events c \<and>
     accepted c' = accepted c \<and> finished c' = finished c \<and> unread c' \<le> unread c \<and>
     (stat c' = stat c \<or> OPEN \<le> stat c \<and> stat c < REQ_CLOSE \<and> stat c' = REQ_CLOSE \<and> Post_close \<in> set (posts c'))"

lemma posts_grow_refl [simp]: "posts c' = posts c \<Longrightarrow> posts_grow c c'"
  by (simp add: posts_grow_def)

lemma posts_grow_post [simp]: "\<not> starts p \<Longrightarrow> p \<noteq> Post_close \<Longrightarrow> posts_grow c (post p c)"
  by (simp add: posts_grow_def post_def)

lemma posts_grow_trans:
  assumes "posts_grow a b" and "posts_grow b c" and "stat a \<le> stat b"
  shows "posts_grow a c"
proof -
  have "stat b < REQ_CLOSE \<Longrightarrow> stat a < REQ_CLOSE" using assms(3) by (rule order_le_less_trans)
  then show ?thesis using assms(1,2) unfolding posts_grow_def by (elim exE conjE) (rule exI, auto simp: ball_Un)
qed

lemma posts_grow_mem: "posts_grow c c' \<Longrightarrow> p \<in> set (posts c) \<Longrightarrow> p \<in> set (posts c')"
  by (auto simp: posts_grow_def)

lemma handler_effect_refl: "handler_effect c c"
  by (simp add: handler_effect_def)

lemma effect_stat: "handler_effect c c' \<Longrightarrow> stat c \<le> stat c'"
  by (auto simp: handler_effect_def)

lemma handler_effect_trans: "handler_effect a b \<Longrightarrow> handler_effect b c \<Longrightarrow> handler_effect a c"
  using posts_grow_trans [of a b c, OF _ _ effect_stat] by (auto simp: handler_effect_def posts_grow_mem)

lemma handler_effect_step:
  "\<not> starts p \<Longrightarrow> p \<noteq> Post_close \<Longrightarrow> handler_effect c (post p c)" "handler_effect c (set_done d c)" "handler_effect c (c\<lparr>unread := unread c - n\<rparr>)"
  "handler_effect c (fire_channel_close c)"
  by (simp_all add: handler_effect_def fire_channel_close_def post_def context_simps posts_grow_def)

lemma perform_effect: "handler_effect c (fst (perform rs c))"
proof (induction rs arbitrary: c)
  case (Cons r rs)
  show ?case
  proof (cases r)
    case (Ask_write obj)
    then show ?thesis
      using handler_effect_trans [OF handler_effect_step(1) Cons.IH] handler_effect_refl
      by (auto simp: write_channel_def fire_channel_write_def)
  next
    case (Ask_write_to obj dest)
    then show ?thesis
      using handler_effect_trans [OF handler_effect_step(1) Cons.IH] handler_effect_refl Cons.IH
      by (auto simp: write_channel_to_def)
  next
    case Ask_close
    then show ?thesis
      using handler_effect_trans [OF handler_effect_step(4) Cons.IH] Cons.IH by (auto simp: close_channel_def)
  next
    case Ask_done
    then show ?thesis using handler_effect_trans [OF handler_effect_step(2) Cons.IH] by simp
  next
    case (Ask_consume n)
    then show ?thesis using handler_effect_trans [OF handler_effect_step(3) Cons.IH] by simp
  next
    case (Ask_event i)
    then show ?thesis
      using handler_effect_trans [OF handler_effect_step(1) Cons.IH] by (simp add: fire_user_event_def)
  qed
qed (simp add: handler_effect_refl)

lemma call_handler_effect: "handler_effect c (fst (call_handler h cb c))"
  using perform_effect [of c "fst (react h cb c)"] by (simp add: call_handler_def split_beta)

lemma call_handlers_effect: "handler_effect c (fst (call_handlers hs cb c))"
proof (induction hs arbitrary: c)
  case (Cons h hs)
  then show ?case
    using handler_effect_trans [OF call_handler_effect Cons.IH] call_handler_effect [of c h cb]
    by (auto simp: split_beta Let_def handler_effect_refl)
qed (simp add: handler_effect_refl)

lemma call_channel_write_handler_effect: "handler_effect c (fst (snd (call_channel_write_handler hs obj c)))"
proof (induction hs arbitrary: obj c)
  case (Cons h hs)
  then show ?case
    using handler_effect_trans [OF call_handler_effect Cons.IH] call_handler_effect [of c h "Channel_write obj"]
    by (auto simp: split_beta Let_def handler_effect_refl)
qed (simp add: handler_effect_refl)

lemma fire_effect: "handler_effect (c\<lparr>events := events c @ [cb]\<rparr>) (fire hs which cb c)"
  using call_handlers_effect [of "c\<lparr>events := events c @ [cb]\<rparr>" hs cb]
    handler_effect_trans [OF call_handlers_effect handler_effect_step(1)]
  by (simp add: fire_def split_beta fire_exception_caught_def)

lemma handler_effectD:
  assumes "handler_effect c c'"
  shows "connected_flag c' = connected_flag c" "tasks c' = tasks c" "socket_open c' = socket_open c"
    "registered c' = registered c" "reads c' = reads c" "write_queue c' = write_queue c" "writes c' = writes c"
    "events c' = events c" "accepted c' = accepted c" "finished c' = finished c" "unread c' \<le> unread c"
    "stat c' = stat c \<or> OPEN \<le> stat c \<and> stat c < REQ_CLOSE \<and> stat c' = REQ_CLOSE" "kind c' = kind c"
    "Post_close \<in> set (posts c') \<Longrightarrow> Post_close \<in> set (posts c) \<or> stat c < REQ_CLOSE"
    "stat c' = REQ_CLOSE \<Longrightarrow> stat c = REQ_CLOSE \<or> Post_close \<in> set (posts c')"
  using assms by (auto simp: handler_effect_def posts_grow_def)

lemma fire_unread: "unread (fire hs which cb c) \<le> unread c"
  using handler_effectD(11) [OF fire_effect [of c cb hs which]] by simp

subsection \<open>Writing\<close>

definition call_channel_written :: "channel_handler list \<Rightarrow> nat \<Rightarrow> channel \<Rightarrow> channel" where
  "call_channel_written hs bytes_transferred c =
     (let c = (if stat c = BOUND \<or> stat c = CONNECTED
               then reset_and_fire hs ''channel_written'' (Channel_written bytes_transferred) c else c)
      in if (stat c = BOUND \<or> stat c = CONNECTED) \<and> has_data_to_write c
         then write_next_streambuf (set_task_in_progress T_WRITE c) else c)"

text \<open>\<open>fire_channel_write\<close> and, for a datagram with its destination, \<open>fire_channel_write_to\<close> of
  \<open>udp_channel_context.h\<close>: \<open>write\<close> is what they do with the buffer.\<close>

definition write_with :: "(u8 list \<Rightarrow> channel \<Rightarrow> channel) \<Rightarrow> channel_handler list \<Rightarrow> net_object \<Rightarrow> channel \<Rightarrow> channel" where
  "write_with write hs obj c =
     (let (obj', c, threw) = call_channel_write_handler hs obj
            ((set_done False c)\<lparr>events := events c @ [Channel_write obj]\<rparr>);
          c = (if threw then fire_exception_caught (handler_failed ''channel_write'') c else c)
      in case obj' of
           Buffer b \<Rightarrow>
             if stat c = BOUND \<or> stat c = CONNECTED then write b (set_task_in_progress T_WRITE c)
             else fire_exception_caught ''The status of the channel is not suitable for sending data.'' c
         | Other n \<Rightarrow> fire_exception_caught ''The object to be transferred was not serialized to streambuf.'' c)"

definition run_write :: "channel_handler list \<Rightarrow> net_object \<Rightarrow> channel \<Rightarrow> channel" where
  "run_write hs obj c = write_with write_streambuf hs obj c"

definition run_write_to :: "channel_handler list \<Rightarrow> net_object \<Rightarrow> ip_port \<Rightarrow> channel \<Rightarrow> channel" where
  "run_write_to hs obj dest c = write_with (\<lambda>b. write_streambuf_to b dest) hs obj c"

text \<open>\<open>cancel_all\<close> makes the outstanding operations complete, which they may do at any time here.\<close>

definition run_close :: "channel_handler list \<Rightarrow> channel \<Rightarrow> channel" where
  "run_close hs c = (if stat c = REQ_CLOSE \<and> \<not> is_channel_busy c then close_gracefully hs c else c)"

end
