(* ===== verification/Tcp_Channel.thy ===== *)
theory Tcp_Channel
  imports Channel_Context
begin

text \<open>
  What is particular to TCP channels, plain or with TLS: reading (\<open>tcp_channel_context_base.h\<close>), and how clients and
  servers bring a channel up (\<open>tcp_client_base.h\<close>, \<open>tcp_client.h\<close>, \<open>tcp_server.h\<close>, \<open>ssl_client.h\<close>,
  \<open>ssl_server.h\<close>), all under \<open>src/include/shan/net/\<close>.
\<close>

text \<open>\<open>new_channel_accepted\<close> of the servers, and the two \<open>connect\<close> of the clients, which throw when the service is
  not running; a client enters the context among the contexts of the service only when it is connected.\<close>

definition tcp_kind :: "bool \<Rightarrow> protocol" where
  "tcp_kind ssl = (if ssl then Tls else Tcp)"

definition new_channel_accepted :: "bool \<Rightarrow> channel" where
  "new_channel_accepted ssl = channel_new (tcp_kind ssl) [Post_accepted] True True"

definition connect_address :: "bool \<Rightarrow> bool \<Rightarrow> string + channel" where
  "connect_address running ssl =
     (if running then Inr (channel_new (tcp_kind ssl) [Post_connect] False False) else Inl not_running_error)"

definition connect_name :: "bool \<Rightarrow> bool \<Rightarrow> string + channel" where
  "connect_name running ssl =
     (if running then Inr (channel_new (tcp_kind ssl) [Post_resolve] False False) else Inl not_running_error)"

section \<open>Reading\<close>

text \<open>The \<open>do ... while\<close> of \<open>call_channel_read\<close>: once more while the handlers used data and some is left.\<close>

function read_loop :: "channel_handler list \<Rightarrow> channel \<Rightarrow> channel" where
  "read_loop hs c =
     (let c' = fire hs ''channel_read'' Channel_read c in
      if unread c' = unread c then c' else if unread c' > 0 then read_loop hs c' else c')"
  by pat_completeness auto
termination
proof (relation "measure (\<lambda>(hs, c). unread c)")
  fix hs c c'
  assume "c' = fire hs ''channel_read'' Channel_read c" and "unread c' \<noteq> unread c"
  then show "((hs, c'), (hs, c)) \<in> measure (\<lambda>(hs, c). unread c)"
    using fire_unread [of hs "''channel_read''" Channel_read c] by simp
qed simp

declare read_loop.simps [simp del]

definition tcp_call_channel_read :: "channel_handler list \<Rightarrow> nat \<Rightarrow> channel \<Rightarrow> channel" where
  "tcp_call_channel_read hs bytes_transferred c =
     (let c = read_loop hs (set_done False (c\<lparr>unread := unread c + bytes_transferred\<rparr>));
          c = (if unread c = 0 \<and> stat c = CONNECTED
               then reset_and_fire hs ''channel_rdbuf_empty'' Channel_rdbuf_empty c else c)
      in read_if_connected c)"

section \<open>Coming up\<close>

text \<open>The lambdas of \<open>new_channel_accepted\<close> of \<open>tcp_server.h\<close> and \<open>ssl_server.h\<close> and of the two \<open>connect\<close>
  of \<open>tcp_client_base.h\<close>; \<open>connect\<close> of the context posts once more.\<close>

definition tcp_accepted :: "channel_handler list \<Rightarrow> channel \<Rightarrow> channel" where
  "tcp_accepted hs c = call_channel_connected hs (call_channel_created hs c)"

definition ssl_accepted :: "channel_handler list \<Rightarrow> channel \<Rightarrow> channel" where
  "ssl_accepted hs c = start_handshake (set_task_in_progress T_HANDSHAKE (call_channel_created hs c))"

definition run_accepted :: "channel_handler list \<Rightarrow> channel \<Rightarrow> channel" where
  "run_accepted hs c = (if kind c = Tls then ssl_accepted hs c else tcp_accepted hs c)"

definition run_connect :: "channel_handler list \<Rightarrow> channel \<Rightarrow> channel" where
  "run_connect hs c = post Post_start_connect (set_task_in_progress T_CONNECT (call_channel_created hs c))"

definition run_resolve :: "channel_handler list \<Rightarrow> channel \<Rightarrow> channel" where
  "run_resolve hs c = (let c = call_channel_created hs c in c\<lparr>resolves := resolves c + 1\<rparr>)"

text \<open>\<open>resolve_complete\<close> and \<open>connect_complete\<close> of the client. \<open>inserted\<close> is what \<open>emplace\<close> into the
  contexts of the service answers.\<close>

definition tcp_resolve_complete :: "bool \<Rightarrow> channel \<Rightarrow> channel" where
  "tcp_resolve_complete error c =
     (if error then fire_exception_caught ''fail to resolve address'' c
      else start_connect (set_task_in_progress T_CONNECT c))"

definition new_channel_connected :: "channel_handler list \<Rightarrow> channel \<Rightarrow> channel" where
  "new_channel_connected hs c =
     (if kind c = Tls then start_handshake (set_task_in_progress T_HANDSHAKE c) else call_channel_connected hs c)"

text \<open>\<open>handshake_complete\<close> of \<open>ssl_client.h\<close> and \<open>ssl_server.h\<close>, which are the same.\<close>

definition handshake_complete :: "channel_handler list \<Rightarrow> string option \<Rightarrow> channel \<Rightarrow> channel" where
  "handshake_complete hs error c =
     (let c = clear_task_in_progress T_HANDSHAKE c in
      case error of Some what \<Rightarrow> fire_exception_caught what c | None \<Rightarrow> call_channel_connected hs c)"

definition tcp_connect_complete :: "channel_handler list \<Rightarrow> string option \<Rightarrow> bool \<Rightarrow> channel \<Rightarrow> channel" where
  "tcp_connect_complete hs error inserted c =
     (let c = clear_task_in_progress T_CONNECT c in
      case error of
        Some what \<Rightarrow> fire_exception_caught what c
      | None \<Rightarrow>
          if \<not> inserted
          then close_immediately (fire_exception_caught ''critical error. duplicate id for new channel.'' c)
          else new_channel_connected hs (c\<lparr>registered := True\<rparr>))"

end
