(* ===== verification/Udp_Channel.thy ===== *)
theory Udp_Channel
  imports Channel_Context
begin

text \<open>
  What is particular to UDP channels: \<open>udp_channel_context.h\<close> and \<open>udp_service.h\<close> under
  \<open>src/include/shan/net/\<close>. Whether the operating system opens and binds a socket is an argument.
\<close>

section \<open>The service\<close>

text \<open>\<open>resolve\<close>: the endpoints found, of which the first is taken without looking at the error.\<close>

definition udp_resolve :: "bool \<Rightarrow> ip_port list \<Rightarrow> string + ip_port result" where
  "udp_resolve running found =
     (if running
      then Inr (case found of [] \<Rightarrow> Inl (Undefined Null_dereference) | ep # eps \<Rightarrow> Inr ep)
      else Inl not_running_error)"

text \<open>The two \<open>bind_connect\<close>: the context enters the service and the rest is posted; when it cannot be entered it is
  closed. \<open>inserted\<close> is what \<open>emplace\<close> into the contexts of the service answers.\<close>

definition udp_channel_new :: "posted list \<Rightarrow> channel" where
  "udp_channel_new ps = channel_new Udp ps False True"

definition bind_connect_refused :: channel where
  "bind_connect_refused =
     close_immediately (fire_exception_caught ''critical error. duplicate id for new channel.'' (channel_new Udp [] False False))"

definition bind_connect_name :: "bool \<Rightarrow> bool \<Rightarrow> u16 \<Rightarrow> string \<Rightarrow> u16 \<Rightarrow> ip \<Rightarrow> string + channel" where
  "bind_connect_name running inserted local_port remote_address remote_port v =
     (if running
      then Inr (if inserted
                then udp_channel_new [Post_bind_name local_port v (\<not> (length remote_address = 0 \<or> remote_port = 0))]
                else bind_connect_refused)
      else Inl not_running_error)"

definition bind_connect_address :: "bool \<Rightarrow> bool \<Rightarrow> u16 \<Rightarrow> ip_port \<Rightarrow> ip \<Rightarrow> string + channel" where
  "bind_connect_address running inserted local_port dest v =
     (if running
      then Inr (if inserted then udp_channel_new [Post_bind_address local_port v dest] else bind_connect_refused)
      else Inl not_running_error)"

section \<open>Reading\<close>

text \<open>What is left of a datagram is discarded, but only when no handler throws.\<close>

definition read_if_open :: "channel \<Rightarrow> channel" where
  "read_if_open c =
     (if stat c = BOUND \<or> stat c = CONNECTED then start_read (set_task_in_progress T_READ c) else c)"

definition udp_call_channel_read :: "channel_handler list \<Rightarrow> nat \<Rightarrow> ip_port \<Rightarrow> channel \<Rightarrow> channel" where
  "udp_call_channel_read hs bytes_transferred sender c =
     (let c = set_done False (c\<lparr>unread := unread c + bytes_transferred\<rparr>);
          (c, threw) = call_handlers hs (Channel_read_from sender) (c\<lparr>events := events c @ [Channel_read_from sender]\<rparr>);
          c = (if threw then fire_exception_caught (handler_failed ''channel_read_from'') c else c\<lparr>unread := 0\<rparr>)
      in read_if_open c)"

section \<open>Coming up\<close>

text \<open>The message names the wrong handler, as the source does.\<close>

definition call_channel_bound :: "channel_handler list \<Rightarrow> bool \<Rightarrow> channel \<Rightarrow> channel" where
  "call_channel_bound hs call_read c =
     (if \<not> settable_stat BOUND c then c
      else
        let c = reset_and_fire hs ''channel_connected'' Channel_bound (set_stat BOUND c)
        in if call_read \<and> stat c = BOUND then start_read (set_task_in_progress T_READ c) else c)"

text \<open>\<open>opens v\<close> and \<open>binds v w port\<close>: a socket of family \<open>v\<close> can be opened, and bound to a port of the unspecified
  address of family \<open>w\<close>. When they cannot, asio throws.\<close>

record os =
  opens :: "ip \<Rightarrow> bool"
  binds :: "ip \<Rightarrow> ip \<Rightarrow> u16 \<Rightarrow> bool"

definition open_channel :: "os \<Rightarrow> ip \<Rightarrow> channel \<Rightarrow> channel option" where
  "open_channel os v c =
     (if settable_stat OPEN c
      then if opens os v then Some (set_stat OPEN (c\<lparr>socket_open := True\<rparr>)) else None
      else Some c)"

text \<open>\<open>bind(local_port)\<close> leaves the second argument of \<open>bind\<close> at its default.\<close>

definition bind_channel :: "os \<Rightarrow> ip \<Rightarrow> u16 \<Rightarrow> channel \<Rightarrow> channel option" where
  "bind_channel os v local_port c = (if socket_open c \<and> binds os v V4 local_port then Some c else None)"

text \<open>\<open>None\<close>: the exception of \<open>open\<close> or \<open>bind\<close> leaves the lambda and with it the worker thread, which ends
  the program.\<close>

definition open_and_bind :: "os \<Rightarrow> channel_handler list \<Rightarrow> u16 \<Rightarrow> ip \<Rightarrow> channel \<Rightarrow> channel option" where
  "open_and_bind os hs local_port v c =
     Option.bind (open_channel os v (call_channel_created hs c)) (bind_channel os v local_port)"

definition run_bind_name :: "os \<Rightarrow> channel_handler list \<Rightarrow> u16 \<Rightarrow> ip \<Rightarrow> bool \<Rightarrow> channel \<Rightarrow> channel option" where
  "run_bind_name os hs local_port v remote c =
     map_option (\<lambda>c.
       if \<not> remote then call_channel_bound hs True c
       else let c = call_channel_bound hs False c in c\<lparr>resolves := resolves c + 1\<rparr>)
     (open_and_bind os hs local_port v c)"

definition run_bind_address :: "os \<Rightarrow> channel_handler list \<Rightarrow> u16 \<Rightarrow> ip \<Rightarrow> ip_port \<Rightarrow> channel \<Rightarrow> channel option" where
  "run_bind_address os hs local_port v dest c =
     map_option (\<lambda>c.
       if \<not> is_valid dest then call_channel_bound hs True c
       else post Post_start_connect (call_channel_bound hs False c))
     (open_and_bind os hs local_port v c)"

definition udp_resolve_complete :: "bool \<Rightarrow> channel \<Rightarrow> channel" where
  "udp_resolve_complete error c =
     (if error then erase_context (fire_exception_caught ''fail to resolve address'' c)
      else start_connect (set_task_in_progress T_CONNECT c))"

definition udp_connect_complete :: "channel_handler list \<Rightarrow> string option \<Rightarrow> channel \<Rightarrow> channel" where
  "udp_connect_complete hs error c =
     (let c = clear_task_in_progress T_CONNECT c in
      case error of
        Some what \<Rightarrow> erase_context (fire_exception_caught what c)
      | None \<Rightarrow> call_channel_connected hs c)"

end
