(* ===== verification/Channel.thy ===== *)
theory Channel
  imports Tcp_Channel Udp_Channel Transitions
begin

text \<open>
  The life of a channel: the virtual functions of the three kinds put together, the completion handlers of
  \<open>service_base.h\<close>, and everything that can happen to a channel next while the worker threads of its service run.
  The stop of the service, which ends this, is added in \<open>Channel_Stop\<close>. Shown here: the state of a context only moves
  forward.
\<close>

section \<open>Completions\<close>

definition call_channel_read :: "channel_handler list \<Rightarrow> nat \<Rightarrow> ip_port \<Rightarrow> channel \<Rightarrow> channel" where
  "call_channel_read hs bytes_transferred sender c =
     (if kind c = Udp then udp_call_channel_read hs bytes_transferred sender c
      else tcp_call_channel_read hs bytes_transferred c)"

text \<open>\<open>None\<close> is success; an error is silent (end of file, aborted, reset, shut down) or has a message.\<close>

datatype read_error = Silent_error | Loud_error string

definition read_complete :: "channel_handler list \<Rightarrow> read_error option \<Rightarrow> nat \<Rightarrow> ip_port \<Rightarrow> channel \<Rightarrow> channel" where
  "read_complete hs error bytes_transferred sender c =
     (let c = clear_task_in_progress T_READ c;
          c = (case error of
                 Some e \<Rightarrow>
                   let c = (case e of Silent_error \<Rightarrow> c | Loud_error what \<Rightarrow> fire_exception_caught what c)
                   in erase_context (call_channel_disconnected hs c)
               | None \<Rightarrow> call_channel_read hs bytes_transferred sender c)
      in handle_req_close hs c)"

definition write_complete :: "channel_handler list \<Rightarrow> string option \<Rightarrow> nat \<Rightarrow> channel \<Rightarrow> channel" where
  "write_complete hs error bytes_transferred c =
     (let c = remove_sent_data (clear_task_in_progress T_WRITE c);
          c = (case error of
                 Some what \<Rightarrow> fire_exception_caught what c
               | None \<Rightarrow> call_channel_written hs bytes_transferred c)
      in handle_req_close hs c)"

definition resolve_complete :: "bool \<Rightarrow> channel \<Rightarrow> channel" where
  "resolve_complete error c = (if kind c = Udp then udp_resolve_complete error c else tcp_resolve_complete error c)"

definition connect_complete :: "channel_handler list \<Rightarrow> string option \<Rightarrow> bool \<Rightarrow> channel \<Rightarrow> channel" where
  "connect_complete hs error inserted c =
     (if kind c = Udp then udp_connect_complete hs error c else tcp_connect_complete hs error inserted c)"

section \<open>Functions posted to the strand\<close>

text \<open>\<open>None\<close> is an exception that leaves the strand.\<close>

fun run_posted :: "os \<Rightarrow> channel_handler list \<Rightarrow> posted \<Rightarrow> channel \<Rightarrow> channel option" where
  "run_posted os hs Post_accepted c = Some (run_accepted hs c)"
| "run_posted os hs Post_connect c = Some (run_connect hs c)"
| "run_posted os hs Post_resolve c = Some (run_resolve hs c)"
| "run_posted os hs (Post_bind_name lp v remote) c = run_bind_name os hs lp v remote c"
| "run_posted os hs (Post_bind_address lp v dest) c = run_bind_address os hs lp v dest c"
| "run_posted os hs Post_start_connect c = Some (start_connect c)"
| "run_posted os hs (Post_write obj) c = Some (run_write hs obj c)"
| "run_posted os hs (Post_write_to obj dest) c = Some (run_write_to hs obj dest c)"
| "run_posted os hs Post_close c = Some (run_close hs c)"
| "run_posted os hs (Post_exception what) c =
     Some (reset_and_fire hs ''exception_caught'' (Exception_caught what) c)"
| "run_posted os hs (Post_user_event i) c = Some (reset_and_fire hs ''user_event'' (User_event i) c)"

section \<open>What can happen\<close>

text \<open>Of \<open>request_stop\<close> of the service a channel sees that it is no longer running. The workers go on until \<open>stop\<close> has
  stopped asio and joined them; only then \<open>_close_all_channel_immediately\<close> closes the contexts of the service.\<close>

definition request_stop :: "channel \<Rightarrow> channel" where
  "request_stop c = c\<lparr>service_running := False\<rparr>"

definition close_registered :: "channel \<Rightarrow> channel" where
  "close_registered c = (if registered c then erase_context (close_immediately c) else c)"

text \<open>The steps of a channel while the workers run.\<close>

definition sent_bytes :: "write_operation \<Rightarrow> nat" where
  "sent_bytes w = (case w of Send b \<Rightarrow> length b | Send_to b dest \<Rightarrow> length b)"

inductive channel_step :: "channel_handler list \<Rightarrow> channel \<Rightarrow> channel \<Rightarrow> bool" for hs where
  posted: "posts c = p # ps \<Longrightarrow> run_posted os hs p (c\<lparr>posts := ps\<rparr>) = Some c' \<Longrightarrow> channel_step hs c c'"
| resolved: "resolves c = Suc n \<Longrightarrow> channel_step hs c (resolve_complete failed (c\<lparr>resolves := n\<rparr>))"
| connected: "connects c = Suc n \<Longrightarrow> channel_step hs c (connect_complete hs error inserted (c\<lparr>connects := n\<rparr>))"
| handshaken: "handshakes c = Suc n \<Longrightarrow> channel_step hs c (handshake_complete hs error (c\<lparr>handshakes := n\<rparr>))"
| shut_down: "shutdowns c = Suc n \<Longrightarrow> channel_step hs c (shutdown_complete hs (c\<lparr>shutdowns := n\<rparr>))"
| read_done: "reads c = Suc n \<Longrightarrow> channel_step hs c (read_complete hs rerror bytes sender (c\<lparr>reads := n\<rparr>))"
| write_done: "writes c = w # ws \<Longrightarrow> channel_step hs c (write_complete hs error (sent_bytes w) (c\<lparr>writes := ws\<rparr>))"
| asked_write: "channel_step hs c (fst (write_channel obj c))"
| asked_write_to: "kind c = Udp \<Longrightarrow> channel_step hs c (fst (write_channel_to dest obj c))"
| asked_close: "channel_step hs c (close_channel c)"
| asked_event: "channel_step hs c (fire_user_event_channel i c)"
| asked_stop: "channel_step hs c (request_stop c)"

inductive channel_reachable :: "channel_handler list \<Rightarrow> channel \<Rightarrow> bool" for hs where
  from_server: "channel_reachable hs (new_channel_accepted ssl)"
| from_client: "connect_address True ssl = Inr c \<Longrightarrow> channel_reachable hs c"
| from_client_name: "connect_name True ssl = Inr c \<Longrightarrow> channel_reachable hs c"
| from_bind_name: "bind_connect_name True True lp remote_address remote_port v = Inr c \<Longrightarrow> channel_reachable hs c"
| from_bind_address: "bind_connect_address True True lp dest v = Inr c \<Longrightarrow> channel_reachable hs c"
| channel_go: "channel_reachable hs c \<Longrightarrow> channel_step hs c c' \<Longrightarrow> channel_reachable hs c'"

text \<open>A channel as servers and clients create it.\<close>

definition created :: "channel \<Rightarrow> bool" where
  "created c \<longleftrightarrow>
     (\<exists>ssl. c = new_channel_accepted ssl \<or> connect_address True ssl = Inr c \<or> connect_name True ssl = Inr c) \<or>
     (\<exists>lp remote_address remote_port v. bind_connect_name True True lp remote_address remote_port v = Inr c) \<or>
     (\<exists>lp dest v. bind_connect_address True True lp dest v = Inr c)"

lemma channel_least:
  "channel_reachable hs c \<Longrightarrow> (\<And>c. created c \<Longrightarrow> Q c) \<Longrightarrow> (\<And>c c'. Q c \<Longrightarrow> channel_step hs c c' \<Longrightarrow> Q c') \<Longrightarrow> Q c"
  by (induction rule: channel_reachable.induct) (unfold created_def, blast+)

text \<open>What other threads ask of a channel.\<close>

definition asked :: "channel \<Rightarrow> channel \<Rightarrow> bool" where
  "asked c c' \<longleftrightarrow> (\<exists>obj. c' = fst (write_channel obj c)) \<or> (\<exists>dest obj. c' = fst (write_channel_to dest obj c)) \<or>
     c' = close_channel c \<or> (\<exists>i. c' = fire_user_event_channel i c) \<or> c' = request_stop c"

lemma asked_keeps: "asked c c' \<Longrightarrow> handler_effect c c' \<or> c' = request_stop c"
  by (auto simp: asked_def write_channel_def write_channel_to_def close_channel_def fire_user_event_channel_def
      fire_channel_write_def fire_user_event_def handler_effect_step handler_effect_refl)

inductive_cases channel_stepE: "channel_step hs c c'"

lemma step_cases [consumes 1, case_names posted resolved connected handshaken shut_down read written asked]:
  assumes "channel_step hs c c'"
  obtains os p ps where "posts c = p # ps" "run_posted os hs p (c\<lparr>posts := ps\<rparr>) = Some c'"
  | n failed where "resolves c = Suc n" "c' = resolve_complete failed (c\<lparr>resolves := n\<rparr>)"
  | n error inserted where "connects c = Suc n" "c' = connect_complete hs error inserted (c\<lparr>connects := n\<rparr>)"
  | n error where "handshakes c = Suc n" "c' = handshake_complete hs error (c\<lparr>handshakes := n\<rparr>)"
  | n where "shutdowns c = Suc n" "c' = shutdown_complete hs (c\<lparr>shutdowns := n\<rparr>)"
  | n error bytes sender where "reads c = Suc n" "c' = read_complete hs error bytes sender (c\<lparr>reads := n\<rparr>)"
  | w ws error where "writes c = w # ws" "c' = write_complete hs error (sent_bytes w) (c\<lparr>writes := ws\<rparr>)"
  | "asked c c'"
  using assms by (elim channel_stepE) (auto simp: asked_def)

section \<open>The state only moves forward\<close>

lemma fire_stat: "stat c \<le> stat (fire hs which cb c)" "stat c \<le> stat (reset_and_fire hs which cb c)"
  using effect_stat [OF fire_effect [of c cb hs which]] effect_stat [OF fire_effect [of "set_done False c" cb hs which]]
  by (simp_all add: reset_and_fire_def context_simps)

lemma simple_stat [simp]:
  "stat (set_done d c) = stat c" "stat (set_connected b c) = stat c" "stat (set_task_in_progress t c) = stat c"
  "stat (clear_task_in_progress t c) = stat c" "stat (set_stat s c) = s" "stat (close_socket c') = stat c'"
  "stat (post p c') = stat c'" "stat (erase_context c') = stat c'" "stat (remove_sent_data c') = stat c'"
  "stat (write_streambuf bs c') = stat c'" "stat (write_streambuf_to bs dest c') = stat c'"
  "stat (write_next_streambuf c') = stat c'" "stat (start_read c') = stat c'" "stat (start_connect c') = stat c'"
  "stat (start_handshake c') = stat c'" "stat (read_if_connected c') = stat c'" "stat (read_if_open c') = stat c'"
  "stat (fire_exception_caught what c') = stat c'"
  by (simp_all add: context_simps close_socket_def post_def erase_context_def remove_sent_data_def write_streambuf_def
      write_streambuf_to_def push_message_def write_next_streambuf_def issue_write_def start_read_def start_connect_def
      start_handshake_def read_if_connected_def read_if_open_def fire_exception_caught_def Let_def)

lemma call_channel_disconnected_stat: "stat (call_channel_disconnected hs c) = CLOSED"
proof -
  have "s < CLOSED \<or> s = CLOSED" for s by (cases s) (simp_all add: stat_order)
  then show ?thesis
    by (auto simp: call_channel_disconnected_def Let_def settable_stat_def close_immediately_def)
qed

lemma shutdown_complete_stat: "stat (shutdown_complete hs c) = CLOSED"
  by (simp add: shutdown_complete_def Let_def close_without_shutdown_def call_channel_disconnected_stat)

lemma close_gracefully_stat: "stat (close_gracefully hs c) = CLOSED"
  by (simp add: close_gracefully_def close_at_once_def shutdown_complete_stat ssl_close_gracefully_def Let_def)

lemma handle_req_close_stat: "stat c \<le> stat (handle_req_close hs c)"
  by (simp add: handle_req_close_def close_gracefully_stat)

lemma read_loop_stat: "stat c \<le> stat (read_loop hs c)"
proof (induction hs c rule: read_loop.induct)
  case (1 hs c)
  then show ?case
    using fire_stat(1) [of c hs "''channel_read''" Channel_read]
    by (subst read_loop.simps) (auto simp: Let_def intro: order_trans)
qed

lemma call_channel_connected_stat: "stat c \<le> stat (call_channel_connected hs c)"
proof (cases "settable_stat CONNECTED c")
  case True
  let ?c = "set_connected True (set_stat CONNECTED c)"
  let ?d = "reset_and_fire hs ''channel_connected'' Channel_connected ?c"
  have "stat c \<le> CONNECTED" using True by (simp add: settable_stat_def)
  also have "CONNECTED \<le> stat ?d" using fire_stat(2) [of ?c hs "''channel_connected''" Channel_connected] by simp
  also have "stat ?d \<le> stat (handle_req_close hs (read_if_connected ?d))"
    using handle_req_close_stat [of "read_if_connected ?d"] by simp
  finally show ?thesis using True by (simp add: call_channel_connected_def Let_def)
qed (simp add: call_channel_connected_def)

lemma tcp_read_stat: "stat c \<le> stat (tcp_call_channel_read hs n c)"
proof -
  let ?c = "set_done False (c\<lparr>unread := unread c + n\<rparr>)"
  let ?d = "read_loop hs ?c"
  have "stat c \<le> stat ?d" using read_loop_stat [of ?c hs] by simp
  also have "stat ?d \<le> stat (reset_and_fire hs ''channel_rdbuf_empty'' Channel_rdbuf_empty ?d)" by (rule fire_stat)
  finally show ?thesis using \<open>stat c \<le> stat ?d\<close> by (simp add: tcp_call_channel_read_def Let_def)
qed

lemma call_channel_written_stat: "stat c \<le> stat (call_channel_written hs n c)"
  using fire_stat(2) [of c hs "''channel_written''" "Channel_written n"]
  by (auto simp: call_channel_written_def Let_def)

lemma write_with_stat:
  assumes "\<And>b d. stat (write b d) = stat d"
  shows "stat c \<le> stat (write_with write hs obj c)"
proof -
  let ?c = "(set_done False c)\<lparr>events := events c @ [Channel_write obj]\<rparr>"
  have "stat c \<le> stat (fst (snd (call_channel_write_handler hs obj ?c)))"
    using effect_stat [OF call_channel_write_handler_effect [of ?c hs obj]] by (simp add: context_simps)
  then show ?thesis
    by (auto simp: write_with_def split_beta Let_def assms split: net_object.splits)
qed

lemma udp_read_stat: "stat c \<le> stat (udp_call_channel_read hs n sender c)"
  using effect_stat [OF call_handlers_effect [of
      "(set_done False (c\<lparr>unread := unread c + n\<rparr>))\<lparr>events := events c @ [Channel_read_from sender]\<rparr>" hs "Channel_read_from sender"]]
  by (simp add: udp_call_channel_read_def split_beta Let_def context_simps)

lemma call_channel_read_stat: "stat c \<le> stat (call_channel_read hs n sender c)"
  by (simp add: call_channel_read_def tcp_read_stat udp_read_stat)

lemma call_channel_bound_stat: "stat c \<le> stat (call_channel_bound hs r c)"
proof (cases "settable_stat BOUND c")
  case True
  let ?d = "reset_and_fire hs ''channel_connected'' Channel_bound (set_stat BOUND c)"
  have "stat c \<le> BOUND" using True by (simp add: settable_stat_def)
  also have "BOUND \<le> stat ?d"
    using fire_stat(2) [of "set_stat BOUND c" hs "''channel_connected''" Channel_bound] by simp
  finally have "stat c \<le> stat ?d" .
  then show ?thesis using True \<open>stat c \<le> BOUND\<close> by (simp add: call_channel_bound_def Let_def)
qed (simp add: call_channel_bound_def)

lemma call_channel_created_stat: "stat c \<le> stat (call_channel_created hs c)"
  by (simp add: call_channel_created_def fire_stat)

lemma open_and_bind_stat: "open_and_bind os hs lp v c = Some c' \<Longrightarrow> stat c \<le> stat c'"
  using call_channel_created_stat [of c hs]
  by (auto simp: open_and_bind_def open_channel_def bind_channel_def settable_stat_def bind_eq_Some_conv
      intro: order_trans split: if_splits)

lemma run_bind_stat:
  "run_bind_name os hs lp v remote c = Some c' \<Longrightarrow> stat c \<le> stat c'"
  "run_bind_address os hs lp v dest c = Some c' \<Longrightarrow> stat c \<le> stat c'"
  using order_trans [OF open_and_bind_stat call_channel_bound_stat]
  by (auto simp: run_bind_name_def run_bind_address_def Let_def split: if_splits)

lemma begin_stat: "stat c \<le> stat (run_accepted hs c)" "stat c \<le> stat (run_connect hs c)"
  "stat c \<le> stat (run_resolve hs c)"
  using call_channel_created_stat [of c hs] order_trans [OF call_channel_created_stat call_channel_connected_stat]
  by (simp_all add: run_accepted_def tcp_accepted_def ssl_accepted_def run_connect_def run_resolve_def Let_def)

lemma run_posted_stat: "run_posted os hs p c = Some c' \<Longrightarrow> stat c \<le> stat c'"
  by (cases p) (auto simp: begin_stat run_bind_stat run_write_def run_write_to_def write_with_stat fire_stat
      run_close_def close_gracefully_stat)

lemma read_complete_stat: "stat c \<le> stat (read_complete hs error n sender c)"
  unfolding read_complete_def Let_def
  by (rule order_trans [OF _ handle_req_close_stat])
    (auto simp: call_channel_disconnected_stat split: option.splits
      intro: order_trans [OF _ call_channel_read_stat])

lemma write_complete_stat: "stat c \<le> stat (write_complete hs error n c)"
  unfolding write_complete_def Let_def
  by (rule order_trans [OF _ handle_req_close_stat])
    (auto split: option.splits intro: order_trans [OF _ call_channel_written_stat])

lemma resolve_complete_stat: "stat (resolve_complete failed c) = stat c"
  by (simp add: resolve_complete_def tcp_resolve_complete_def udp_resolve_complete_def)

lemma connect_complete_stat: "stat c \<le> stat (connect_complete hs error inserted c)"
  using call_channel_connected_stat [of "(clear_task_in_progress T_CONNECT c)\<lparr>registered := True\<rparr>" hs]
    call_channel_connected_stat [of "clear_task_in_progress T_CONNECT c" hs]
  by (auto simp: connect_complete_def tcp_connect_complete_def udp_connect_complete_def Let_def close_immediately_def
      new_channel_connected_def split: option.splits)

lemma handshake_complete_stat: "stat c \<le> stat (handshake_complete hs error c)"
  using call_channel_connected_stat [of "clear_task_in_progress T_HANDSHAKE c" hs]
  by (auto simp: handshake_complete_def Let_def split: option.splits)

lemma asked_stat: "asked c c' \<Longrightarrow> stat c \<le> stat c'"
  by (drule asked_keeps) (auto simp: request_stop_def effect_stat)

lemma channel_step_stat:
  assumes "channel_step hs c c'"
  shows "stat c \<le> stat c'"
  using assms
proof (cases rule: step_cases)
  case (posted os p ps)
  then show ?thesis using run_posted_stat [of os hs p "c\<lparr>posts := ps\<rparr>"] by simp
next
  case (resolved n failed)
  then show ?thesis by (simp add: resolve_complete_stat)
next
  case (connected n error inserted)
  then show ?thesis using connect_complete_stat [of "c\<lparr>connects := n\<rparr>" hs error inserted] by simp
next
  case (handshaken n error)
  then show ?thesis using handshake_complete_stat [of "c\<lparr>handshakes := n\<rparr>" hs error] by simp
next
  case (shut_down n)
  then show ?thesis by (simp add: shutdown_complete_stat)
next
  case (read n error bytes sender)
  then show ?thesis using read_complete_stat [of "c\<lparr>reads := n\<rparr>" hs error bytes sender] by simp
next
  case (written w ws error)
  then show ?thesis using write_complete_stat [of "c\<lparr>writes := ws\<rparr>" hs error "sent_bytes w"] by simp
next
  case asked
  then show ?thesis by (rule asked_stat)
qed

end
