(* ===== verification/Channel_Order.thy ===== *)
theory Channel_Order
  imports Channel
begin

text \<open>
  The callbacks of a channel come in a fixed order, whatever the handlers do and in whatever order the
  operations complete, and no more than one read is with asio: an invariant of \<open>channel_step\<close>, for TCP, TLS and
  UDP alike.
\<close>

section \<open>The order of callbacks\<close>

text \<open>A UDP channel is bound before it may be connected; it is told of datagrams in either phase.\<close>

datatype phase = Unborn | Born | Bound | Up | Down

definition before_up :: "protocol \<Rightarrow> phase" where
  "before_up k = (if k = Udp then Bound else Born)"

fun next_phase :: "protocol \<Rightarrow> phase \<Rightarrow> callback \<Rightarrow> phase option" where
  "next_phase k Unborn cb = (if cb = Channel_created then Some Born else None)"
| "next_phase k p Channel_created = None"
| "next_phase k p Channel_bound = (if p = Born \<and> k = Udp then Some Bound else None)"
| "next_phase k p Channel_connected = (if p = before_up k then Some Up else None)"
| "next_phase k p Channel_disconnected = (if p = Up then Some Down else None)"
| "next_phase k p Channel_read = (if p = Up \<and> k \<noteq> Udp then Some Up else None)"
| "next_phase k p Channel_rdbuf_empty = (if p = Up \<and> k \<noteq> Udp then Some Up else None)"
| "next_phase k p (Channel_read_from sender) = (if p \<in> {Bound, Up} \<and> k = Udp then Some p else None)"
| "next_phase k p (Channel_written n) = (if p \<in> {Bound, Up} then Some p else None)"
| "next_phase k p cb = Some p"

fun run_phase :: "protocol \<Rightarrow> phase \<Rightarrow> callback list \<Rightarrow> phase option" where
  "run_phase k p [] = Some p"
| "run_phase k p (cb # cbs) = (case next_phase k p cb of None \<Rightarrow> None | Some q \<Rightarrow> run_phase k q cbs)"

lemma run_phase_append:
  "run_phase k p (xs @ ys) = (case run_phase k p xs of None \<Rightarrow> None | Some q \<Rightarrow> run_phase k q ys)"
  by (induction k p xs rule: run_phase.induct) (simp_all split: option.splits)

definition phase_is :: "phase \<Rightarrow> channel \<Rightarrow> bool" where
  "phase_is p c \<longleftrightarrow>
     run_phase (kind c) Unborn (events c) = Some p \<and> connected_flag c = (p = Up) \<and>
     (stat c < CONNECTED \<longrightarrow> stat c = CREATED \<and> p \<in> {Unborn, Born} \<or> stat c = BOUND \<and> p = Bound) \<and>
     (stat c = CONNECTED \<longrightarrow> p = Up) \<and> (p = Bound \<longrightarrow> kind c = Udp)"

definition read_inv :: "phase \<Rightarrow> channel \<Rightarrow> bool" where
  "read_inv p c \<longleftrightarrow> reads c = (if in_progress 2 c then 1 else 0) \<and>
     (0 < reads c \<longrightarrow> p \<in> {Bound, Up} \<and> stat c \<le> REQ_CLOSE)"

text \<open>What is still under way to bring the channel up: at most one thing, and only before it is connected and
  when it does not read; and at most one shutdown, with TLS once the state is \<open>CLOSED\<close>.\<close>

definition startups :: "channel \<Rightarrow> nat" where
  "startups c = length (filter starts (posts c)) + resolves c + connects c + handshakes c"

definition start_inv :: "phase \<Rightarrow> channel \<Rightarrow> bool" where
  "start_inv p c \<longleftrightarrow> (\<forall>q \<in> set (posts c). \<not> begins q) \<and>
     startups c \<le> (if p = Born \<and> stat c = CREATED \<or> p = Bound \<and> reads c = 0 then 1 else 0) \<and>
     shutdowns c \<le> (if stat c = CLOSED \<and> kind c = Tls then 1 else 0)"

definition in_phase :: "phase \<Rightarrow> channel \<Rightarrow> bool" where
  "in_phase p c \<longleftrightarrow> phase_is p c \<and> read_inv p c \<and> start_inv p c"

text \<open>A UDP channel is bound in the function that creates it.\<close>

definition grown :: "phase \<Rightarrow> channel \<Rightarrow> bool" where
  "grown p c \<longleftrightarrow> p \<noteq> Unborn \<and> (p = Born \<longrightarrow> kind c \<noteq> Udp)"

definition living :: "channel \<Rightarrow> bool" where
  "living c \<longleftrightarrow> (\<exists>p. grown p c \<and> in_phase p c)"

fun begins_with :: "protocol \<Rightarrow> posted \<Rightarrow> bool" where
  "begins_with k Post_accepted = (k \<noteq> Udp)"
| "begins_with k Post_connect = (k \<noteq> Udp)"
| "begins_with k Post_resolve = (k \<noteq> Udp)"
| "begins_with k (Post_bind_name lp v remote) = (k = Udp)"
| "begins_with k (Post_bind_address lp v dest) = (k = Udp)"
| "begins_with k _ = False"

definition unborn :: "channel \<Rightarrow> bool" where
  "unborn c \<longleftrightarrow>
     (\<exists>q qs. posts c = q # qs \<and> begins_with (kind c) q \<and> in_phase Unborn (c\<lparr>posts := qs\<rparr>)) \<and> writes c = []"

lemmas phase_defs = in_phase_def phase_is_def read_inv_def start_inv_def startups_def

lemma living_I: "in_phase p c \<Longrightarrow> grown p c \<Longrightarrow> living c"
  by (auto simp: living_def)

lemma grown_I [simp]: "grown Bound c" "grown Up c" "grown Down c" "kind c \<noteq> Udp \<Longrightarrow> grown Born c"
  by (simp_all add: grown_def)

lemma grown_kind: "kind c' = kind c \<Longrightarrow> grown p c' = grown p c"
  by (simp add: grown_def)

lemma phase_is_effect:
  assumes "handler_effect c c'" and "phase_is p c"
  shows "phase_is p c'"
  using assms(2) handler_effectD(1,8,12,13) [OF assms(1)] by (auto simp: phase_is_def stat_order)

lemma read_inv_effect:
  assumes "handler_effect c c'" and "read_inv p c"
  shows "read_inv p c'"
  using assms(2) handler_effectD(2,5,12) [OF assms(1)] by (auto simp: read_inv_def in_progress_def)

lemma startups_effect:
  assumes "handler_effect c c'"
  shows "startups c' = startups c"
proof -
  obtain ps where "posts c' = posts c @ ps" "\<forall>p \<in> set ps. \<not> starts p"
    using assms by (auto simp: handler_effect_def posts_grow_def)
  then have "filter starts (posts c') = filter starts (posts c)" by (simp add: filter_empty_conv)
  then show ?thesis using assms by (simp add: startups_def handler_effect_def)
qed

lemma start_inv_effect:
  assumes "handler_effect c c'" and "start_inv p c"
  shows "start_inv p c'"
proof -
  obtain ps where "posts c' = posts c @ ps" "\<forall>p \<in> set ps. \<not> starts p"
    using assms(1) by (auto simp: handler_effect_def posts_grow_def)
  then have "\<forall>q \<in> set (posts c'). \<not> begins q" using assms(2) by (auto simp: start_inv_def starts_def)
  moreover have "shutdowns c' = shutdowns c" using assms(1) by (simp add: handler_effect_def)
  moreover have "stat c' = stat c \<or> stat c \<noteq> CREATED \<and> stat c' = REQ_CLOSE \<and> stat c \<noteq> CLOSED"
    using handler_effectD(12) [OF assms(1)] by (auto simp: stat_order)
  ultimately show ?thesis
    using assms(2) startups_effect [OF assms(1)] handler_effectD(5,13) [OF assms(1)]
    by (auto simp: start_inv_def split: if_splits)
qed

lemma in_phase_effect: "handler_effect c c' \<Longrightarrow> in_phase p c \<Longrightarrow> in_phase p c'"
  using phase_is_effect [of c c' p] read_inv_effect [of c c' p] start_inv_effect [of c c' p] by (simp add: in_phase_def)

subsection \<open>Steps that keep the phase\<close>

lemma in_progress_start [simp]:
  "in_progress 2 (set_task_in_progress T_CONNECT c) = in_progress 2 c"
  "in_progress 2 (clear_task_in_progress T_CONNECT c) = in_progress 2 c"
  "in_progress 2 (set_task_in_progress T_HANDSHAKE c) = in_progress 2 c"
  "in_progress 2 (clear_task_in_progress T_HANDSHAKE c) = in_progress 2 c"
  by (simp_all add: task_bits in_progress_set in_progress_clear)

lemma kind_simple [simp]:
  "kind (set_done d c) = kind c" "kind (set_stat s c) = kind c" "kind (set_connected b c) = kind c"
  "kind (set_task_in_progress t c) = kind c" "kind (clear_task_in_progress t c) = kind c"
  "kind (close_socket c) = kind c" "kind (erase_context c) = kind c" "kind (start_read c) = kind c"
  "kind (post p c) = kind c" "kind (start_connect c) = kind c" "kind (start_handshake c) = kind c"
  "kind (fire_exception_caught what c) = kind c" "kind (request_stop c) = kind c" "kind (remove_sent_data c) = kind c"
  by (simp_all add: context_simps close_socket_def erase_context_def start_read_def post_def start_connect_def
      start_handshake_def fire_exception_caught_def request_stop_def remove_sent_data_def)

lemma push_message_simple [simp]:
  "in_phase p (push_message m w c) = in_phase p c" "kind (push_message m w c) = kind c"
  by (simp_all add: phase_defs in_progress_def push_message_def issue_write_def Let_def)

lemma in_phase_simple [simp]:
  "in_phase p (set_done d c) = in_phase p c" "in_phase p (erase_context c) = in_phase p c"
  "in_phase p (close_socket c) = in_phase p c" "in_phase p (remove_sent_data c) = in_phase p c"
  "in_phase p (write_streambuf b c) = in_phase p c" "in_phase p (write_streambuf_to b dest c) = in_phase p c"
  "in_phase p (write_next_streambuf c) = in_phase p c"
  "in_phase p (request_stop c) = in_phase p c" "in_phase p (fire_exception_caught what c) = in_phase p c"
  by (simp_all add: write_streambuf_def write_streambuf_to_def)
    (simp_all add: phase_defs in_progress_def context_simps erase_context_def close_socket_def remove_sent_data_def
      write_next_streambuf_def issue_write_def request_stop_def fire_exception_caught_def post_def Let_def)

lemma startups_simple [simp]:
  "startups (set_task_in_progress t c) = startups c" "startups (clear_task_in_progress t c) = startups c"
  "startups (set_stat s c) = startups c" "startups (set_connected b c) = startups c" "startups (set_done b c) = startups c"
  "startups (close_socket c) = startups c" "startups (start_handshake c) = Suc (startups c)"
  "startups (start_connect c) = Suc (startups c)" "startups (post Post_start_connect c) = Suc (startups c)"
  "startups (fire_exception_caught what c) = startups c" "startups (c\<lparr>registered := r\<rparr>) = startups c"
  "startups (c\<lparr>reads := n\<rparr>) = startups c" "startups (c\<lparr>unread := n\<rparr>) = startups c"
  "startups (c\<lparr>shutdowns := n\<rparr>) = startups c" "startups (c\<lparr>events := es\<rparr>) = startups c"
  "startups (c\<lparr>socket_open := opn\<rparr>) = startups c" "startups (start_read c) = startups c"
  by (simp_all add: startups_def context_simps close_socket_def start_handshake_def start_connect_def post_def
      fire_exception_caught_def start_read_def)

lemma reads_simple [simp]:
  "reads (set_task_in_progress t c) = reads c" "reads (clear_task_in_progress t c) = reads c" "reads (set_stat s c) = reads c"
  "reads (set_connected b c) = reads c" "reads (set_done b c) = reads c" "reads (close_socket c) = reads c"
  "reads (fire_exception_caught what c) = reads c"
  by (simp_all add: context_simps close_socket_def fire_exception_caught_def post_def)

lemma in_phase_tasks [simp]:
  "in_phase p (set_task_in_progress T_WRITE c) = in_phase p c" "in_phase p (clear_task_in_progress T_WRITE c) = in_phase p c"
  "in_phase p (clear_task_in_progress T_SHUTDOWN c) = in_phase p c"
  "in_phase p (set_task_in_progress T_CONNECT c) = in_phase p c"
  "in_phase p (clear_task_in_progress T_CONNECT c) = in_phase p c"
  "in_phase p (set_task_in_progress T_HANDSHAKE c) = in_phase p c"
  "in_phase p (clear_task_in_progress T_HANDSHAKE c) = in_phase p c"
  by (simp_all add: in_phase_def read_inv_def start_inv_def) (simp_all add: context_simps phase_is_def)

lemma in_phase_fields [simp]:
  "in_phase p (c\<lparr>registered := r\<rparr>) = in_phase p c" "in_phase p (c\<lparr>unread := n\<rparr>) = in_phase p c"
  "in_phase p (c\<lparr>writes := bs\<rparr>) = in_phase p c" "in_phase p (c\<lparr>socket_open := opn\<rparr>) = in_phase p c"
  by (simp_all add: phase_defs in_progress_def)

text \<open>What is still starting when the channel may be closed.\<close>

definition closable :: "phase \<Rightarrow> channel \<Rightarrow> bool" where
  "closable p c \<longleftrightarrow> reads c = 0 \<and> (startups c = 0 \<or> p = Bound)"

lemma closable_simple [simp]:
  "closable p (set_task_in_progress t c) = closable p c" "closable p (clear_task_in_progress t c) = closable p c"
  "closable p (set_stat s c) = closable p c" "closable p (close_socket c) = closable p c"
  "closable p (set_connected b c) = closable p c" "closable p (fire_exception_caught what c) = closable p c"
  by (simp_all add: closable_def)

lemma in_phase_startups: "in_phase p c \<Longrightarrow> stat c \<noteq> CREATED \<or> p \<noteq> Born \<Longrightarrow> startups c = 0 \<or> p = Bound \<and> reads c = 0"
  by (auto simp: in_phase_def start_inv_def split: if_splits)

lemma closable_I: "in_phase p c \<Longrightarrow> reads c = 0 \<Longrightarrow> stat c \<noteq> CREATED \<or> p \<noteq> Born \<Longrightarrow> closable p c"
  using in_phase_startups [of p c] by (auto simp: closable_def)

lemma in_phase_CLOSED: "in_phase p c \<Longrightarrow> closable p c \<Longrightarrow> in_phase p (set_stat CLOSED c)"
  by (auto simp: in_phase_def phase_is_def read_inv_def start_inv_def context_simps in_progress_def startups_def stat_order
      closable_def split: if_splits)

lemma in_phase_close:
  assumes "in_phase p c" and "closable p c"
  shows "in_phase p (close_immediately c)" "in_phase p (close_without_shutdown c)"
  using in_phase_CLOSED [OF assms] by (simp_all add: close_immediately_def close_without_shutdown_def)

text \<open>Starting the next thing on the way up.\<close>

definition startable :: "phase \<Rightarrow> channel \<Rightarrow> bool" where
  "startable p c \<longleftrightarrow> startups c = 0 \<and> reads c = 0 \<and> (p = Born \<and> stat c = CREATED \<or> p = Bound)"

lemma startable_simple [simp]:
  "startable p (set_task_in_progress t c) = startable p c" "startable p (clear_task_in_progress t c) = startable p c"
  "startable p (fire_exception_caught what c) = startable p c" "startable p (c\<lparr>registered := r\<rparr>) = startable p c"
  by (simp_all add: startable_def)

lemma startable_closable: "startable p c \<Longrightarrow> closable p c"
  by (auto simp: startable_def closable_def)

lemma in_phase_start:
  assumes "in_phase p c" and "startable p c"
  shows "in_phase p (start_handshake c)" "in_phase p (start_connect c)" "in_phase p (post Post_start_connect c)"
    "in_phase p (c\<lparr>resolves := resolves c + 1\<rparr>)"
  using assms
  by (auto simp: phase_defs startable_def in_progress_def start_handshake_def start_connect_def post_def split: if_splits)

subsection \<open>Callbacks\<close>

lemma fire_phase: "in_phase p (c\<lparr>events := events c @ [cb]\<rparr>) \<Longrightarrow> in_phase p (fire hs which cb c)"
  by (rule in_phase_effect [OF fire_effect])

lemma event_phase:
  assumes "in_phase p c" and "next_phase (kind c) p cb = Some q" and "p = q \<or> p = Unborn"
  shows "in_phase q (c\<lparr>events := events c @ [cb]\<rparr>)"
  using assms by (auto simp: phase_defs in_progress_def run_phase_append split: if_splits)

lemma fire_same_phase:
  assumes "in_phase p c" and "next_phase (kind c) p cb = Some p"
  shows "in_phase p (fire hs which cb c)" "in_phase p (reset_and_fire hs which cb c)"
  using assms by (simp_all add: reset_and_fire_def fire_phase event_phase)

lemma fire_keeps:
  "startups (fire hs which cb c) = startups c" "startups (reset_and_fire hs which cb c) = startups c"
  "reads (fire hs which cb c) = reads c" "reads (reset_and_fire hs which cb c) = reads c"
  "kind (fire hs which cb c) = kind c" "kind (reset_and_fire hs which cb c) = kind c"
  using startups_effect [OF fire_effect [of c cb hs which]] startups_effect [OF fire_effect [of "set_done False c" cb hs which]]
    handler_effectD(5,13) [OF fire_effect [of c cb hs which]]
    handler_effectD(5,13) [OF fire_effect [of "set_done False c" cb hs which]]
  by (simp_all add: reset_and_fire_def)

lemma created_phase:
  assumes "in_phase Unborn c"
  shows "in_phase Born (call_channel_created hs c)" "startups (call_channel_created hs c) = 0"
    "reads (call_channel_created hs c) = 0" "kind (call_channel_created hs c) = kind c"
  using assms in_phase_startups [OF assms]
  by (simp_all add: call_channel_created_def reset_and_fire_def fire_phase event_phase fire_keeps)
    (simp add: in_phase_def read_inv_def)

lemma disconnected_phase:
  assumes "in_phase p c" and "grown p c" and "closable p c"
  shows "living (call_channel_disconnected hs c)"
proof (cases "p = Up")
  case True
  let ?c = "set_connected False c"
  let ?d = "if settable_stat DISCONNECTED ?c then set_stat DISCONNECTED ?c else ?c"
  let ?e = "reset_and_fire hs ''channel_disconnected'' Channel_disconnected ?d"
  have d: "reads ?d = 0" "startups ?d = 0" using assms(3) True by (simp_all add: closable_def)
  have "in_phase Down ((set_done False ?d)\<lparr>events := events (set_done False ?d) @ [Channel_disconnected]\<rparr>)"
    using assms True d by (auto simp: phase_defs in_progress_def context_simps run_phase_append settable_stat_def stat_order
        split: if_splits)
  then have "in_phase Down ?e" unfolding reset_and_fire_def by (rule fire_phase)
  moreover have "closable Down ?e" using d by (simp add: fire_keeps closable_def)
  ultimately have "in_phase Down (if settable_stat CLOSED ?e then close_immediately ?e else ?e)"
    by (simp add: in_phase_close)
  moreover have "connected_flag c" using assms(1) True by (simp add: phase_defs)
  ultimately have "in_phase Down (call_channel_disconnected hs c)"
    by (simp add: call_channel_disconnected_def Let_def)
  then show ?thesis by (rule living_I) simp
next
  case False
  then have "\<not> connected_flag c" using assms(1) by (simp add: phase_defs)
  then have "in_phase p (call_channel_disconnected hs c)"
    using assms by (simp add: call_channel_disconnected_def in_phase_close)
  moreover have "kind (call_channel_disconnected hs c) = kind c"
    using \<open>\<not> connected_flag c\<close> by (simp add: call_channel_disconnected_def close_immediately_def)
  ultimately show ?thesis using assms(2) living_I grown_kind by metis
qed

lemma living_erase [simp]: "living (erase_context c) = living c"
  by (simp add: living_def grown_def)

lemma shutdown_complete_phase:
  assumes "in_phase p c" and "grown p c" and "closable p c"
  shows "living (shutdown_complete hs c)"
proof -
  let ?c = "close_without_shutdown (clear_task_in_progress T_SHUTDOWN c)"
  have c: "in_phase p ?c" using assms by (intro in_phase_close) simp_all
  moreover have "closable p ?c" "grown p ?c"
    using assms(2,3) by (simp_all add: close_without_shutdown_def grown_def)
  ultimately show ?thesis
    using disconnected_phase [of p ?c hs] living_I [of p ?c] by (simp add: shutdown_complete_def Let_def)
qed

lemma close_gracefully_phase:
  assumes "in_phase p c" and "grown p c" and "stat c = REQ_CLOSE" and "\<not> is_channel_busy c"
  shows "living (close_gracefully hs c)"
proof -
  let ?c = "set_stat CLOSED c"
  have "\<not> in_progress 2 c" using assms(4) by (auto simp: busy_bits)
  then have "reads c = 0" using assms(1) by (simp add: phase_defs)
  then have closable: "closable p c" using assms(1,3) by (intro closable_I) simp_all
  have c: "in_phase p ?c" using in_phase_CLOSED [OF assms(1) closable] .
  have "shutdowns c = 0" using assms(1,3) by (simp add: in_phase_def start_inv_def)
  then have "in_phase p (?c\<lparr>shutdowns := shutdowns ?c + 1\<rparr>)" if "kind c = Tls"
    using c that by (auto simp: phase_defs in_progress_def context_simps)
  then have "living (ssl_close_gracefully c)" if "kind c = Tls"
    using that c assms(2) by (auto simp: ssl_close_gracefully_def Let_def grown_def intro!: living_I [of p])
  moreover have "living (close_at_once hs c)"
    unfolding close_at_once_def using c assms(2) closable
    by (intro shutdown_complete_phase [of p]) (simp_all add: grown_def)
  ultimately show ?thesis by (simp add: close_gracefully_def)
qed

lemma handle_req_close_phase: "living c \<Longrightarrow> living (handle_req_close hs c)" "living c \<Longrightarrow> living (run_close hs c)"
  by (auto simp: handle_req_close_def run_close_def living_def dest: close_gracefully_phase [unfolded living_def])

subsection \<open>Reading\<close>

lemma start_read_phase:
  assumes "in_phase p c" and "reads c = 0" and "startups c = 0" and "stat c = CONNECTED \<or> stat c = BOUND"
  shows "in_phase p (start_read (set_task_in_progress T_READ c))"
proof -
  let ?d = "start_read (set_task_in_progress T_READ c)"
  have p: "p \<in> {Bound, Up}" using assms(1,4) by (auto simp: phase_defs stat_order)
  have "phase_is p ?d" "start_inv p ?d"
    using assms(1,3) by (simp_all add: phase_defs context_simps start_read_def)
  moreover have "in_progress 2 ?d" by (simp add: start_read_def context_simps in_progress_def bit_simps T_READ_def)
  then have "read_inv p ?d"
    using assms(2,4) p by (simp add: read_inv_def) (auto simp: start_read_def context_simps stat_order)
  ultimately show ?thesis by (simp add: in_phase_def)
qed

lemma read_if_phase:
  assumes "in_phase p c" and "reads c = 0" and "startups c = 0"
  shows "in_phase p (read_if_connected c)" "in_phase p (read_if_open c)"
  using assms by (auto simp: read_if_connected_def read_if_open_def start_read_phase)

lemma kind_read_if [simp]: "kind (read_if_connected c) = kind c" "kind (read_if_open c) = kind c"
  by (simp_all add: read_if_connected_def read_if_open_def)

lemma connected_phase:
  assumes "in_phase p c" and "grown p c" and "startups c = 0" and "reads c = 0"
  shows "living (call_channel_connected hs c)"
proof (cases "settable_stat CONNECTED c")
  case True
  let ?c = "set_connected True (set_stat CONNECTED c)"
  let ?d = "reset_and_fire hs ''channel_connected'' Channel_connected ?c"
  have "stat c < CONNECTED" using True by (simp add: settable_stat_def)
  then have p: "p = before_up (kind c)" and "stat c \<noteq> CLOSED"
    using assms(1,2) by (auto simp: phase_defs grown_def before_up_def)
  then have "shutdowns c = 0" using assms(1) by (simp add: in_phase_def start_inv_def)
  moreover have "next_phase (kind c) p Channel_connected = Some Up" by (simp add: p before_up_def)
  then have "run_phase (kind c) Unborn (events c @ [Channel_connected]) = Some Up"
    using assms(1) by (simp add: phase_defs run_phase_append)
  moreover have "\<not> in_progress 2 c" "\<forall>q \<in> set (posts c). \<not> begins q"
    using assms(1,4) by (auto simp: in_phase_def read_inv_def start_inv_def split: if_splits)
  ultimately have "in_phase Up ((set_done False ?c)\<lparr>events := events (set_done False ?c) @ [Channel_connected]\<rparr>)"
    using assms(3,4) by (simp add: phase_defs in_progress_def context_simps stat_order)
  then have "in_phase Up ?d" unfolding reset_and_fire_def by (rule fire_phase)
  moreover have "reads ?d = 0" "startups ?d = 0" using assms(3,4) by (simp_all add: fire_keeps)
  ultimately have "in_phase Up (read_if_connected ?d)" by (rule read_if_phase)
  then have "living (handle_req_close hs (read_if_connected ?d))"
    by (intro handle_req_close_phase living_I [of Up]) simp_all
  then show ?thesis using True by (simp add: call_channel_connected_def Let_def)
next
  case False
  then show ?thesis using living_I [OF assms(1,2)] by (simp add: call_channel_connected_def)
qed

lemma read_loop_phase:
  "in_phase Up c \<Longrightarrow> kind c \<noteq> Udp \<Longrightarrow>
   in_phase Up (read_loop hs c) \<and> reads (read_loop hs c) = reads c \<and> startups (read_loop hs c) = startups c \<and>
   kind (read_loop hs c) = kind c"
proof (induction hs c rule: read_loop.induct)
  case (1 hs c)
  let ?d = "fire hs ''channel_read'' Channel_read c"
  have d: "in_phase Up ?d" using 1(2,3) by (intro fire_same_phase) simp_all
  have k: "kind ?d \<noteq> Udp" using 1(3) by (simp add: fire_keeps)
  have loop: "read_loop hs c = (if unread ?d = unread c then ?d else if unread ?d > 0 then read_loop hs ?d else ?d)"
    by (subst read_loop.simps) (simp only: Let_def)
  show ?case
  proof (cases "unread ?d \<noteq> unread c \<and> unread ?d > 0")
    case True
    then have "read_loop hs c = read_loop hs ?d" by (simp add: loop)
    then show ?thesis using 1(1) [OF refl _ _ d k] True by (simp add: fire_keeps)
  next
    case False
    then have "read_loop hs c = ?d" unfolding loop by auto
    then show ?thesis using d by (simp add: fire_keeps)
  qed
qed

lemma tcp_read_phase:
  assumes "in_phase Up c" and "reads c = 0" and "startups c = 0" and "kind c \<noteq> Udp"
  shows "in_phase Up (tcp_call_channel_read hs n c)"
proof -
  let ?c = "set_done False (c\<lparr>unread := unread c + n\<rparr>)"
  let ?d = "read_loop hs ?c"
  let ?e = "if unread ?d = 0 \<and> stat ?d = CONNECTED
            then reset_and_fire hs ''channel_rdbuf_empty'' Channel_rdbuf_empty ?d else ?d"
  have c: "in_phase Up ?c" "reads ?c = 0" "startups ?c = 0" "kind ?c \<noteq> Udp" using assms by simp_all
  then have d: "in_phase Up ?d" "reads ?d = 0" "startups ?d = 0" "kind ?d \<noteq> Udp" using read_loop_phase [of ?c hs] by simp_all
  then have "in_phase Up ?e" "reads ?e = 0" "startups ?e = 0" by (simp_all add: fire_same_phase fire_keeps)
  then have "in_phase Up (read_if_connected ?e)" by (rule read_if_phase)
  then show ?thesis by (simp add: tcp_call_channel_read_def Let_def)
qed

lemma udp_read_phase:
  assumes "in_phase p c" and "reads c = 0" and "startups c = 0" and "kind c = Udp" and "p \<in> {Bound, Up}"
  shows "in_phase p (udp_call_channel_read hs n sender c)"
proof -
  let ?c = "set_done False (c\<lparr>unread := unread c + n\<rparr>)"
  let ?e = "?c\<lparr>events := events ?c @ [Channel_read_from sender]\<rparr>"
  let ?r = "call_handlers hs (Channel_read_from sender) ?e"
  let ?f = "if snd ?r then fire_exception_caught (handler_failed ''channel_read_from'') (fst ?r) else (fst ?r)\<lparr>unread := 0\<rparr>"
  have "next_phase (kind ?c) p (Channel_read_from sender) = Some p" using assms(4,5) by auto
  then have "in_phase p ?e" using assms(1) by (intro event_phase [of p]) simp_all
  then have "in_phase p (fst ?r)" by (rule in_phase_effect [OF call_handlers_effect])
  moreover have "startups ?e = 0" "reads ?e = 0" using assms(2,3) by simp_all
  then have "reads (fst ?r) = 0" "startups (fst ?r) = 0"
    using handler_effectD(5) [OF call_handlers_effect [of ?e hs "Channel_read_from sender"]]
      startups_effect [OF call_handlers_effect [of ?e hs "Channel_read_from sender"]]
    by (simp_all only:)
  ultimately have "in_phase p (read_if_open ?f)" by (intro read_if_phase) simp_all
  then show ?thesis by (simp only: udp_call_channel_read_def split_beta Let_def)
qed

lemma call_channel_written_phase:
  assumes "in_phase p c" shows "in_phase p (call_channel_written hs n c)"
proof -
  have "p \<in> {Bound, Up}" if "stat c = BOUND \<or> stat c = CONNECTED" using that assms by (auto simp: phase_defs stat_order)
  then have "next_phase (kind c) p (Channel_written n) = Some p" if "stat c = BOUND \<or> stat c = CONNECTED"
    using that by auto
  then show ?thesis using assms by (auto simp: call_channel_written_def Let_def fire_same_phase)
qed

lemma write_with_phase:
  assumes "in_phase p c" and "p \<noteq> Unborn" and "\<And>b d. in_phase p (write b d) = in_phase p d"
  shows "in_phase p (write_with write hs obj c)"
proof -
  let ?c = "(set_done False c)\<lparr>events := events c @ [Channel_write obj]\<rparr>"
  have "next_phase (kind (set_done False c)) p (Channel_write obj) = Some p" using assms(2) by (cases p) simp_all
  then have "in_phase p ((set_done False c)\<lparr>events := events (set_done False c) @ [Channel_write obj]\<rparr>)"
    using assms(1) by (intro event_phase [of p]) simp_all
  then have "in_phase p ?c" by (simp add: context_simps)
  then have "in_phase p (fst (snd (call_channel_write_handler hs obj ?c)))"
    by (rule in_phase_effect [OF call_channel_write_handler_effect])
  then show ?thesis by (auto simp: write_with_def split_beta Let_def assms(3) split: net_object.splits)
qed

lemma run_write_phase:
  assumes "in_phase p c" and "p \<noteq> Unborn"
  shows "in_phase p (run_write hs obj c)" "in_phase p (run_write_to hs obj dest c)"
  using assms by (auto simp: run_write_def run_write_to_def intro: write_with_phase)

lemma neutral_phase:
  assumes "in_phase p c" and "p \<noteq> Unborn"
  shows "in_phase p (reset_and_fire hs which (Exception_caught what) c)" "in_phase p (reset_and_fire hs which (User_event i) c)"
proof -
  have "next_phase (kind c) p (Exception_caught what) = Some p" "next_phase (kind c) p (User_event i) = Some p"
    using assms(2) by (cases p; simp)+
  then show "in_phase p (reset_and_fire hs which (Exception_caught what) c)"
    "in_phase p (reset_and_fire hs which (User_event i) c)"
    using assms(1) by (simp_all add: fire_same_phase)
qed


subsection \<open>Being born\<close>

lemma fire_CREATED: "stat c = CREATED \<Longrightarrow> stat (reset_and_fire hs which cb c) = CREATED"
  using handler_effectD(12) [OF fire_effect [of "set_done False c" cb hs which]]
  by (simp add: reset_and_fire_def stat_order context_simps)

lemma created_CREATED: "stat c = CREATED \<Longrightarrow> stat (call_channel_created hs c) = CREATED"
  by (simp add: call_channel_created_def fire_CREATED)

lemma set_stat_twice [simp]: "set_stat s (set_stat t c) = set_stat s c"
  by (simp add: set_stat_def)

lemma bound_phase:
  assumes "in_phase Born c" and "startable Born c" and "kind c = Udp"
    and bound: "b = call_channel_bound hs r (set_stat OPEN (c\<lparr>socket_open := True\<rparr>))"
  shows "in_phase Bound b" "startups b = 0" "kind b = Udp" "\<not> r \<Longrightarrow> startable Bound b"
proof -
  let ?c = "set_stat BOUND (c\<lparr>socket_open := True\<rparr>)"
  let ?d = "reset_and_fire hs ''channel_connected'' Channel_bound ?c"
  have b: "b = (if r \<and> stat ?d = BOUND then start_read (set_task_in_progress T_READ ?d) else ?d)"
    by (simp add: bound call_channel_bound_def settable_stat_def Let_def stat_order)
  have "run_phase (kind c) Unborn (events c @ [Channel_bound]) = Some Bound"
    using assms(1,3) by (simp add: phase_defs run_phase_append)
  then have "in_phase Bound ((set_done False ?c)\<lparr>events := events (set_done False ?c) @ [Channel_bound]\<rparr>)"
    using assms by (auto simp: phase_defs startable_def in_progress_def context_simps stat_order split: if_splits)
  then have "in_phase Bound ?d" unfolding reset_and_fire_def by (rule fire_phase)
  moreover have d: "startups ?d = 0" "reads ?d = 0" "kind ?d = Udp"
    using assms(2,3) by (simp_all add: fire_keeps startable_def)
  ultimately show "in_phase Bound b" by (auto simp: b intro: start_read_phase)
  show "startups b = 0" "kind b = Udp" "\<not> r \<Longrightarrow> startable Bound b" using d by (simp_all add: b startable_def)
qed

lemma open_and_bind_result:
  assumes "open_and_bind os hs lp v c = Some d" and "stat c = CREATED"
  shows "d = set_stat OPEN ((call_channel_created hs c)\<lparr>socket_open := True\<rparr>)"
  using assms created_CREATED [OF assms(2), of hs]
  by (auto simp: open_and_bind_def open_channel_def bind_channel_def settable_stat_def bind_eq_Some_conv stat_order
      split: if_splits)

lemma udp_birth:
  assumes "in_phase Unborn c" and "stat c = CREATED" and "kind c = Udp"
  shows "run_bind_name os hs lp v remote c = Some c' \<Longrightarrow> living c'"
    and "run_bind_address os hs lp v dest c = Some c' \<Longrightarrow> living c'"
proof -
  let ?c = "call_channel_created hs c"
  let ?b = "\<lambda>r. call_channel_bound hs r (set_stat OPEN (?c\<lparr>socket_open := True\<rparr>))"
  have born: "in_phase Born ?c" "startable Born ?c" "kind ?c = Udp"
    using created_phase [OF assms(1)] created_CREATED [OF assms(2)] assms(3) by (simp_all add: startable_def)
  note b = bound_phase [OF born refl, where hs = hs]
  have living: "living (?b r)" "living ((?b False)\<lparr>resolves := resolves (?b False) + 1\<rparr>)"
    "living (post Post_start_connect (?b False))" for r
    using b(1) in_phase_start [OF b(1) b(4)] by (blast intro: living_I grown_I)+
  show "living c'" if "run_bind_name os hs lp v remote c = Some c'"
    using that living open_and_bind_result [OF _ assms(2)]
    by (auto simp: run_bind_name_def Let_def split: if_splits)
  show "living c'" if "run_bind_address os hs lp v dest c = Some c'"
    using that living open_and_bind_result [OF _ assms(2)]
    by (auto simp: run_bind_address_def split: if_splits)
qed

lemma tcp_birth:
  assumes "in_phase Unborn c" and "stat c = CREATED" and "kind c \<noteq> Udp"
  shows "living (run_accepted hs c)" "living (run_connect hs c)" "living (run_resolve hs c)"
proof -
  let ?c = "call_channel_created hs c"
  have born: "in_phase Born ?c" "startable Born ?c" "kind ?c \<noteq> Udp"
    using created_phase [OF assms(1)] created_CREATED [OF assms(2)] assms(3) by (simp_all add: startable_def)
  have "living (tcp_accepted hs c)"
    unfolding tcp_accepted_def using born by (intro connected_phase [of Born]) (simp_all add: startable_def)
  moreover have "living (ssl_accepted hs c)"
    unfolding ssl_accepted_def using born by (intro living_I [of Born] in_phase_start) simp_all
  ultimately show "living (run_accepted hs c)" by (simp add: run_accepted_def)
  show "living (run_connect hs c)"
    unfolding run_connect_def using born by (intro living_I [of Born] in_phase_start) simp_all
  show "living (run_resolve hs c)"
    unfolding run_resolve_def Let_def using born by (intro living_I [of Born] in_phase_start) simp_all
qed

lemma birth:
  assumes "in_phase Unborn c" and "stat c = CREATED" and "begins_with (kind c) q"
    and "run_posted os hs q c = Some c'"
  shows "living c'"
  using assms(3,4) tcp_birth [OF assms(1,2)] udp_birth [OF assms(1,2)] by (cases q) auto

subsection \<open>Every step\<close>

lemma start_next:
  assumes "in_phase p c" and "startups c = Suc (startups d)" and "\<And>q. in_phase q c \<Longrightarrow> in_phase q d"
    and "stat d = stat c" and "reads d = reads c"
  shows "in_phase p d" "startable p d"
proof -
  show "in_phase p d" using assms(1,3) by simp
  have "startups c \<le> (if p = Born \<and> stat c = CREATED \<or> p = Bound \<and> reads c = 0 then 1 else 0)"
    using assms(1) by (simp add: in_phase_def start_inv_def)
  moreover have "p = Born \<Longrightarrow> reads c = 0" using assms(1) by (simp add: in_phase_def read_inv_def)
  ultimately show "startable p d" using assms(2,4,5) by (auto simp: startable_def split: if_splits)
qed

lemma start_fields:
  assumes "in_phase p c"
  shows "resolves c = Suc n \<Longrightarrow> in_phase p (c\<lparr>resolves := n\<rparr>)" "connects c = Suc n \<Longrightarrow> in_phase p (c\<lparr>connects := n\<rparr>)"
    "handshakes c = Suc n \<Longrightarrow> in_phase p (c\<lparr>handshakes := n\<rparr>)" "shutdowns c = Suc n \<Longrightarrow> in_phase p (c\<lparr>shutdowns := n\<rparr>)"
    "posts c = q # qs \<Longrightarrow> in_phase p (c\<lparr>posts := qs\<rparr>)"
  using assms by (auto simp: phase_defs in_progress_def split: if_splits)

lemma startups_fields:
  "resolves c = Suc n \<Longrightarrow> startups c = Suc (startups (c\<lparr>resolves := n\<rparr>))"
  "connects c = Suc n \<Longrightarrow> startups c = Suc (startups (c\<lparr>connects := n\<rparr>))"
  "handshakes c = Suc n \<Longrightarrow> startups c = Suc (startups (c\<lparr>handshakes := n\<rparr>))"
  "posts c = Post_start_connect # qs \<Longrightarrow> startups c = Suc (startups (c\<lparr>posts := qs\<rparr>))"
  by (simp_all add: startups_def)

lemma start_connect_living:
  assumes "in_phase p c" and "grown p c" and "startable p c"
  shows "living (start_connect (set_task_in_progress T_CONNECT c))" "living (start_connect c)"
  using assms by (intro living_I [of p] in_phase_start; simp add: grown_def)+

lemma run_posted_living:
  assumes "in_phase p c" and "grown p c" and "posts c = q # qs" and "run_posted os hs q (c\<lparr>posts := qs\<rparr>) = Some c'"
  shows "living c'"
proof -
  let ?d = "c\<lparr>posts := qs\<rparr>"
  have d: "in_phase p ?d" "grown p ?d" using start_fields(5) [OF assms(1,3)] assms(2) by (simp_all add: grown_def)
  have p: "p \<noteq> Unborn" using assms(2) by (simp add: grown_def)
  have "\<not> begins q" using assms(1,3) by (simp add: in_phase_def start_inv_def)
  moreover have "living (start_connect ?d)" if "q = Post_start_connect"
    using start_next [OF assms(1) startups_fields(4) start_fields(5)] assms(3) that d(2)
    by (intro start_connect_living [of p]) auto
  moreover have "in_phase p e \<Longrightarrow> kind e = kind ?d \<Longrightarrow> living e" for e
    using d(2) by (auto simp: grown_def intro: living_I)
  moreover have "kind (run_write hs obj e) = kind e" "kind (run_write_to hs obj dest e) = kind e" for obj dest e
    using handler_effectD(13) [OF call_channel_write_handler_effect]
    by (auto simp: run_write_def run_write_to_def write_with_def split_beta Let_def write_streambuf_def
        write_streambuf_to_def context_simps split: net_object.splits)
  ultimately show ?thesis
    using assms(4) run_write_phase [OF d(1) p] neutral_phase [OF d(1) p] handle_req_close_phase(2) [OF living_I [OF d]]
    by (cases q) (auto simp: fire_keeps)
qed

lemma resolve_complete_living:
  assumes "in_phase p c" and "grown p c" and "resolves c = Suc n"
  shows "living (resolve_complete failed (c\<lparr>resolves := n\<rparr>))"
proof -
  let ?d = "c\<lparr>resolves := n\<rparr>"
  note d = start_next [OF assms(1) startups_fields(1) start_fields(1), OF assms(3) _ assms(3), simplified]
  have "grown p ?d" using assms(2) by (simp add: grown_def)
  then show ?thesis
    using start_connect_living [OF d(1) _ d(2)] living_I [of p "fire_exception_caught ''fail to resolve address'' ?d"] d(1)
    by (simp add: resolve_complete_def tcp_resolve_complete_def udp_resolve_complete_def grown_def)
qed

lemma handshake_complete_living:
  assumes "in_phase p c" and "grown p c" and "handshakes c = Suc n"
  shows "living (handshake_complete hs error (c\<lparr>handshakes := n\<rparr>))"
proof -
  let ?d = "c\<lparr>handshakes := n\<rparr>"
  let ?e = "clear_task_in_progress T_HANDSHAKE ?d"
  note d = start_next [OF assms(1) startups_fields(3) start_fields(3), OF assms(3) _ assms(3), simplified]
  have "living (call_channel_connected hs ?e)"
    using d assms(2) by (intro connected_phase [of p]) (simp_all add: grown_def startable_def)
  moreover have "living (fire_exception_caught what ?e)" for what
    using d assms(2) by (intro living_I [of p]) (simp_all add: grown_def)
  ultimately show ?thesis by (simp add: handshake_complete_def Let_def split: option.splits)
qed

lemma connect_complete_living:
  assumes "in_phase p c" and "grown p c" and "connects c = Suc n"
  shows "living (connect_complete hs error inserted (c\<lparr>connects := n\<rparr>))"
proof -
  let ?d = "c\<lparr>connects := n\<rparr>"
  let ?e = "clear_task_in_progress T_CONNECT ?d"
  note d = start_next [OF assms(1) startups_fields(2) start_fields(2), OF assms(3) _ assms(3), simplified]
  have "living (close_immediately (fire_exception_caught what ?e))" for what
    using d assms(2) startable_closable [OF d(2)]
    by (intro living_I [of p] in_phase_close) (simp_all add: grown_def close_immediately_def)
  moreover have "living (call_channel_connected hs (?e\<lparr>registered := True\<rparr>))" "living (call_channel_connected hs ?e)"
    using d assms(2) by (intro connected_phase [of p]; simp add: grown_def startable_def)+
  moreover have "living (start_handshake (set_task_in_progress T_HANDSHAKE (?e\<lparr>registered := True\<rparr>)))"
    using d assms(2) by (intro living_I [of p] in_phase_start) (simp_all add: grown_def)
  moreover have "living (fire_exception_caught what ?e)" for what
    using d assms(2) by (intro living_I [of p]) (simp_all add: grown_def)
  ultimately show ?thesis
    by (auto simp: connect_complete_def tcp_connect_complete_def udp_connect_complete_def Let_def
        new_channel_connected_def split: option.splits)
qed

lemma shut_down_living:
  assumes "in_phase p c" and "grown p c" and "shutdowns c = Suc n"
  shows "living (shutdown_complete hs (c\<lparr>shutdowns := n\<rparr>))"
proof -
  let ?d = "c\<lparr>shutdowns := n\<rparr>"
  have "stat c = CLOSED" using assms(1,3) by (simp add: phase_defs split: if_splits)
  moreover have "in_phase p ?d" using start_fields(4) [OF assms(1,3)] .
  moreover have "reads ?d = 0"
    using assms(1) \<open>stat c = CLOSED\<close> by (auto simp: in_phase_def read_inv_def stat_order split: if_splits)
  ultimately show ?thesis
    using assms(2) by (intro shutdown_complete_phase [of p] closable_I) (simp_all add: grown_def)
qed

lemma read_done_phase:
  assumes "in_phase p c" and "reads c = Suc n"
  shows "in_phase p (clear_task_in_progress T_READ (c\<lparr>reads := n\<rparr>))" (is "in_phase p ?c")
    and "n = 0" "startups c = 0" "p \<in> {Bound, Up}"
proof -
  show p: "p \<in> {Bound, Up}" and n: "n = 0" using assms by (auto simp: in_phase_def read_inv_def split: if_splits)
  show start: "startups c = 0" using in_phase_startups [OF assms(1)] p assms(2) by auto
  have "\<not> in_progress 2 ?c" by simp
  then have "read_inv p ?c" using n by (simp add: read_inv_def)
  moreover have "phase_is p ?c" using assms(1) by (simp add: in_phase_def phase_is_def context_simps)
  moreover have "startups ?c = 0" using start by simp
  then have "start_inv p ?c" using assms(1) by (simp add: in_phase_def start_inv_def) (auto simp: context_simps split: if_splits)
  ultimately show "in_phase p ?c" by (simp add: in_phase_def)
qed

lemma kind_read [simp]: "kind (call_channel_read hs n sender c) = kind c"
proof -
  have loop: "kind (read_loop hs d) = kind d" for d
  proof (induction hs d rule: read_loop.induct)
    case (1 hs d)
    then show ?case by (subst read_loop.simps) (auto simp: Let_def fire_keeps)
  qed
  have "kind (fst (call_handlers hs cb d)) = kind d" for cb d by (rule handler_effectD(13) [OF call_handlers_effect])
  then show ?thesis
    by (simp add: call_channel_read_def tcp_call_channel_read_def udp_call_channel_read_def Let_def split_beta fire_keeps loop)
qed

lemma read_complete_living:
  assumes "in_phase p c" and "grown p c" and "reads c = Suc n"
  shows "living (read_complete hs error bytes sender (c\<lparr>reads := n\<rparr>))"
proof -
  let ?c = "clear_task_in_progress T_READ (c\<lparr>reads := n\<rparr>)"
  note done_read = read_done_phase [OF assms(1,3)]
  have c: "in_phase p ?c" "reads ?c = 0" "startups ?c = 0" "grown p ?c" "kind ?c = kind c"
    using done_read assms(2) by (simp_all add: grown_def)
  have "in_phase p (call_channel_read hs bytes sender ?c)"
  proof (cases "kind c = Udp")
    case True
    then show ?thesis using udp_read_phase [OF c(1-3) _ done_read(4)] c(5) by (simp add: call_channel_read_def)
  next
    case False
    then have "p = Up" using done_read(4) assms(1) by (auto simp: in_phase_def phase_is_def)
    then show ?thesis using tcp_read_phase [of ?c] c False by (simp add: call_channel_read_def)
  qed
  then have read: "living (call_channel_read hs bytes sender ?c)"
    using assms(2) by (intro living_I [of p]) (simp_all add: grown_def)
  have "living (call_channel_disconnected hs d)" if "d = ?c \<or> d = fire_exception_caught what ?c" for d what
    using that c by (intro disconnected_phase [of p]) (auto simp: grown_def closable_def)
  then show ?thesis
    unfolding read_complete_def Let_def using read
    by (intro handle_req_close_phase) (auto split: option.splits read_error.splits)
qed

lemma kind_written [simp]: "kind (call_channel_written hs n c) = kind c"
  by (simp add: call_channel_written_def Let_def fire_keeps write_next_streambuf_def issue_write_def)

lemma write_complete_living:
  "in_phase p c \<Longrightarrow> grown p c \<Longrightarrow> living (write_complete hs error n c)"
  unfolding write_complete_def Let_def
  by (intro handle_req_close_phase living_I [of p])
    (auto simp: grown_def call_channel_written_phase split: option.splits)


lemma asked_living: "asked c c' \<Longrightarrow> living c \<Longrightarrow> living c'"
proof (drule asked_keeps, elim disjE)
  assume e: "handler_effect c c'" and "living c"
  then obtain p where p: "grown p c" "in_phase p c" by (auto simp: living_def)
  show "living c'"
    using in_phase_effect [OF e p(2)] p(1) handler_effectD(13) [OF e] by (intro living_I [of p]) (simp_all add: grown_def)
next
  assume "c' = request_stop c" and "living c"
  then show "living c'" by (simp add: living_def grown_def)
qed

lemma unborn_effect:
  assumes "handler_effect c c'" and "unborn c"
  shows "unborn c'"
proof -
  obtain q qs where q: "posts c = q # qs" "begins_with (kind c) q" "in_phase Unborn (c\<lparr>posts := qs\<rparr>)" and "writes c = []"
    using assms(2) by (auto simp: unborn_def)
  obtain ps where ps: "posts c' = posts c @ ps" "\<forall>p \<in> set ps. \<not> starts p \<and> (p = Post_close \<longrightarrow> stat c < REQ_CLOSE)"
    using assms(1) by (auto simp: handler_effect_def posts_grow_def)
  have "handler_effect (c\<lparr>posts := qs\<rparr>) (c'\<lparr>posts := qs @ ps\<rparr>)"
    using assms(1) ps q(1,2) by (auto simp: handler_effect_def posts_grow_def)
  with q(3) have "in_phase Unborn (c'\<lparr>posts := qs @ ps\<rparr>)" by (rule in_phase_effect [rotated])
  then show ?thesis using q ps \<open>writes c = []\<close> assms(1) by (simp add: unborn_def handler_effect_def)
qed

lemma unborn_stop: "unborn c \<Longrightarrow> unborn (request_stop c)"
  by (auto simp: unborn_def request_stop_def phase_defs in_progress_def)

lemma asked_unborn: "asked c c' \<Longrightarrow> unborn c \<Longrightarrow> unborn c'"
  by (drule asked_keeps) (auto intro: unborn_stop unborn_effect)

definition channel_inv :: "channel \<Rightarrow> bool" where
  "channel_inv c \<longleftrightarrow> unborn c \<and> stat c = CREATED \<or> living c"

lemma asked_CREATED: "asked c c' \<Longrightarrow> stat c = CREATED \<Longrightarrow> stat c' = CREATED"
  by (drule asked_keeps) (auto simp: request_stop_def handler_effect_def stat_order)

lemma unborn_step:
  assumes "channel_step hs c c'" and "unborn c" and "stat c = CREATED"
  shows "channel_inv c'"
proof -
  obtain q qs where q: "posts c = q # qs" "begins_with (kind c) q" "in_phase Unborn (c\<lparr>posts := qs\<rparr>)" "writes c = []"
    using assms(2) by (auto simp: unborn_def)
  have idle: "resolves c = 0 \<and> connects c = 0 \<and> handshakes c = 0 \<and> shutdowns c = 0 \<and> reads c = 0"
    using q(3) assms(3) by (auto simp: phase_defs)
  from assms(1) show ?thesis
  proof (cases rule: step_cases)
    case (posted os p ps)
    then show ?thesis using q birth [OF q(3), of q] assms(3) by (simp add: channel_inv_def)
  next
    case asked
    then show ?thesis using asked_unborn asked_CREATED assms(2,3) by (simp add: channel_inv_def)
  qed (use idle q(4) in auto)
qed

lemma living_step:
  assumes "channel_step hs c c'" and "living c"
  shows "living c'"
proof -
  obtain p where p: "in_phase p c" "grown p c" using assms(2) by (auto simp: living_def)
  from assms(1) show ?thesis
  proof (cases rule: step_cases)
    case (posted os q qs)
    then show ?thesis using run_posted_living [OF p] by simp
  next
    case (resolved n failed)
    then show ?thesis using resolve_complete_living [OF p] by simp
  next
    case (connected n error inserted)
    then show ?thesis using connect_complete_living [OF p] by simp
  next
    case (handshaken n error)
    then show ?thesis using handshake_complete_living [OF p] by simp
  next
    case (shut_down n)
    then show ?thesis using shut_down_living [OF p] by simp
  next
    case (read n error bytes sender)
    then show ?thesis using read_complete_living [OF p] by simp
  next
    case (written w ws error)
    then show ?thesis using p write_complete_living [of p "c\<lparr>writes := ws\<rparr>"] by (simp add: grown_def)
  next
    case asked
    then show ?thesis using assms(2) by (rule asked_living)
  qed
qed

lemmas new_channel_defs = new_channel_accepted_def connect_address_def connect_name_def bind_connect_name_def
  bind_connect_address_def udp_channel_new_def channel_new_def context_base.defs context_new_def T_NONE_def tcp_kind_def

lemma unborn_new:
  "unborn (new_channel_accepted ssl)" "connect_address True ssl = Inr c \<Longrightarrow> unborn c"
  "connect_name True ssl = Inr c \<Longrightarrow> unborn c"
  "bind_connect_name True True lp remote_address remote_port v = Inr c \<Longrightarrow> unborn c"
  "bind_connect_address True True lp dest v = Inr c \<Longrightarrow> unborn c"
  by (auto simp: unborn_def phase_defs in_progress_def new_channel_defs)

lemma stat_new:
  "stat (new_channel_accepted ssl) = CREATED" "connect_address True ssl = Inr c \<Longrightarrow> stat c = CREATED"
  "connect_name True ssl = Inr c \<Longrightarrow> stat c = CREATED"
  "bind_connect_name True True lp remote_address remote_port v = Inr c \<Longrightarrow> stat c = CREATED"
  "bind_connect_address True True lp dest v = Inr c \<Longrightarrow> stat c = CREATED"
  by (auto simp: new_channel_defs)

interpretation order_machine: invariant_machine "channel_step hs" channel_inv created "channel_reachable hs" for hs
proof
  show "channel_inv c'" if "channel_step hs c c'" "channel_inv c" for c c'
    using that unborn_step [of hs c c'] living_step [of hs c c'] by (auto simp: channel_inv_def)
  show "channel_inv c" if "created c" for c
    using that unfolding created_def by (elim exE disjE) (simp_all add: channel_inv_def unborn_new stat_new)
qed (auto intro: channel_least)

lemma channel_reachable_inv: "channel_reachable hs c \<Longrightarrow> channel_inv c"
  by (rule order_machine.always)

lemma reachable_phase:
  assumes "channel_reachable hs c"
  obtains p where "run_phase (kind c) Unborn (events c) = Some p" "connected_flag c = (p = Up)" "stat c = CONNECTED \<longrightarrow> p = Up"
    "stat c = BOUND \<longrightarrow> p = Bound" "reads c = (if in_progress 2 c then 1 else 0)" "reads c \<le> 1" "reads c = 1 \<longrightarrow> p \<in> {Bound, Up}"
    "p = Bound \<longrightarrow> kind c = Udp"
proof -
  obtain p where "phase_is p c" and "read_inv p c"
    using channel_reachable_inv [OF assms]
    by (auto simp: channel_inv_def unborn_def living_def in_phase_def phase_is_def read_inv_def in_progress_def)
  moreover have "BOUND < CONNECTED" by (simp add: stat_order)
  ultimately have "stat c = BOUND \<longrightarrow> p = Bound" "reads c \<le> 1" by (auto simp: phase_is_def read_inv_def)
  then show ?thesis using that \<open>phase_is p c\<close> \<open>read_inv p c\<close> by (simp add: phase_is_def read_inv_def)
qed

subsection \<open>The kind of a channel never changes\<close>

lemma kind_callbacks [simp]:
  "kind (close_immediately c) = kind c" "kind (call_channel_disconnected hs c) = kind c" "kind (shutdown_complete hs c) = kind c"
  "kind (close_gracefully hs c) = kind c" "kind (handle_req_close hs c) = kind c" "kind (run_close hs c) = kind c"
  "kind (call_channel_created hs c) = kind c" "kind (call_channel_connected hs c) = kind c"
  "kind (call_channel_bound hs r c) = kind c"
  by (simp_all add: close_immediately_def call_channel_disconnected_def shutdown_complete_def close_without_shutdown_def
      close_gracefully_def close_at_once_def ssl_close_gracefully_def handle_req_close_def run_close_def
      call_channel_created_def call_channel_connected_def call_channel_bound_def fire_keeps Let_def)

lemma kind_write [simp]: "kind (run_write hs obj c) = kind c" "kind (run_write_to hs obj dest c) = kind c"
  using handler_effectD(13) [OF call_channel_write_handler_effect]
  by (auto simp: run_write_def run_write_to_def write_with_def split_beta Let_def write_streambuf_def
      write_streambuf_to_def context_simps split: net_object.splits)

lemma kind_bind: "open_and_bind os hs lp v c = Some c' \<Longrightarrow> kind c' = kind c"
  using kind_callbacks(7) [of hs c]
  by (auto simp: open_and_bind_def open_channel_def bind_channel_def bind_eq_Some_conv split: if_splits)

lemma kind_posted: "run_posted os hs q c = Some c' \<Longrightarrow> kind c' = kind c"
  by (cases q) (auto simp: run_accepted_def tcp_accepted_def ssl_accepted_def run_connect_def run_resolve_def Let_def
      run_bind_name_def run_bind_address_def fire_keeps dest: kind_bind split: if_splits)

lemma kind_complete [simp]:
  "kind (resolve_complete failed c) = kind c" "kind (connect_complete hs error inserted c) = kind c"
  "kind (handshake_complete hs error c) = kind c" "kind (read_complete hs rerr n sender c) = kind c"
  "kind (write_complete hs error n c) = kind c"
  by (simp_all add: resolve_complete_def tcp_resolve_complete_def udp_resolve_complete_def connect_complete_def
      tcp_connect_complete_def udp_connect_complete_def new_channel_connected_def handshake_complete_def
      read_complete_def write_complete_def Let_def split: option.splits read_error.splits)

lemma kind_asked: "asked c c' \<Longrightarrow> kind c' = kind c"
  by (drule asked_keeps) (auto simp: handler_effect_def)

lemma kind_step: "channel_step hs c c' \<Longrightarrow> kind c' = kind c"
  by (erule step_cases) (auto simp: kind_asked dest: kind_posted)

section \<open>Examples\<close>

text \<open>A pipeline with one handler that marks the context done in every callback, and a system whose sockets all
  open and bind.\<close>

definition quiet_handler :: channel_handler where
  "quiet_handler = \<lparr>react = \<lambda>cb c. ([Ask_done], False), encode = \<lambda>obj threw. obj\<rparr>"

definition willing :: os where
  "willing = \<lparr>opens = \<lambda>v. True, binds = \<lambda>v w p. True\<rparr>"

definition next_post :: "channel_handler list \<Rightarrow> channel \<Rightarrow> channel" where
  "next_post hs c =
     (case posts c of [] \<Rightarrow> c
      | p # ps \<Rightarrow> (case run_posted willing hs p (c\<lparr>posts := ps\<rparr>) of None \<Rightarrow> c | Some c' \<Rightarrow> c'))"

lemma next_post_reachable: "channel_reachable hs c \<Longrightarrow> channel_reachable hs (next_post hs c)"
  by (auto simp: next_post_def split: list.splits option.splits intro: channel_go posted)

text \<open>A server channel that is connected, with one buffer being written and one waiting.\<close>

definition two_writes :: channel where
  "two_writes =
     (let hs = [quiet_handler];
          c = next_post hs (new_channel_accepted False);
          c = fst (write_channel (Buffer [1]) c);
          c = fst (write_channel (Buffer [2]) c)
      in next_post hs (next_post hs c))"

lemma two_writes_reachable: "channel_reachable [quiet_handler] two_writes"
  unfolding two_writes_def Let_def
  by (intro next_post_reachable channel_go [OF _ asked_write] from_server)

interpretation forward: persistent "channel_step hs" "\<lambda>_. True" "\<lambda>c c'. stat c \<le> stat c'" for hs
  by unfold_locales (auto dest: channel_step_stat intro: order_trans)

section \<open>Properties\<close>

text \<open>The state of a context proceeds only downward: whatever happens to a channel next, and for any
  handlers, its state is the same or later in the order of \<open>context_stat\<close>.\<close>

theorem stat_monotone: "(channel_step hs)\<^sup>*\<^sup>* c c' \<Longrightarrow> stat c \<le> stat c'"
  using forward.for_ever by blast

theorem stat_monotone_witness:
  "stat (new_channel_accepted False) \<le> stat (run_accepted [quiet_handler] ((new_channel_accepted False)\<lparr>posts := []\<rparr>))"
proof -
  have "channel_step [quiet_handler] (new_channel_accepted False)
      (run_accepted [quiet_handler] ((new_channel_accepted False)\<lparr>posts := []\<rparr>))"
    by (rule posted [of _ Post_accepted "[]" willing]) (simp_all add: new_channel_accepted_def channel_new_def context_base.defs)
  then show ?thesis by (intro stat_monotone [of "[quiet_handler]"] r_into_rtranclp)
qed

text \<open>C22: The callbacks of a channel come in order: created first and once, then bound for UDP, then at most one
  connected, then at most one disconnected; reads and \<open>rdbuf_empty\<close> only while the channel is connected, datagrams
  and writes done only while it is bound or connected. The channel counts as connected exactly between connected
  and disconnected, and at most one read is with asio, only while reads are told and exactly when \<open>T_READ\<close> is
  set.\<close>

theorem event_order:
  assumes "channel_reachable hs c"
  shows "\<exists>p. run_phase (kind c) Unborn (events c) = Some p \<and> connected_flag c = (p = Up) \<and>
    (stat c = CONNECTED \<longrightarrow> p = Up) \<and> (stat c = BOUND \<longrightarrow> p = Bound) \<and>
    reads c = (if in_progress 2 c then 1 else 0) \<and> (reads c = 1 \<longrightarrow> p \<in> {Bound, Up})"
  by (rule reachable_phase [OF assms]) (intro exI conjI, assumption+)

theorem event_order_witness:
  "\<exists>p. run_phase (kind two_writes) Unborn (events two_writes) = Some p \<and> connected_flag two_writes = (p = Up) \<and>
    (stat two_writes = CONNECTED \<longrightarrow> p = Up) \<and> (stat two_writes = BOUND \<longrightarrow> p = Bound) \<and>
    reads two_writes = (if in_progress 2 two_writes then 1 else 0) \<and> (reads two_writes = 1 \<longrightarrow> p \<in> {Bound, Up})"
  by (rule event_order [OF two_writes_reachable])

end
