(* ===== verification/Channel_Writes.thy ===== *)
theory Channel_Writes
  imports Channel_Order
begin

text \<open>
  The queue of buffers to write, of TCP, TLS and UDP channels: buffers leave one at a time, in the order they were
  accepted, a datagram to its destination; and what a failed write leaves behind.
\<close>

section \<open>The queue\<close>

definition write_state :: "channel \<Rightarrow> message list \<times> write_operation list \<times> message list \<times> message list" where
  "write_state c = (write_queue c, writes c, accepted c, finished c)"

text \<open>The operation that carries a message: \<open>write_next_streambuf\<close> looks at the destination and
  \<open>write_streambuf_to\<close> does not.\<close>

definition carries :: "write_operation \<Rightarrow> message \<Rightarrow> bool" where
  "carries w m \<longleftrightarrow> w = write_operation_of m \<or> w = Send_to (payload m) (destination m)"

definition write_inv :: "channel \<Rightarrow> bool" where
  "write_inv c \<longleftrightarrow> (writes c = [] \<or> (\<exists>w m q. writes c = [w] \<and> write_queue c = m # q \<and> carries w m)) \<and>
     accepted c = finished c @ write_queue c"

definition stalled :: "channel \<Rightarrow> bool" where
  "stalled c \<longleftrightarrow> writes c = [] \<and> write_queue c \<noteq> []"

lemma carries_simps [simp]:
  "carries (Send b) \<lparr>payload = b, destination = ip_port_default\<rparr>" "carries (Send_to b dest) \<lparr>payload = b, destination = dest\<rparr>"
  "carries (write_operation_of m) m"
  by (simp_all add: carries_def write_operation_of_def is_valid_def ip_port_default_def)

lemma write_state_effect: "handler_effect c c' \<Longrightarrow> write_state c' = write_state c"
  by (simp add: write_state_def handler_effect_def)

lemma write_state_simple [simp]:
  "write_state (set_done d c) = write_state c" "write_state (set_connected x c) = write_state c"
  "write_state (set_stat s c) = write_state c" "write_state (set_task_in_progress t c) = write_state c"
  "write_state (clear_task_in_progress t c) = write_state c" "write_state (post p c) = write_state c"
  "write_state (close_socket c) = write_state c" "write_state (erase_context c) = write_state c"
  "write_state (start_read c) = write_state c" "write_state (start_connect c) = write_state c"
  "write_state (request_stop c) = write_state c" "write_state (c\<lparr>unread := n\<rparr>) = write_state c"
  "write_state (c\<lparr>reads := n\<rparr>) = write_state c" "write_state (c\<lparr>resolves := n\<rparr>) = write_state c"
  "write_state (c\<lparr>connects := n\<rparr>) = write_state c" "write_state (c\<lparr>handshakes := n\<rparr>) = write_state c"
  "write_state (c\<lparr>shutdowns := n\<rparr>) = write_state c" "write_state (start_handshake c) = write_state c"
  "write_state (c\<lparr>registered := r\<rparr>) = write_state c" "write_state (c\<lparr>socket_open := b\<rparr>) = write_state c"
  "write_state (c\<lparr>posts := ps\<rparr>) = write_state c" "write_state (c\<lparr>events := es\<rparr>) = write_state c"
  by (simp_all add: write_state_def context_simps post_def close_socket_def erase_context_def start_read_def
      start_connect_def start_handshake_def request_stop_def)

lemma write_state_fire [simp]:
  "write_state (fire hs which cb c) = write_state c" "write_state (reset_and_fire hs which cb c) = write_state c"
  "write_state (fire_exception_caught what c) = write_state c"
  using write_state_effect [OF fire_effect [of c cb hs which]]
    write_state_effect [OF fire_effect [of "set_done False c" cb hs which]]
  by (simp_all add: reset_and_fire_def fire_exception_caught_def)

lemma write_state_callbacks [simp]:
  "write_state (call_channel_created hs c) = write_state c" "write_state (call_channel_disconnected hs c) = write_state c"
  "write_state (close_gracefully hs c) = write_state c" "write_state (handle_req_close hs c) = write_state c"
  "write_state (run_close hs c) = write_state c" "write_state (read_if_connected c) = write_state c"
  "write_state (call_channel_connected hs c) = write_state c" "write_state (shutdown_complete hs c) = write_state c"
  "write_state (read_if_open c) = write_state c" "write_state (call_channel_bound hs r c) = write_state c"
  by (simp_all add: call_channel_created_def call_channel_disconnected_def close_gracefully_def handle_req_close_def
      run_close_def read_if_connected_def call_channel_connected_def shutdown_complete_def close_immediately_def
      ssl_close_gracefully_def close_at_once_def close_without_shutdown_def read_if_open_def call_channel_bound_def Let_def)

lemma write_state_read_loop [simp]: "write_state (read_loop hs c) = write_state c"
proof (induction hs c rule: read_loop.induct)
  case (1 hs c)
  then show ?case by (subst read_loop.simps) (auto simp: Let_def)
qed

lemma write_state_read [simp]: "write_state (call_channel_read hs n sender c) = write_state c"
proof -
  have "write_state (fst (call_handlers hs cb d)) = write_state d" for cb d
    by (rule write_state_effect [OF call_handlers_effect])
  then show ?thesis
    by (simp add: call_channel_read_def tcp_call_channel_read_def udp_call_channel_read_def Let_def split_beta)
qed

lemma write_state_complete [simp]:
  "write_state (read_complete hs rerr n sender c) = write_state c" "write_state (connect_complete hs err inserted c) = write_state c"
  "write_state (resolve_complete failed c) = write_state c" "write_state (handshake_complete hs err c) = write_state c"
  by (simp_all add: handshake_complete_def new_channel_connected_def read_complete_def connect_complete_def
      tcp_connect_complete_def udp_connect_complete_def resolve_complete_def tcp_resolve_complete_def
      udp_resolve_complete_def close_immediately_def Let_def split: option.splits read_error.splits)

lemma write_state_bind:
  assumes "open_and_bind os hs lp v c = Some c'" shows "write_state c' = write_state c"
  using assms write_state_callbacks(1) [of hs c]
  by (auto simp: open_and_bind_def open_channel_def bind_channel_def bind_eq_Some_conv split: if_splits)

lemma write_state_asked: "asked c c' \<Longrightarrow> write_state c' = write_state c"
  by (drule asked_keeps) (auto simp: write_state_effect)

lemma push_message_state: "write_state c = write_state d \<Longrightarrow> write_state (push_message m w c) = write_state (push_message m w d)"
  by (simp add: push_message_def write_state_def issue_write_def Let_def)

definition pushes :: "channel \<Rightarrow> channel \<Rightarrow> bool" where
  "pushes c c' \<longleftrightarrow> write_state c' = write_state c \<or>
     (\<exists>m w. carries w m \<and> write_state c' = write_state (push_message m w c))"

lemma write_with_state:
  assumes "\<And>b. carries (w b) (m b)" and "\<And>b d. write b d = push_message (m b) (w b) d"
  shows "pushes c (write_with write hs obj c)"
proof -
  let ?r = "call_channel_write_handler hs obj ((set_done False c)\<lparr>events := events c @ [Channel_write obj]\<rparr>)"
  define e where "e = (if snd (snd ?r) then fire_exception_caught (handler_failed ''channel_write'') (fst (snd ?r)) else fst (snd ?r))"
  have eq: "write_with write hs obj c =
      (case fst ?r of
         Buffer b \<Rightarrow> if stat e = BOUND \<or> stat e = CONNECTED then write b (set_task_in_progress T_WRITE e)
           else fire_exception_caught ''The status of the channel is not suitable for sending data.'' e
       | Other n \<Rightarrow> fire_exception_caught ''The object to be transferred was not serialized to streambuf.'' e)"
    unfolding write_with_def split_beta Let_def e_def by (rule refl)
  have e: "write_state e = write_state c"
    using write_state_effect [OF call_channel_write_handler_effect] by (simp add: e_def)
  then have "write_state (set_task_in_progress T_WRITE e) = write_state c" by simp
  from push_message_state [OF this] have "pushes c (write b (set_task_in_progress T_WRITE e))" for b
    unfolding pushes_def assms(2) using assms(1) by blast
  then show ?thesis using e by (simp add: eq pushes_def split: net_object.splits)
qed

lemma run_posted_state:
  assumes "run_posted os hs p c = Some c'"
  shows "pushes c c'"
proof -
  have "pushes c (run_write hs obj c)" for obj
    unfolding run_write_def by (rule write_with_state [OF carries_simps(1)]) (simp add: write_streambuf_def)
  moreover have "pushes c (run_write_to hs obj dest c)" for obj dest
    unfolding run_write_to_def by (rule write_with_state [OF carries_simps(2)]) (simp add: write_streambuf_to_def)
  moreover have "pushes c c'" if "write_state c' = write_state c" using that by (simp add: pushes_def)
  ultimately show ?thesis
    using assms write_state_bind
    by (cases p) (auto simp: run_accepted_def tcp_accepted_def ssl_accepted_def run_connect_def run_resolve_def
        run_bind_name_def run_bind_address_def Let_def split: if_splits)
qed

text \<open>A step leaves the queue alone, appends to it, or completes the write of its front.\<close>

lemma write_step_cases [consumes 1, case_names same pushed completed]:
  assumes "channel_step hs c c'"
  obtains "write_state c' = write_state c"
  | m w where "carries w m" "write_state c' = write_state (push_message m w c)"
  | w ws error where "writes c = w # ws" "c' = write_complete hs error (sent_bytes w) (c\<lparr>writes := ws\<rparr>)"
  using assms
proof (cases rule: step_cases)
  case (posted os p ps)
  then show ?thesis
    using run_posted_state [of os hs p "c\<lparr>posts := ps\<rparr>"] push_message_state [of "c\<lparr>posts := ps\<rparr>" c] that(1,2)
    by (auto simp: pushes_def)
qed (use that write_state_asked in auto)

lemma write_inv_state: "write_state c = write_state d \<Longrightarrow> write_inv c = write_inv d"
  by (simp add: write_inv_def write_state_def)

lemma stalled_state: "write_state c = write_state d \<Longrightarrow> stalled c = stalled d"
  by (simp add: stalled_def write_state_def)

lemma write_inv_push: "write_inv c \<Longrightarrow> carries w m \<Longrightarrow> write_inv (push_message m w c)"
  by (auto simp: write_inv_def push_message_def issue_write_def Let_def)

lemma stalled_push:
  "stalled c \<Longrightarrow> stalled (push_message m w c) \<and> finished (push_message m w c) = finished c \<and>
     write_queue (push_message m w c) = write_queue c @ [m]"
  by (auto simp: stalled_def push_message_def issue_write_def Let_def)

lemma write_next_state:
  assumes "write_state d = write_state c"
  shows "write_state (write_next_streambuf d) = write_state (write_next_streambuf c)"
    and "has_data_to_write d = (write_queue c \<noteq> [])"
  using assms by (simp_all add: write_next_streambuf_def issue_write_def write_state_def has_data_to_write_def)

lemma written_state:
  "write_state (call_channel_written hs n c) = write_state c \<or>
   write_queue c \<noteq> [] \<and> write_state (call_channel_written hs n c) = write_state (write_next_streambuf c)"
proof -
  let ?d = "if stat c = BOUND \<or> stat c = CONNECTED
            then reset_and_fire hs ''channel_written'' (Channel_written n) c else c"
  have d: "write_state ?d = write_state c" by simp
  have "write_state (set_task_in_progress T_WRITE ?d) = write_state c" using d by simp
  note next_state = write_next_state(1) [OF this]
  show ?thesis
  proof (cases "(stat ?d = BOUND \<or> stat ?d = CONNECTED) \<and> has_data_to_write ?d")
    case True
    then have "call_channel_written hs n c = write_next_streambuf (set_task_in_progress T_WRITE ?d)"
      unfolding call_channel_written_def Let_def by (rule if_P)
    then show ?thesis using next_state write_next_state(2) [OF d] True by (simp only: simp_thms)
  next
    case False
    then have "call_channel_written hs n c = ?d"
      unfolding call_channel_written_def Let_def by (rule if_not_P)
    then show ?thesis using d by (simp only: simp_thms)
  qed
qed

lemma write_complete_inv:
  assumes "write_inv c" and "writes c = w # ws"
  shows "write_inv (write_complete hs error n (c\<lparr>writes := ws\<rparr>))"
proof -
  let ?d = "remove_sent_data (clear_task_in_progress T_WRITE (c\<lparr>writes := ws\<rparr>))"
  obtain m q where "ws = []" "write_queue c = m # q" using assms by (auto simp: write_inv_def)
  then have d: "write_inv ?d" "writes ?d = []" using assms
    by (simp_all add: write_inv_def remove_sent_data_def context_simps)
  then have "write_inv (write_next_streambuf ?d)" if "write_queue ?d \<noteq> []"
    using that by (cases "write_queue ?d") (simp_all add: write_inv_def write_next_streambuf_def issue_write_def)
  then have "write_inv (call_channel_written hs n ?d)"
    using written_state [of hs n ?d] d(1) by (auto dest: write_inv_state)
  moreover have "write_inv (fire_exception_caught what ?d)" for what
    using d(1) write_inv_state [of "fire_exception_caught what ?d" ?d] by simp
  ultimately show ?thesis
    using write_inv_state [OF write_state_callbacks(4)] by (simp add: write_complete_def Let_def split: option.splits)
qed

lemma write_inv_step:
  assumes "channel_step hs c c'" and "write_inv c"
  shows "write_inv c'"
  using assms(1)
proof (cases rule: write_step_cases)
  case same
  then show ?thesis using assms(2) write_inv_state by blast
next
  case (pushed m w)
  then show ?thesis using assms(2) write_inv_state write_inv_push by blast
next
  case (completed w ws error)
  then show ?thesis using assms(2) write_complete_inv by simp
qed

interpretation write_machine: invariant_machine "channel_step hs" write_inv created "channel_reachable hs" for hs
proof
  show "write_inv c" if "created c" for c
    using that by (auto simp: created_def write_inv_def new_channel_defs)
qed (auto intro: write_inv_step channel_least)

lemma reachable_write_inv: "channel_reachable hs c \<Longrightarrow> write_inv c"
  by (rule write_machine.always)

lemma stalled_step:
  assumes "channel_step hs c c'" and "stalled c"
  shows "stalled c' \<and> finished c' = finished c \<and> (\<exists>later. write_queue c' = write_queue c @ later)"
  using assms(1)
proof (cases rule: write_step_cases)
  case same
  then show ?thesis using assms(2) stalled_state [of c' c] by (simp add: write_state_def)
next
  case (pushed m w)
  then show ?thesis
    using stalled_push [OF assms(2), of m w] stalled_state [of c' "push_message m w c"] by (simp add: write_state_def)
next
  case (completed w ws error)
  then show ?thesis using assms(2) by (simp add: stalled_def)
qed

interpretation stalled: persistent "channel_step hs" stalled
  "\<lambda>c c'. finished c' = finished c \<and> (\<exists>later. write_queue c' = write_queue c @ later)" for hs
  using stalled_step by unfold_locales auto

section \<open>Examples\<close>

definition message_of :: "u8 list \<Rightarrow> message" where
  "message_of b = \<lparr>payload = b, destination = ip_port_default\<rparr>"

lemma two_writes_state:
  "writes two_writes = [Send [1]]" "write_queue two_writes = [message_of [1], message_of [2]]"
  "stat two_writes = CONNECTED" "finished two_writes = []"
  by code_simp+

section \<open>Properties\<close>

text \<open>C23: Buffers are written one at a time and in order: at most one write is with asio, it carries the front of
  the queue, to the destination of the front when that is an address, and the buffers finished so far followed
  by the queue are the buffers accepted, in the order of the \<open>write\<close> calls.\<close>

theorem writes_in_order:
  assumes "channel_reachable hs c"
  shows "(writes c = [] \<or>
      (\<exists>w m q. writes c = [w] \<and> write_queue c = m # q \<and> (w = write_operation_of m \<or> w = Send_to (payload m) (destination m)))) \<and>
    accepted c = finished c @ write_queue c"
  using reachable_write_inv [OF assms] by (simp add: write_inv_def carries_def)

theorem writes_in_order_witness:
  "(writes two_writes = [] \<or>
      (\<exists>w m q. writes two_writes = [w] \<and> write_queue two_writes = m # q \<and>
        (w = write_operation_of m \<or> w = Send_to (payload m) (destination m)))) \<and>
    accepted two_writes = finished two_writes @ write_queue two_writes"
  by (rule writes_in_order [OF two_writes_reachable])

text \<open>C24: A failed write stalls the channel: \<open>write_complete\<close> drops the failed buffer and issues no other
  write, and when more buffers were queued no buffer is ever written again, those that are accepted later
  included, although the channel may stay connected.\<close>

theorem write_error_stalls:
  assumes "channel_reachable hs c" and "writes c = w # ws" and "write_queue c = m # next # rest"
    and "c1 = write_complete hs (Some what) n (c\<lparr>writes := ws\<rparr>)" and "(channel_step hs)\<^sup>*\<^sup>* c1 c2"
  shows "writes c2 = [] \<and> finished c2 = finished c @ [m] \<and> (\<exists>later. write_queue c2 = next # rest @ later)"
proof -
  let ?d = "remove_sent_data (clear_task_in_progress T_WRITE (c\<lparr>writes := ws\<rparr>))"
  have "ws = []" using reachable_write_inv [OF assms(1)] assms(2) by (auto simp: write_inv_def)
  then have d: "write_state ?d = (next # rest, [], accepted c, finished c @ [m])"
    using assms(3) by (simp add: write_state_def remove_sent_data_def context_simps)
  moreover have "write_state c1 = write_state ?d" by (simp add: assms(4) write_complete_def Let_def)
  ultimately have c1: "write_queue c1 = next # rest" "writes c1 = []" "finished c1 = finished c @ [m]"
    by (simp_all add: write_state_def)
  then have "stalled c1" by (simp add: stalled_def)
  from stalled.for_ever [OF assms(5) this] show ?thesis using c1 by (auto simp: stalled_def)
qed

theorem write_error_stalls_witness:
  "let c2 = fst (write_channel (Buffer [3])
               (write_complete [quiet_handler] (Some ''broken pipe'') 0 (two_writes\<lparr>writes := []\<rparr>)))
   in writes c2 = [] \<and> finished c2 = [message_of [1]] \<and> (\<exists>later. write_queue c2 = message_of [2] # [] @ later)"
  unfolding Let_def
  using write_error_stalls [OF two_writes_reachable two_writes_state(1,2) refl
      r_into_rtranclp [of "channel_step [quiet_handler]", OF asked_write], where obj2 = "Buffer [3]" and what = "''broken pipe''" and n = 0]
  by (simp add: two_writes_state)

end
