(* ===== verification/Channel_Stop.thy ===== *)
theory Channel_Stop
  imports Channel
begin

text \<open>
  A channel and the stop of its service (\<open>service_base.h\<close> under \<open>src/include/shan/net/\<close>). \<open>stop\<close>, run by the thread of
  \<open>request_stop\<close> or by a destructor, stops asio and joins the workers, so that nothing of a channel runs any more,
  and then closes every context of the service and forgets it. That is the last thing that happens to a channel.
\<close>

text \<open>A channel, and whether its service has been stopped.\<close>

type_synonym hosted = "channel \<times> bool"

inductive hosted_step :: "channel_handler list \<Rightarrow> hosted \<Rightarrow> hosted \<Rightarrow> bool" for hs where
  runs: "channel_step hs c c' \<Longrightarrow> hosted_step hs (c, False) (c', False)"
| stops: "hosted_step hs (c, False) (close_registered c, True)"

inductive_cases hosted_stepE: "hosted_step hs h h'"

lemma hosted_runs: "(channel_step hs)\<^sup>*\<^sup>* c c' \<Longrightarrow> (hosted_step hs)\<^sup>*\<^sup>* (c, False) (c', False)"
proof (induction rule: rtranclp_induct)
  case (step d e)
  from step.IH runs [OF step.hyps(2)] show ?case by (rule rtranclp.rtrancl_into_rtrancl)
qed simp

text \<open>A channel runs, and then its service may have been stopped.\<close>

lemma hosted_cases [consumes 1, case_names running stopped]:
  assumes "(hosted_step hs)\<^sup>*\<^sup>* (c, False) (c', st)"
  obtains "\<not> st" "(channel_step hs)\<^sup>*\<^sup>* c c'"
  | d where "st" "(channel_step hs)\<^sup>*\<^sup>* c d" "c' = close_registered d"
proof -
  have "(\<not> snd h \<and> (channel_step hs)\<^sup>*\<^sup>* c (fst h)) \<or>
      (\<exists>d. snd h \<and> (channel_step hs)\<^sup>*\<^sup>* c d \<and> fst h = close_registered d)"
    if "(hosted_step hs)\<^sup>*\<^sup>* (c, False) h" for h
    using that
  proof (induction rule: rtranclp_induct)
    case (step h h')
    show ?case
      using step.hyps(2) step.IH rtranclp.rtrancl_into_rtrancl [of "channel_step hs" c "fst h" "fst h'"]
      by (elim hosted_stepE) auto
  qed simp
  from this [OF assms] show ?thesis using that by auto
qed

lemma close_registered_simps [simp]:
  "stat (close_registered c) = (if registered c then CLOSED else stat c)"
  "socket_open (close_registered c) \<longleftrightarrow> socket_open c \<and> \<not> registered c"
  "\<not> registered (close_registered c)"
  by (simp_all add: close_registered_def erase_context_def close_immediately_def close_socket_def set_stat_def)

end
