(* ===== verification/Channel_Leaks.thy ===== *)
theory Channel_Leaks
  imports Channel_Writes Channel_Stop
begin

text \<open>
  How a channel comes up when things go wrong: binding a UDP channel, and the contexts that stay behind, with what
  they hold, when a TLS handshake fails and when a UDP channel is closed before it is connected.
\<close>

section \<open>A channel in which nothing can happen any more\<close>

text \<open>Nothing is under way, and no state can be left: the channel was never connected, or is closed, or waits for
  a close that nobody will carry out.\<close>

definition at_rest :: "channel \<Rightarrow> bool" where
  "at_rest c \<longleftrightarrow> stat c = CREATED \<or> stat c = CLOSED \<or> stat c = REQ_CLOSE \<and> Post_close \<notin> set (posts c) \<and> writes c = []"

definition frame :: "channel \<Rightarrow> context_stat \<times> bool \<times> bool \<times> nat \<times> nat \<times> nat" where
  "frame c = (stat c, registered c, socket_open c, startups c, reads c, shutdowns c)"

definition stuck :: "channel \<Rightarrow> bool" where
  "stuck c \<longleftrightarrow> at_rest c \<and> startups c = 0 \<and> reads c = 0 \<and> shutdowns c = 0"

lemma frame_effect:
  assumes "handler_effect c c'" and "at_rest c"
  shows "frame c' = frame c \<and> at_rest c'"
proof -
  have same: "stat c' = stat c" using assms(2) handler_effectD(12) [OF assms(1)] by (auto simp: stat_order at_rest_def)
  moreover have "Post_close \<in> set (posts c') \<Longrightarrow> Post_close \<in> set (posts c) \<or> stat c < REQ_CLOSE"
    by (rule handler_effectD(14) [OF assms(1)])
  ultimately have "at_rest c'"
    using assms(2) handler_effectD(7) [OF assms(1)] by (auto simp: at_rest_def stat_order)
  moreover have "frame c' = frame c"
    using same startups_effect [OF assms(1)] assms(1) by (simp add: frame_def handler_effect_def)
  ultimately show ?thesis by simp
qed

lemma frame_simple [simp]:
  "frame (set_done d c) = frame c" "frame (set_task_in_progress t c) = frame c" "frame (clear_task_in_progress t c) = frame c"
  "frame (c\<lparr>events := es\<rparr>) = frame c" "frame (c\<lparr>writes := bs\<rparr>) = frame c" "frame (remove_sent_data c) = frame c"
  "frame (fire_exception_caught what c) = frame c" "frame (request_stop c) = frame c"
  by (simp_all add: frame_def context_simps startups_def remove_sent_data_def fire_exception_caught_def post_def
      request_stop_def)

lemma at_rest_simple [simp]:
  "at_rest (set_done d c) = at_rest c" "at_rest (set_task_in_progress t c) = at_rest c"
  "at_rest (clear_task_in_progress t c) = at_rest c" "at_rest (c\<lparr>events := es\<rparr>) = at_rest c"
  "at_rest (remove_sent_data c) = at_rest c" "at_rest (fire_exception_caught what c) = at_rest c"
  "at_rest (request_stop c) = at_rest c"
  by (auto simp: at_rest_def context_simps remove_sent_data_def fire_exception_caught_def post_def request_stop_def)

definition kept :: "channel \<Rightarrow> channel \<Rightarrow> bool" where
  "kept c c' \<longleftrightarrow> (at_rest c \<longrightarrow> frame c' = frame c \<and> at_rest c')"

lemma kept_effect: "handler_effect c c' \<Longrightarrow> kept c c'"
  using frame_effect [of c c'] by (simp add: kept_def)

lemma kept_fire: "kept c (reset_and_fire hs which cb c)"
  using kept_effect [OF fire_effect [of "set_done False c" cb hs which]] by (simp add: reset_and_fire_def kept_def)

lemma kept_write: "kept c (write_with write hs obj c)"
proof -
  let ?c = "(set_done False c)\<lparr>events := events c @ [Channel_write obj]\<rparr>"
  have r: "kept ?c (fst (snd (call_channel_write_handler hs obj ?c)))"
    by (rule kept_effect [OF call_channel_write_handler_effect])
  have "at_rest d \<Longrightarrow> stat d \<noteq> BOUND \<and> stat d \<noteq> CONNECTED" for d by (auto simp: at_rest_def)
  then show ?thesis using r by (auto simp: kept_def write_with_def split_beta Let_def split: net_object.splits)
qed

lemma kept_posted:
  assumes "\<not> starts q" and "posts c = q # qs" and "run_posted os hs q (c\<lparr>posts := qs\<rparr>) = Some c'"
  shows "kept c c'"
proof -
  let ?d = "c\<lparr>posts := qs\<rparr>"
  have "kept c ?d" using assms(1,2) by (auto simp: kept_def at_rest_def frame_def startups_def)
  moreover have "kept ?d c'" if "q \<noteq> Post_close"
    using assms(1,3) that kept_fire kept_write by (cases q) (auto simp: run_write_def run_write_to_def)
  moreover have "kept c c'" if "q = Post_close"
  proof -
    have "c' = ?d" if "at_rest c"
      using that assms(2,3) \<open>q = Post_close\<close> by (auto simp: at_rest_def run_close_def)
    then show ?thesis using \<open>kept c ?d\<close> by (auto simp: kept_def)
  qed
  ultimately show ?thesis by (cases "q = Post_close") (auto simp: kept_def)
qed

lemma kept_written:
  assumes "writes c = w # ws"
  shows "kept c (write_complete hs error n (c\<lparr>writes := ws\<rparr>))"
proof (cases "at_rest c")
  case True
  then have rest: "stat c = CREATED \<or> stat c = CLOSED" using assms by (auto simp: at_rest_def)
  have close: "handle_req_close hs d = d" "call_channel_written hs n d = d" if "stat d = stat c" for d
    using that rest by (auto simp: handle_req_close_def call_channel_written_def Let_def)
  have "frame (write_complete hs error n (c\<lparr>writes := ws\<rparr>)) = frame c"
    by (cases error) (simp_all add: write_complete_def Let_def close)
  then show ?thesis using rest by (auto simp: kept_def at_rest_def frame_def)
qed (simp add: kept_def)

lemma stuck_step:
  assumes "channel_step hs c c'" and "stuck c"
  shows "frame c' = frame c \<and> at_rest c'"
proof -
  have c: "at_rest c" using assms(2) by (simp add: stuck_def)
  have start: "filter starts (posts c) = []" "resolves c = 0 \<and> connects c = 0 \<and> handshakes c = 0 \<and> shutdowns c = 0 \<and> reads c = 0"
    using assms(2) by (simp_all add: stuck_def startups_def)
  from assms(1) have "kept c c'"
  proof (cases rule: step_cases)
    case (posted os q qs)
    then have "\<not> starts q" using start(1) by auto
    then show ?thesis using posted by (rule kept_posted)
  next
    case (written w ws error)
    then show ?thesis using kept_written by simp
  next
    case asked
    then show ?thesis by (auto simp: kept_def dest: asked_keeps frame_effect)
  qed (use start(2) in auto)
  then show ?thesis using c by (simp add: kept_def)
qed

interpretation stuck: persistent "channel_step hs" stuck "\<lambda>c c'. frame c' = frame c" for hs
  using stuck_step by unfold_locales (auto simp: stuck_def frame_def)

section \<open>Binding\<close>

lemma bind_result:
  assumes "stat c = CREATED" and "kind c = Udp"
  shows "open_and_bind os hs lp v c =
    (if opens os v \<and> binds os v V4 lp
     then Some (set_stat OPEN ((call_channel_created hs c)\<lparr>socket_open := True\<rparr>)) else None)"
  using created_CREATED [OF assms(1), of hs]
  by (simp add: open_and_bind_def open_channel_def bind_channel_def settable_stat_def stat_order set_stat_def)

lemma created_resolves: "resolves (call_channel_created hs c) = resolves c"
  using fire_effect [of "set_done False c" Channel_created hs "''channel_created''"]
  by (simp add: call_channel_created_def reset_and_fire_def handler_effect_def context_simps)

text \<open>A channel that has been bound, whether it goes on to connect or reads at once. A handler of \<open>channel_bound\<close> may have
  asked for its close.\<close>

definition bound_from :: "channel \<Rightarrow> bool \<Rightarrow> channel \<Rightarrow> bool" where
  "bound_from c connecting d \<longleftrightarrow>
     socket_open d \<and> last (events d) = Channel_bound \<and>
     (stat d = BOUND \<or> stat d = REQ_CLOSE \<and> Post_close \<in> set (posts d)) \<and>
     reads d = (if \<not> connecting \<and> stat d = BOUND then reads c + 1 else reads c)"

lemma bound_result:
  assumes "stat c = OPEN" and "socket_open c"
  shows "bound_from c (\<not> r) (call_channel_bound hs r c)" "resolves (call_channel_bound hs r c) = resolves c"
proof -
  let ?c = "(set_done False (set_stat BOUND c))\<lparr>events := events (set_done False (set_stat BOUND c)) @ [Channel_bound]\<rparr>"
  let ?e = "fire hs ''channel_connected'' Channel_bound (set_done False (set_stat BOUND c))"
  have d: "call_channel_bound hs r c = (if r \<and> stat ?e = BOUND then start_read (set_task_in_progress T_READ ?e) else ?e)"
    using assms(1) by (simp add: call_channel_bound_def settable_stat_def stat_order reset_and_fire_def Let_def)
  have eff: "handler_effect ?c ?e" by (rule fire_effect)
  note e = handler_effectD(3,5,8,12,15) [OF eff]
  have "socket_open ?e" "reads ?e = reads c" "last (events ?e) = Channel_bound" "resolves ?e = resolves c"
    "stat ?e = BOUND \<or> stat ?e = REQ_CLOSE \<and> Post_close \<in> set (posts ?e)"
    using e assms(2) eff by (simp_all add: context_simps handler_effect_def) blast
  then show "bound_from c (\<not> r) (call_channel_bound hs r c)" "resolves (call_channel_bound hs r c) = resolves c"
    unfolding d by (auto simp: bound_from_def start_read_def context_simps)
qed

section \<open>Examples\<close>

definition shaking :: channel where
  "shaking = next_post [quiet_handler] (new_channel_accepted True)"

lemma shaking_reachable: "channel_reachable [quiet_handler] shaking"
  unfolding shaking_def by (intro next_post_reachable from_server)

lemma shaking_state: "handshakes shaking = Suc 0" "socket_open shaking" "registered shaking"
  by code_simp+

text \<open>A UDP channel that is closed while its remote name is resolved; then the name is found.\<close>

definition closed_too_soon :: channel where
  "closed_too_soon =
     (let c = next_post [quiet_handler] (udp_channel_new [Post_bind_name 0 V4 True]);
          c = next_post [quiet_handler] (close_channel c)
      in resolve_complete False (c\<lparr>resolves := 0\<rparr>))"

lemma closed_too_soon_reachable: "channel_reachable [quiet_handler] closed_too_soon"
proof -
  let ?c = "next_post [quiet_handler] (close_channel (next_post [quiet_handler] (udp_channel_new [Post_bind_name 0 V4 True])))"
  have "bind_connect_name True True 0 ''localhost'' 80 V4 = Inr (udp_channel_new [Post_bind_name 0 V4 True])"
    by (simp add: bind_connect_name_def)
  then have "channel_reachable [quiet_handler] ?c"
    by (intro next_post_reachable channel_go [OF _ asked_close] from_bind_name)
  moreover have "resolves ?c = Suc 0" by code_simp
  ultimately show ?thesis unfolding closed_too_soon_def Let_def by (intro channel_go [OF _ resolved])
qed

lemma closed_too_soon_state:
  "kind closed_too_soon = Udp" "connects closed_too_soon = Suc 0" "stat closed_too_soon = CLOSED"
  "socket_open closed_too_soon" "registered closed_too_soon"
  by code_simp+

section \<open>Properties\<close>

text \<open>C32: A failed TLS handshake leaves the context behind: the application is told, but as long as the service is not
  stopped, whatever happens and even when the application calls \<open>close\<close>, the state stays \<open>CREATED\<close>, the socket stays as
  it is, and the context stays among those of the service. Only the stop of the service closes it.\<close>

theorem handshake_failure_leaks:
  assumes "channel_reachable hs c" and "kind c \<noteq> Udp" and "handshakes c = Suc n" and "registered c"
    and "c1 = handshake_complete hs (Some what) (c\<lparr>handshakes := n\<rparr>)" and "(hosted_step hs)\<^sup>*\<^sup>* (c1, False) (c2, stopped)"
  shows "Post_exception what \<in> set (posts c1) \<and>
    (if stopped then stat c2 = CLOSED \<and> \<not> socket_open c2 \<and> \<not> registered c2
     else stat c2 = CREATED \<and> socket_open c2 = socket_open c \<and> registered c2)"
proof -
  let ?d = "c\<lparr>handshakes := n\<rparr>"
  have "living c"
    using channel_reachable_inv [OF assms(1)] assms(3) by (auto simp: channel_inv_def unborn_def phase_defs)
  then obtain p where p: "in_phase p c" "grown p c" by (auto simp: living_def)
  note d = start_next [OF p(1) startups_fields(3) start_fields(3), OF assms(3) _ assms(3), simplified]
  have "p = Born" using d(2) p assms(2) by (auto simp: startable_def in_phase_def phase_is_def)
  have c1: "c1 = fire_exception_caught what (clear_task_in_progress T_HANDSHAKE ?d)"
    by (simp add: assms(5) handshake_complete_def)
  then have frame: "frame c1 = frame ?d" "at_rest c1 = at_rest ?d" by simp_all
  have "stat ?d = CREATED" "stuck ?d"
    using d \<open>p = Born\<close> by (auto simp: stuck_def phase_defs at_rest_def startable_def)
  then have "stuck c1" using frame by (simp add: stuck_def frame_def)
  then have later: "frame d = frame ?d" if "(channel_step hs)\<^sup>*\<^sup>* c1 d" for d
    using stuck.for_ever [OF that] frame by simp
  moreover have "Post_exception what \<in> set (posts c1)" by (simp add: c1 fire_exception_caught_def post_def)
  moreover have "if stopped then stat c2 = CLOSED \<and> \<not> socket_open c2 \<and> \<not> registered c2
     else stat c2 = CREATED \<and> socket_open c2 = socket_open c \<and> registered c2"
    using assms(6)
  proof (cases rule: hosted_cases)
    case running
    then show ?thesis using later \<open>stat ?d = CREATED\<close> assms(4) by (simp add: frame_def)
  next
    case (stopped d)
    then show ?thesis using later [of d] assms(4) by (simp add: frame_def)
  qed
  ultimately show ?thesis by simp
qed

theorem handshake_failure_leaks_witness:
  "let c2 = close_channel (handshake_complete [quiet_handler] (Some ''bad certificate'') (shaking\<lparr>handshakes := 0\<rparr>))
   in stat c2 = CREATED \<and> socket_open c2 \<and> registered c2"
proof -
  have "kind shaking \<noteq> Udp" by code_simp
  from handshake_failure_leaks [OF shaking_reachable this shaking_state(1,3) refl
      hosted_runs [OF r_into_rtranclp [of "channel_step [quiet_handler]", OF asked_close]], where what = "''bad certificate''"]
  show ?thesis by (simp add: Let_def shaking_state)
qed

text \<open>C33: A UDP channel that is closed while it is being connected is not cleaned up. When the connect succeeds after the
  close was carried out, or after the close was looked at and only cancelled the connect, with no write to wait for,
  then as long as the service is not stopped the state, the socket, which connecting may have opened again, and the
  entry among the contexts of the service stay as they are, whatever happens.\<close>

theorem udp_close_lost:
  assumes "channel_reachable hs c" and "kind c = Udp" and "connects c = Suc n" and "registered c"
    and "stat c = CLOSED \<or> stat c = REQ_CLOSE \<and> Post_close \<notin> set (posts c) \<and> writes c = []"
    and "c1 = connect_complete hs None inserted (c\<lparr>connects := n\<rparr>)" and "(hosted_step hs)\<^sup>*\<^sup>* (c1, False) (c2, stopped)"
  shows "if stopped then stat c2 = CLOSED \<and> \<not> socket_open c2 \<and> \<not> registered c2
    else stat c2 = stat c \<and> socket_open c2 = socket_open c \<and> registered c2"
proof -
  let ?d = "c\<lparr>connects := n\<rparr>"
  have "living c"
    using channel_reachable_inv [OF assms(1)] assms(3) by (auto simp: channel_inv_def unborn_def phase_defs)
  then obtain p where p: "in_phase p c" "grown p c" by (auto simp: living_def)
  note d = start_next [OF p(1) startups_fields(2) start_fields(2), OF assms(3) _ assms(3), simplified]
  have "\<not> settable_stat CONNECTED ?d" using assms(5) by (auto simp: settable_stat_def stat_order)
  then have c1: "c1 = clear_task_in_progress T_CONNECT ?d"
    using assms(2,6) by (simp add: connect_complete_def udp_connect_complete_def call_channel_connected_def settable_stat_def)
  have "shutdowns c = 0" using p(1) assms(2) by (simp add: in_phase_def start_inv_def)
  then have "stuck ?d" using d(2) assms(5) by (auto simp: stuck_def startable_def at_rest_def)
  moreover have frame: "frame c1 = frame ?d" "at_rest c1 = at_rest ?d" by (simp_all add: c1)
  ultimately have "stuck c1" by (simp add: stuck_def frame_def)
  then have later: "frame d = frame ?d" if "(channel_step hs)\<^sup>*\<^sup>* c1 d" for d
    using stuck.for_ever [OF that] frame(1) by simp
  show ?thesis
    using assms(7)
  proof (cases rule: hosted_cases)
    case running
    then show ?thesis using later assms(4) by (simp add: frame_def)
  next
    case (stopped d)
    then show ?thesis using later [of d] assms(4) by (simp add: frame_def)
  qed
qed

theorem udp_close_lost_witness:
  "let c2 = close_channel (connect_complete [quiet_handler] None True (closed_too_soon\<lparr>connects := 0\<rparr>))
   in stat c2 = CLOSED \<and> socket_open c2 \<and> registered c2"
proof -
  from udp_close_lost [OF closed_too_soon_reachable closed_too_soon_state(1,2,5) _ refl
      hosted_runs [OF r_into_rtranclp [of "channel_step [quiet_handler]", OF asked_close]]]
  show ?thesis by (simp add: Let_def closed_too_soon_state)
qed

text \<open>C34: Both \<open>bind_connect\<close> succeed exactly when a socket of the requested family can be opened and bound to the port
  of the unspecified address of IPv4, the family is not passed to \<open>bind\<close>; otherwise the exception leaves the worker
  thread. When they succeed the socket is open and the handlers have been told that the channel is bound. With nothing
  to connect to the channel then reads, unless a handler has asked for its close; otherwise it is about to connect, or
  the name is being resolved, also when a handler has asked for its close.\<close>

theorem bind_uses_v4:
  assumes "stat c = CREATED" and "kind c = Udp"
  shows "(case run_bind_address os hs lp v dest c of
      None \<Rightarrow> \<not> (opens os v \<and> binds os v V4 lp)
    | Some d \<Rightarrow> opens os v \<and> binds os v V4 lp \<and> bound_from c (is_valid dest) d \<and> resolves d = resolves c \<and>
        (is_valid dest \<longrightarrow> last (posts d) = Post_start_connect)) \<and>
    (case run_bind_name os hs lp v remote c of
      None \<Rightarrow> \<not> (opens os v \<and> binds os v V4 lp)
    | Some d \<Rightarrow> opens os v \<and> binds os v V4 lp \<and> bound_from c remote d \<and>
        resolves d = (if remote then resolves c + 1 else resolves c))"
proof (cases "opens os v \<and> binds os v V4 lp")
  case True
  let ?c = "set_stat OPEN ((call_channel_created hs c)\<lparr>socket_open := True\<rparr>)"
  have c: "stat ?c = OPEN" "socket_open ?c" "reads ?c = reads c" "resolves ?c = resolves c"
    using created_resolves [of hs c] by (simp_all add: set_stat_def call_channel_created_def fire_keeps)
  have same: "bound_from ?c b = bound_from c b" for b using c(3) by (simp add: bound_from_def fun_eq_iff)
  show ?thesis
    using bound_result [OF c(1,2), where r = True and hs = hs] bound_result [OF c(1,2), where r = False and hs = hs] c(4) True
    by (auto simp: run_bind_address_def run_bind_name_def bind_result [OF assms] same bound_from_def post_def Let_def)
qed (auto simp: run_bind_address_def run_bind_name_def bind_result [OF assms])

theorem bind_uses_v4_witness:
  "let os = \<lparr>opens = \<lambda>v. True, binds = \<lambda>v w p. v = w\<rparr>
   in run_bind_address os [quiet_handler] 8888 V6 ip_port_default (udp_channel_new []) = None \<and>
     run_bind_name os [quiet_handler] 8888 V6 True (udp_channel_new []) = None"
  using bind_uses_v4 [of "udp_channel_new []",
      where os = "\<lparr>opens = \<lambda>v. True, binds = \<lambda>v w p. v = w\<rparr>" and hs = "[quiet_handler]" and lp = 8888 and v = V6
        and dest = ip_port_default and remote = True]
  by (simp add: new_channel_defs Let_def split: option.splits)

end
