(* ===== verification/Tcp_Server.thy ===== *)
theory Tcp_Server
  imports Channel_Leaks
begin

text \<open>
  A TCP or TLS server: the accept loop of \<open>tcp_server_base.h\<close>, \<open>acceptor_context.h\<close> and \<open>acceptor.h\<close>, and the
  state of the service, its contexts, its stop and the registration of handlers of \<open>service_base.h\<close>, all under
  \<open>src/include/shan/net/\<close>. The channels of the server are those of \<open>Channel\<close>, each under the address of its
  channel object, which is its id; they run interleaved. A context that left the map of the service stays
  here until nothing refers to it, and then its address may be used again. Whether the operating system
  grants a listening socket, memory or threads is an argument.

  Shown: every channel of a server keeps the order of callbacks and buffers whatever the others do; the
  accept loop goes on after every result but the end of the acceptor, unless handlers throw for ever; stopping
  closes every channel.
\<close>

section \<open>State\<close>

datatype acceptor_event = Channel_accepted string nat | Acceptor_exception string

text \<open>An acceptor handler, given what was called before and the callback: whether it marks the context done,
  asks the service to stop, and throws.\<close>

record reaction =
  marks_done :: bool
  asks_stop :: bool
  throws :: bool

type_synonym acceptor_handler = "acceptor_event list \<Rightarrow> acceptor_event \<Rightarrow> reaction"

record acceptor_context = context_base +
  acceptor_open :: bool

record server =
  service_stat :: service_stat
  channel_pipeline :: "channel_handler list"
  acceptor_pipeline :: "acceptor_handler list"
  acceptor_ptr :: bool
  acceptor :: acceptor_context
  tls :: bool
  new_channel :: "nat option"
  accepts :: nat
  contexts :: "nat \<Rightarrow> channel option"
  acceptor_events :: "acceptor_event list"

definition acceptor_new :: acceptor_context where
  "acceptor_new = context_base.extend context_new \<lparr>acceptor_open = False\<rparr>"

definition server_new :: "bool \<Rightarrow> server" where
  "server_new ssl =
     \<lparr>service_stat = SERVICE_CREATED, channel_pipeline = [], acceptor_pipeline = [], acceptor_ptr = False,
       acceptor = acceptor_new, tls = ssl, new_channel = None, accepts = 0, contexts = Map.empty,
       acceptor_events = []\<rparr>"

section \<open>Before the start\<close>

definition already_started :: string where
  "already_started = ''the service is already started''"

definition add_channel_handler :: "channel_handler \<Rightarrow> server \<Rightarrow> string + server" where
  "add_channel_handler h s =
     (if service_stat s = SERVICE_CREATED then Inr (s\<lparr>channel_pipeline := channel_pipeline s @ [h]\<rparr>)
      else Inl already_started)"

definition add_acceptor_handler :: "acceptor_handler \<Rightarrow> server \<Rightarrow> string + server" where
  "add_acceptor_handler h s =
     (if service_stat s = SERVICE_CREATED then Inr (s\<lparr>acceptor_pipeline := acceptor_pipeline s @ [h]\<rparr>)
      else Inl already_started)"

section \<open>Stopping\<close>

text \<open>The write calls of the channels look at the state of the service.\<close>

definition not_running :: "server \<Rightarrow> server" where
  "not_running s = s\<lparr>contexts := (\<lambda>i. map_option Channel.request_stop (contexts s i))\<rparr>"

definition server_request_stop :: "server \<Rightarrow> server" where
  "server_request_stop s =
     (if service_stat s = SERVICE_RUNNING then not_running (s\<lparr>service_stat := SERVICE_REQ_STOP\<rparr>) else s)"

definition close_all_channel_immediately :: "server \<Rightarrow> server" where
  "close_all_channel_immediately s = s\<lparr>contexts := (\<lambda>i. map_option close_registered (contexts s i))\<rparr>"

definition acceptor_stop :: "acceptor_context \<Rightarrow> acceptor_context" where
  "acceptor_stop a = (set_stat CLOSED a)\<lparr>acceptor_open := False\<rparr>"

definition service_stop :: "server \<Rightarrow> server" where
  "service_stop s = close_all_channel_immediately (not_running (s\<lparr>service_stat := SERVICE_STOPPED\<rparr>))"

definition server_stop :: "server \<Rightarrow> server result" where
  "server_stop s =
     (let s = service_stop s in
      if acceptor_ptr s then Inr (s\<lparr>acceptor := acceptor_stop (acceptor s), acceptor_ptr := False\<rparr>)
      else Inl (Undefined Null_dereference))"

section \<open>The acceptor\<close>

fun call_acceptor_handlers :: "acceptor_handler list \<Rightarrow> acceptor_event \<Rightarrow> server \<Rightarrow> server \<times> bool" where
  "call_acceptor_handlers [] ev s = (s, False)"
| "call_acceptor_handlers (h # hs) ev s =
     (if done_flag (acceptor s) then (s, False)
      else
        let r = h (acceptor_events s) ev;
            s = (if asks_stop r then server_request_stop s else s);
            s = (if marks_done r then s\<lparr>acceptor := set_done True (acceptor s)\<rparr> else s)
        in if throws r then (s, True) else call_acceptor_handlers hs ev s)"

definition fire_acceptor :: "acceptor_event \<Rightarrow> server \<Rightarrow> server \<times> bool" where
  "fire_acceptor ev s =
     call_acceptor_handlers (acceptor_pipeline s) ev
       (s\<lparr>acceptor := set_done False (acceptor s), acceptor_events := acceptor_events s @ [ev]\<rparr>)"

text \<open>Handlers that throw while they are told of an exception are told of the new one, and so on: \<open>None\<close> is
  the recursion that does not end.\<close>

partial_function (option) call_exception_caught :: "string \<Rightarrow> server \<Rightarrow> server option" where
  "call_exception_caught what s =
     (let (s', threw) = fire_acceptor (Acceptor_exception what) s in
      if threw then call_exception_caught (handler_failed ''exception_caught'') s' else Some s')"

definition call_channel_accepted :: "string \<Rightarrow> nat \<Rightarrow> server \<Rightarrow> server option" where
  "call_channel_accepted address port s =
     (let (s', threw) = fire_acceptor (Channel_accepted address port) s in
      if threw then call_exception_caught (handler_failed ''channel_accepted'') s' else Some s')"

datatype listen_outcome = Listening | Open_throws string | Listen_throws string

definition acceptor_start :: "listen_outcome \<Rightarrow> acceptor_context \<Rightarrow> acceptor_context \<times> string option" where
  "acceptor_start outcome a =
     (if settable_stat STARTED a
      then let a = set_stat STARTED a in
           case outcome of
             Listening \<Rightarrow> (a\<lparr>acceptor_open := True\<rparr>, None)
           | Open_throws what \<Rightarrow> (a, Some what)
           | Listen_throws what \<Rightarrow> (a\<lparr>acceptor_open := True\<rparr>, Some what)
      else (a, None))"

definition acceptor_accept :: "server \<Rightarrow> server" where
  "acceptor_accept s = (if stat (acceptor s) = STARTED then s\<lparr>accepts := accepts s + 1\<rparr> else s)"

definition prepare_new_channel_for_next_accept :: "nat \<Rightarrow> server \<Rightarrow> server" where
  "prepare_new_channel_for_next_accept i s = s\<lparr>new_channel := Some i\<rparr>"

definition returned :: "'a option \<Rightarrow> 'a result" where
  "returned x = (case x of None \<Rightarrow> Inl Out_of_fuel | Some y \<Rightarrow> Inr y)"

text \<open>\<open>start\<close>: when a worker thread cannot be created the exception handler uses the acceptor context
  before there is one.\<close>

definition server_start :: "bool \<Rightarrow> listen_outcome \<Rightarrow> nat \<Rightarrow> server \<Rightarrow> server result" where
  "server_start threads outcome i s =
     (if service_stat s \<noteq> SERVICE_CREATED then Inr s
      else if \<not> threads then Inl (Undefined Null_dereference)
      else
        let (a, exn) = acceptor_start outcome acceptor_new;
            s = s\<lparr>service_stat := SERVICE_RUNNING, acceptor := a, acceptor_ptr := True\<rparr>
        in case exn of
             None \<Rightarrow> Inr (acceptor_accept (prepare_new_channel_for_next_accept i s))
           | Some what \<Rightarrow> returned (call_exception_caught what s))"

subsection \<open>Accepting\<close>

datatype accept_result = Accept_aborted | Accept_failed string | Accept_ok string nat bool

definition accepted_context :: "server \<Rightarrow> channel" where
  "accepted_context s = (new_channel_accepted (tls s))\<lparr>service_running := (service_stat s = SERVICE_RUNNING)\<rparr>"

definition rejected_context :: "server \<Rightarrow> channel" where
  "rejected_context s =
     close_immediately (fire_exception_caught ''critical error. duplicate id for new channel. or not enough memory.''
       ((accepted_context s)\<lparr>registered := False, posts := []\<rparr>))"

text \<open>\<open>emplace\<close> fails for want of memory, when a context with this id is closed and removed, or when there is
  one.\<close>

definition emplaced :: "bool \<Rightarrow> nat \<Rightarrow> server \<Rightarrow> bool" where
  "emplaced memory i s \<longleftrightarrow> memory \<and> \<not> (\<exists>c \<in> set_option (contexts s i). registered c)"

definition accept_next :: "nat \<Rightarrow> server \<Rightarrow> server" where
  "accept_next i s =
     (if stat (acceptor s) = STARTED then acceptor_accept (prepare_new_channel_for_next_accept i s) else s)"

definition accept_complete :: "accept_result \<Rightarrow> nat \<Rightarrow> server \<Rightarrow> server option" where
  "accept_complete r next s =
     (case r of
        Accept_aborted \<Rightarrow> Some s
      | Accept_failed what \<Rightarrow> map_option (accept_next next) (call_exception_caught what s)
      | Accept_ok address port memory \<Rightarrow>
          (case new_channel s of
             None \<Rightarrow> None
           | Some i \<Rightarrow>
               if emplaced memory i s
               then map_option (\<lambda>s. accept_next next (s\<lparr>contexts := (contexts s)(i \<mapsto> accepted_context s)\<rparr>))
                      (call_channel_accepted address port (s\<lparr>new_channel := None\<rparr>))
               else Some (accept_next next (s\<lparr>new_channel := None, contexts := (contexts s)(i \<mapsto> rejected_context s)\<rparr>))))"

section \<open>What can happen\<close>

definition unreferenced :: "channel \<Rightarrow> bool" where
  "unreferenced c \<longleftrightarrow> \<not> registered c \<and> posts c = [] \<and> startups c = 0 \<and> shutdowns c = 0 \<and> reads c = 0 \<and> writes c = []"

inductive server_step :: "server \<Rightarrow> server \<Rightarrow> bool" where
  channel: "service_stat s \<noteq> SERVICE_STOPPED \<Longrightarrow> contexts s i = Some c \<Longrightarrow> channel_step (channel_pipeline s) c c' \<Longrightarrow>
    service_running c' = service_running c \<Longrightarrow> server_step s (s\<lparr>contexts := (contexts s)(i \<mapsto> c')\<rparr>)"
| accept: "service_stat s \<noteq> SERVICE_STOPPED \<Longrightarrow> accepts s = Suc n \<Longrightarrow> contexts s next = None \<Longrightarrow> new_channel s \<noteq> Some next \<Longrightarrow>
    accept_complete r next (s\<lparr>accepts := n\<rparr>) = Some s' \<Longrightarrow> server_step s s'"
| ask_stop: "server_step s (server_request_stop s)"
| stop: "service_stat s \<noteq> SERVICE_STOPPED \<Longrightarrow> server_stop s = Inr s' \<Longrightarrow> server_step s s'"
| free: "contexts s i = Some c \<Longrightarrow> unreferenced c \<Longrightarrow> server_step s (s\<lparr>contexts := (contexts s)(i := None)\<rparr>)"

inductive server_reachable :: "server \<Rightarrow> bool" where
  started: "s = (server_new ssl)\<lparr>channel_pipeline := hs, acceptor_pipeline := ahs\<rparr> \<Longrightarrow>
    server_start threads outcome i s = Inr s' \<Longrightarrow> server_reachable s'"
| server_go: "server_reachable s \<Longrightarrow> server_step s s' \<Longrightarrow> server_reachable s'"

section \<open>What acceptor handlers can change\<close>

definition acceptor_effect :: "server \<Rightarrow> server \<Rightarrow> bool" where
  "acceptor_effect s s' \<longleftrightarrow>
     channel_pipeline s' = channel_pipeline s \<and> acceptor_pipeline s' = acceptor_pipeline s \<and>
     acceptor_ptr s' = acceptor_ptr s \<and> tls s' = tls s \<and> new_channel s' = new_channel s \<and> accepts s' = accepts s \<and>
     stat (acceptor s') = stat (acceptor s) \<and>
     (service_stat s' = service_stat s \<and> contexts s' = contexts s \<or>
      service_stat s = SERVICE_RUNNING \<and> service_stat s' = SERVICE_REQ_STOP \<and>
        contexts s' = (\<lambda>i. map_option Channel.request_stop (contexts s i)))"

lemma acceptor_effect_refl: "acceptor_effect s s"
  by (simp add: acceptor_effect_def)

lemma acceptor_effect_trans: "acceptor_effect a b \<Longrightarrow> acceptor_effect b c \<Longrightarrow> acceptor_effect a c"
  unfolding acceptor_effect_def by (elim conjE disjE) simp_all

lemma acceptor_effect_steps:
  "acceptor_effect s (server_request_stop s)" "acceptor_effect s (s\<lparr>acceptor := set_done d (acceptor s)\<rparr>)"
  "acceptor_effect s (s\<lparr>acceptor := set_done d (acceptor s), acceptor_events := evs\<rparr>)"
  by (simp_all add: acceptor_effect_def server_request_stop_def not_running_def)

lemma call_acceptor_handlers_effect: "acceptor_effect s (fst (call_acceptor_handlers hs ev s))"
proof (induction hs arbitrary: s)
  case (Cons h hs)
  let ?r = "h (acceptor_events s) ev"
  let ?a = "if asks_stop ?r then server_request_stop s else s"
  let ?b = "if marks_done ?r then ?a\<lparr>acceptor := set_done True (acceptor ?a)\<rparr> else ?a"
  have "acceptor_effect s ?a" by (simp add: acceptor_effect_steps acceptor_effect_refl)
  moreover have "acceptor_effect ?a ?b" by (simp add: acceptor_effect_steps acceptor_effect_refl)
  ultimately have b: "acceptor_effect s ?b" by (rule acceptor_effect_trans)
  then show ?case
    using acceptor_effect_trans [OF b Cons.IH [of ?b]] acceptor_effect_refl
    unfolding call_acceptor_handlers.simps Let_def by (simp only: if_split fst_conv) auto
qed (simp add: acceptor_effect_refl)

lemma fire_acceptor_effect: "acceptor_effect s (fst (fire_acceptor ev s))"
  unfolding fire_acceptor_def
  by (rule acceptor_effect_trans [OF acceptor_effect_steps(3) call_acceptor_handlers_effect])

lemma call_exception_caught_effect: "call_exception_caught what s = Some s' \<Longrightarrow> acceptor_effect s s'"
proof (induction rule: call_exception_caught.raw_induct [rotated, consumes 1])
  case (1 f what s s')
  have "acceptor_effect s (fst (fire_acceptor (Acceptor_exception what) s))" by (rule fire_acceptor_effect)
  then show ?case
    using 1 acceptor_effect_trans by (auto simp: split_beta Let_def split: if_splits)
qed

lemma call_channel_accepted_effect: "call_channel_accepted address port s = Some s' \<Longrightarrow> acceptor_effect s s'"
  using fire_acceptor_effect [of s "Channel_accepted address port"]
  by (auto simp: call_channel_accepted_def split_beta Let_def split: if_splits
      intro: acceptor_effect_trans dest: call_exception_caught_effect)

section \<open>The invariant\<close>

text \<open>A context that was refused is closed for good.\<close>

definition rejected :: "channel \<Rightarrow> bool" where
  "rejected c \<longleftrightarrow> stuck c \<and> stat c = CLOSED \<and> \<not> registered c \<and> \<not> socket_open c"

definition serving :: "channel_handler list \<Rightarrow> (nat \<Rightarrow> channel option) \<Rightarrow> bool" where
  "serving hs cs \<longleftrightarrow> (\<forall>i c. cs i = Some c \<longrightarrow> channel_reachable hs c \<or> rejected c)"

definition server_inv :: "server \<Rightarrow> bool" where
  "server_inv s \<longleftrightarrow>
     service_stat s = SERVICE_STOPPED \<or>
     service_stat s \<noteq> SERVICE_CREATED \<and> acceptor_ptr s \<and> stat (acceptor s) = STARTED \<and>
     serving (channel_pipeline s) (contexts s) \<and> accepts s \<le> 1 \<and>
     (accepts s = 1 \<longrightarrow> (\<exists>i. new_channel s = Some i \<and> contexts s i = None))"

lemma rejected_step: "channel_step hs c c' \<Longrightarrow> rejected c \<Longrightarrow> rejected c'"
  using stuck_step [of hs c c'] by (auto simp: rejected_def stuck_def frame_def)

lemma rejected_stop: "rejected c \<Longrightarrow> rejected (Channel.request_stop c)"
  by (auto simp: rejected_def stuck_def Channel.request_stop_def startups_def at_rest_def)

lemma rejected_new: "rejected (rejected_context s)"
  by (simp add: rejected_def rejected_context_def accepted_context_def close_immediately_def close_socket_def context_simps
      fire_exception_caught_def post_def stuck_def startups_def at_rest_def new_channel_defs)

lemma reachable_stop: "channel_reachable hs c \<Longrightarrow> channel_reachable hs (Channel.request_stop c)"
  by (rule channel_go [OF _ asked_stop])

lemma accepted_context_reachable: "channel_reachable hs (accepted_context s)"
proof (cases "service_stat s = SERVICE_RUNNING")
  case True
  then have "accepted_context s = new_channel_accepted (tls s)"
    by (simp add: accepted_context_def new_channel_accepted_def channel_new_def context_base.defs)
  then show ?thesis by (simp add: from_server)
next
  case False
  then have "accepted_context s = Channel.request_stop (new_channel_accepted (tls s))"
    by (simp add: accepted_context_def Channel.request_stop_def)
  then show ?thesis using reachable_stop [OF from_server] by simp
qed

lemma serving_update: "serving hs cs \<Longrightarrow> channel_reachable hs c \<or> rejected c \<Longrightarrow> serving hs (cs(i \<mapsto> c))"
  by (auto simp: serving_def)

lemma serving_stop: "serving hs cs \<Longrightarrow> serving hs (\<lambda>i. map_option Channel.request_stop (cs i))"
  unfolding serving_def using reachable_stop rejected_stop by fastforce

lemma serving_effect:
  assumes "acceptor_effect s s'" and "serving (channel_pipeline s) (contexts s)"
  shows "serving (channel_pipeline s') (contexts s')"
  using assms serving_stop by (auto simp: acceptor_effect_def)

lemma server_inv_effect: "acceptor_effect s s' \<Longrightarrow> server_inv s \<Longrightarrow> server_inv s'"
  using serving_effect [of s s'] by (auto simp: server_inv_def acceptor_effect_def)

lemma accept_next_inv:
  assumes "server_inv s" and "accepts s = 0" and "contexts s i = None"
  shows "server_inv (accept_next i s)"
  using assms by (auto simp: server_inv_def accept_next_def acceptor_accept_def prepare_new_channel_for_next_accept_def)

lemma effect_empty: "acceptor_effect s s' \<Longrightarrow> contexts s i = None \<Longrightarrow> contexts s' i = None"
  by (auto simp: acceptor_effect_def)

text \<open>An accepted channel: with a place in the service, or turned away.\<close>

lemma accept_emplaced_inv:
  assumes e: "server_inv e" "new_channel e = None" "accepts e = 0" "contexts e next = None" "i \<noteq> next"
    and t: "call_channel_accepted address port e = Some t"
    and s': "s' = accept_next next (t\<lparr>contexts := (contexts t)(i \<mapsto> accepted_context t)\<rparr>)"
    and i: "contexts e i = None"
  shows "server_inv s'"
proof -
  have eff: "acceptor_effect e t" using t by (rule call_channel_accepted_effect)
  then have "accepts t = 0" "server_inv t"
    using server_inv_effect [OF eff e(1)] e(3) by (simp_all add: acceptor_effect_def)
  then have "server_inv (t\<lparr>contexts := (contexts t)(i \<mapsto> accepted_context t)\<rparr>)"
    by (auto simp: server_inv_def serving_update accepted_context_reachable)
  then show ?thesis
    unfolding s' using \<open>accepts t = 0\<close> effect_empty [OF eff, of "next"] e(4,5)
    by (intro accept_next_inv) auto
qed

lemma accept_complete_inv:
  assumes "server_inv s" and "service_stat s \<noteq> SERVICE_STOPPED" and "accepts s = Suc n"
    and "contexts s next = None" and "new_channel s \<noteq> Some next" and "accept_complete r next (s\<lparr>accepts := n\<rparr>) = Some s'"
  shows "server_inv s'"
proof -
  let ?d = "s\<lparr>accepts := 0\<rparr>"
  let ?e = "?d\<lparr>new_channel := None\<rparr>"
  have n: "n = 0" and d: "server_inv ?d" and e: "server_inv ?e" using assms(1-3) by (auto simp: server_inv_def)
  obtain i where i: "new_channel s = Some i" "contexts s i = None" using assms(1-3) by (auto simp: server_inv_def)
  consider "r = Accept_aborted" | what where "r = Accept_failed what"
    | address port memory where "r = Accept_ok address port memory" "emplaced memory i ?d"
    | address port memory where "r = Accept_ok address port memory" "\<not> emplaced memory i ?d"
    by (cases r) auto
  then show ?thesis
  proof cases
    case 1
    then show ?thesis using assms(6) d n by (simp add: accept_complete_def)
  next
    case 2
    then obtain t where t: "call_exception_caught what ?d = Some t" "s' = accept_next next t"
      using assms(6) n by (auto simp: accept_complete_def)
    have eff: "acceptor_effect ?d t" using t(1) by (rule call_exception_caught_effect)
    then have "accepts t = 0" by (simp add: acceptor_effect_def)
    then show ?thesis
      unfolding t(2) using server_inv_effect [OF eff d] effect_empty [OF eff] assms(4) by (intro accept_next_inv) simp_all
  next
    case (3 address port memory)
    then obtain t where t: "call_channel_accepted address port ?e = Some t"
        "s' = accept_next next (t\<lparr>contexts := (contexts t)(i \<mapsto> accepted_context t)\<rparr>)"
      using assms(6) n i by (auto simp: accept_complete_def)
    show ?thesis
      using assms(4,5) i by (intro accept_emplaced_inv [OF e _ _ _ _ t]) auto
  next
    case 4
    then have s': "s' = accept_next next (?e\<lparr>contexts := (contexts s)(i \<mapsto> rejected_context ?d)\<rparr>)"
      using assms(6) n i by (simp add: accept_complete_def)
    have "server_inv (?e\<lparr>contexts := (contexts s)(i \<mapsto> rejected_context ?d)\<rparr>)"
      using e by (auto simp: server_inv_def serving_update rejected_new)
    then show ?thesis unfolding s' using assms(4,5) i(1) by (intro accept_next_inv) auto
  qed
qed

lemma channel_step_inv:
  assumes "server_inv s" and "service_stat s \<noteq> SERVICE_STOPPED" and "contexts s i = Some c"
    and "channel_step (channel_pipeline s) c c'"
  shows "server_inv (s\<lparr>contexts := (contexts s)(i \<mapsto> c')\<rparr>)"
proof -
  have "channel_reachable (channel_pipeline s) c \<or> rejected c"
    using assms(1-3) by (auto simp: server_inv_def serving_def)
  then have "channel_reachable (channel_pipeline s) c' \<or> rejected c'"
    using channel_go [OF _ assms(4)] rejected_step [OF assms(4)] by blast
  then have "serving (channel_pipeline s) ((contexts s)(i \<mapsto> c'))"
    using assms(1,2) by (auto simp: server_inv_def intro: serving_update)
  moreover have "(\<exists>j. new_channel s = Some j \<and> contexts s j = None) \<Longrightarrow>
      (\<exists>j. new_channel s = Some j \<and> ((contexts s)(i \<mapsto> c')) j = None)"
    using assms(3) by force
  ultimately show ?thesis using assms(1,2) by (auto simp: server_inv_def)
qed

lemma server_step_inv:
  assumes "server_step s s'" and "server_inv s"
  shows "server_inv s'"
  using assms(1)
proof cases
  case (channel i c c')
  then show ?thesis using channel_step_inv [OF assms(2)] by simp
next
  case (accept n "next" r)
  then show ?thesis using accept_complete_inv [OF assms(2)] by blast
next
  case ask_stop
  then show ?thesis using server_inv_effect [OF acceptor_effect_steps(1) assms(2)] by simp
next
  case stop
  then show ?thesis
    by (auto simp: server_stop_def service_stop_def not_running_def close_all_channel_immediately_def server_inv_def Let_def
        split: if_splits)
next
  case (free i c)
  then show ?thesis using assms(2) by (auto simp: server_inv_def serving_def)
qed

lemma returned_Inr [simp]: "returned x = Inr y \<longleftrightarrow> x = Some y"
  by (simp add: returned_def split: option.splits)

lemma server_start_inv:
  assumes "service_stat s = SERVICE_CREATED" and "accepts s = 0" and "contexts s = Map.empty"
    and "server_start threads outcome i s = Inr s'"
  shows "server_inv s'"
proof -
  let ?s = "s\<lparr>service_stat := SERVICE_RUNNING, acceptor := fst (acceptor_start outcome acceptor_new), acceptor_ptr := True\<rparr>"
  have "stat (fst (acceptor_start outcome acceptor_new)) = STARTED"
    by (simp add: acceptor_start_def acceptor_new_def context_base.defs context_new_def settable_stat_def stat_order
        context_simps Let_def split: listen_outcome.splits)
  then have inv: "server_inv ?s" using assms by (simp add: server_inv_def serving_def)
  show ?thesis
  proof (cases "snd (acceptor_start outcome acceptor_new)")
    case None
    then have "s' = accept_next i ?s"
      using assms(1,4) inv by (auto simp: server_start_def split_beta Let_def accept_next_def server_inv_def split: if_splits)
    then show ?thesis using accept_next_inv [OF inv] assms by simp
  next
    case (Some what)
    then have "call_exception_caught what ?s = Some s'"
      using assms(1,4) by (simp add: server_start_def split_beta Let_def split: if_splits)
    then show ?thesis using server_inv_effect [OF call_exception_caught_effect inv] by simp
  qed
qed

text \<open>A server right after a successful \<open>start\<close>.\<close>

definition started_server :: "server \<Rightarrow> bool" where
  "started_server s \<longleftrightarrow> (\<exists>ssl hs ahs threads outcome i.
     server_start threads outcome i ((server_new ssl)\<lparr>channel_pipeline := hs, acceptor_pipeline := ahs\<rparr>) = Inr s)"

interpretation server_machine: invariant_machine server_step server_inv started_server server_reachable
proof
  show "server_inv s" if start: "started_server s" for s
  proof -
    obtain ssl hs ahs threads outcome i where
      "server_start threads outcome i ((server_new ssl)\<lparr>channel_pipeline := hs, acceptor_pipeline := ahs\<rparr>) = Inr s"
      using start unfolding started_server_def by blast
    then show ?thesis by (rule server_start_inv [rotated 3]) (simp_all add: server_new_def)
  qed
  show "Q s" if "server_reachable s" "\<And>r. started_server r \<Longrightarrow> Q r" "\<And>r t. Q r \<Longrightarrow> server_step r t \<Longrightarrow> Q t" for Q s
    using that by (induction rule: server_reachable.induct) (unfold started_server_def, blast+)
qed (auto intro: server_step_inv)

lemma server_reachable_inv: "server_reachable s \<Longrightarrow> server_inv s"
  by (rule server_machine.always)

section \<open>Handlers that throw\<close>

definition calm :: "server \<Rightarrow> bool" where
  "calm s \<longleftrightarrow> (\<forall>h \<in> set (acceptor_pipeline s). \<forall>evs ev. \<not> throws (h evs ev))"

lemma call_acceptor_handlers_calm:
  "(\<forall>h \<in> set hs. \<forall>evs ev. \<not> throws (h evs ev)) \<Longrightarrow> \<not> snd (call_acceptor_handlers hs ev s)"
  by (induction hs arbitrary: s) (simp_all add: Let_def)

lemma calm_returns:
  assumes "calm s"
  shows "\<exists>s'. call_exception_caught what s = Some s'" "\<exists>s'. call_channel_accepted address port s = Some s'"
  using assms
  by (auto simp: call_exception_caught.simps [of what s] call_channel_accepted_def fire_acceptor_def calm_def split_beta Let_def
      call_acceptor_handlers_calm)

text \<open>With a first handler that always throws, \<open>call_exception_caught\<close> never returns.\<close>

lemma throwing_never_returns:
  assumes "acceptor_pipeline s = h # hs" and "\<And>evs ev. throws (h evs ev)"
  shows "call_exception_caught what s = None"
proof -
  have throw: "snd (fire_acceptor ev t)" if "acceptor_pipeline t = h # hs" for ev t
    using that assms(2) by (simp add: fire_acceptor_def context_simps Let_def)
  have keep: "acceptor_pipeline (fst (fire_acceptor ev t)) = acceptor_pipeline t" for ev t
    using fire_acceptor_effect [of t ev] by (simp add: acceptor_effect_def)
  have "acceptor_pipeline t = h # hs \<longrightarrow> False" if "call_exception_caught what t = Some t'" for what t t'
    using that
  proof (induction rule: call_exception_caught.raw_induct [rotated, consumes 1])
    case (1 f what t t')
    have "acceptor_pipeline (fst (fire_acceptor (Acceptor_exception what) t)) \<noteq> h # hs" if "acceptor_pipeline t = h # hs"
      using 1 throw [OF that] by (auto simp: split_beta Let_def)
    then show ?case using keep by auto
  qed
  then show ?thesis using assms(1) by (cases "call_exception_caught what s") auto
qed

section \<open>After the stop\<close>

lemma stopped_step:
  assumes "server_step s s'" and "service_stat s = SERVICE_STOPPED"
  shows "service_stat s' = SERVICE_STOPPED \<and> acceptor_events s' = acceptor_events s \<and> contexts s' \<subseteq>\<^sub>m contexts s"
  using assms by cases (auto simp: server_request_stop_def map_le_def)

interpretation stopped: persistent server_step "\<lambda>s. service_stat s = SERVICE_STOPPED"
  "\<lambda>s s'. acceptor_events s' = acceptor_events s \<and> contexts s' \<subseteq>\<^sub>m contexts s"
  using stopped_step by unfold_locales (auto intro: map_le_trans)

section \<open>Properties\<close>

definition calm_handler :: acceptor_handler where
  "calm_handler evs ev = \<lparr>marks_done = False, asks_stop = False, throws = False\<rparr>"

text \<open>A server that listens, and the same with one accepted channel under id 1.\<close>

definition listening_server :: server where
  "listening_server =
     (server_new False)\<lparr>channel_pipeline := [quiet_handler], acceptor_pipeline := [calm_handler],
       service_stat := SERVICE_RUNNING, acceptor := fst (acceptor_start Listening acceptor_new), acceptor_ptr := True,
       new_channel := Some 1, accepts := 1\<rparr>"

lemma listening_server_reachable: "server_reachable listening_server"
proof (rule server_reachable.started)
  show "server_start True Listening 1
      ((server_new False)\<lparr>channel_pipeline := [quiet_handler], acceptor_pipeline := [calm_handler]\<rparr>) = Inr listening_server"
    by (simp add: server_start_def server_new_def listening_server_def acceptor_start_def acceptor_new_def context_base.defs
        context_new_def settable_stat_def stat_order context_simps acceptor_accept_def prepare_new_channel_for_next_accept_def)
qed simp

text \<open>C26: Every channel of a running server, while all of them run interleaved and others are accepted, keeps the
  order of its callbacks and of its buffers, has at most one read and one write with asio, and only one accept
  is outstanding, for a channel object that no context uses.\<close>

theorem server_channels_in_order:
  assumes "server_reachable s" and "service_stat s \<noteq> SERVICE_STOPPED" and "contexts s i = Some c" and "registered c"
  shows "(\<exists>p. run_phase (kind c) Unborn (events c) = Some p \<and> connected_flag c = (p = Up)) \<and>
    reads c \<le> 1 \<and> length (writes c) \<le> 1 \<and> accepted c = finished c @ write_queue c \<and>
    accepts s \<le> 1 \<and> (accepts s = 1 \<longrightarrow> new_channel s \<noteq> Some i)"
proof -
  have inv: "server_inv s" by (rule server_reachable_inv [OF assms(1)])
  then have c: "channel_reachable (channel_pipeline s) c"
    using assms(2-4) by (auto simp: server_inv_def serving_def rejected_def)
  have "write_inv c" by (rule reachable_write_inv [OF c])
  then have "length (writes c) \<le> 1" "accepted c = finished c @ write_queue c" by (auto simp: write_inv_def)
  moreover obtain p where "run_phase (kind c) Unborn (events c) = Some p" "connected_flag c = (p = Up)" "reads c \<le> 1"
    by (rule reachable_phase [OF c])
  moreover have "accepts s \<le> 1" "accepts s = 1 \<longrightarrow> new_channel s \<noteq> Some i"
    using inv assms(2,3) by (auto simp: server_inv_def)
  ultimately show ?thesis by blast
qed

text \<open>C27: The accept loop goes on: when no acceptor handler throws, every result of an accept but the end of the
  acceptor leads to the next accept, with a new channel object; an accepted channel enters the service with its
  first callbacks posted.\<close>

theorem accept_loop_goes_on:
  assumes "server_reachable s" and "service_stat s \<noteq> SERVICE_STOPPED" and "accepts s = 1" and "calm s" and "r \<noteq> Accept_aborted"
  shows "\<exists>s' i. accept_complete r next (s\<lparr>accepts := 0\<rparr>) = Some s' \<and> accepts s' = 1 \<and> new_channel s' = Some next \<and>
    new_channel s = Some i \<and>
    (\<forall>address port. r = Accept_ok address port True \<longrightarrow>
      (\<exists>c. contexts s' i = Some c \<and> registered c \<and> posts c = [Post_accepted]))"
proof -
  let ?d = "s\<lparr>accepts := 0\<rparr>"
  have inv: "server_inv s" by (rule server_reachable_inv [OF assms(1)])
  then obtain i where i: "new_channel s = Some i" "contexts s i = None" and started: "stat (acceptor s) = STARTED"
    using assms(2,3) by (auto simp: server_inv_def)
  have calm: "calm ?d" "calm (?d\<lparr>new_channel := None\<rparr>)" using assms(4) by (simp_all add: calm_def)
  have next_accept: "accepts (accept_next next t) = 1 \<and> new_channel (accept_next next t) = Some next \<and>
      contexts (accept_next next t) = contexts t" if "accepts t = 0" "stat (acceptor t) = STARTED" for t
    using that by (simp add: accept_next_def acceptor_accept_def prepare_new_channel_for_next_accept_def)
  show ?thesis
  proof (cases r)
    case (Accept_failed what)
    obtain t where t: "call_exception_caught what ?d = Some t" using calm_returns(1) [OF calm(1)] by blast
    have "accepts t = 0" "stat (acceptor t) = STARTED"
      using call_exception_caught_effect [OF t] started by (simp_all add: acceptor_effect_def)
    then show ?thesis using next_accept [of t] t Accept_failed i by (simp add: accept_complete_def)
  next
    case (Accept_ok address port memory)
    obtain t where t: "call_channel_accepted address port (?d\<lparr>new_channel := None\<rparr>) = Some t"
      using calm_returns(2) [OF calm(2)] by blast
    have "accepts t = 0" "stat (acceptor t) = STARTED"
      using call_channel_accepted_effect [OF t] started by (simp_all add: acceptor_effect_def)
    moreover have "registered (accepted_context t)" "posts (accepted_context t) = [Post_accepted]"
      by (simp_all add: accepted_context_def new_channel_accepted_def channel_new_def context_base.defs)
    ultimately show ?thesis
      using next_accept [of "t\<lparr>contexts := (contexts t)(i \<mapsto> accepted_context t)\<rparr>"] t Accept_ok i started
        next_accept [of "?d\<lparr>new_channel := None, contexts := (contexts s)(i \<mapsto> rejected_context ?d)\<rparr>"]
      by (auto simp: accept_complete_def emplaced_def)
  qed (use assms(5) in simp)
qed

text \<open>C28: Stopping a server never faults and closes everything: the acceptor and every channel of the service are
  closed, the service has no contexts any more, and from then on no handler is called.\<close>

theorem stop_closes_all:
  assumes "server_reachable s" and "service_stat s \<noteq> SERVICE_STOPPED"
  shows "\<exists>s'. server_stop s = Inr s' \<and> \<not> acceptor_open (acceptor s') \<and>
    (\<forall>i c. contexts s i = Some c \<longrightarrow> (\<exists>c'. contexts s' i = Some c' \<and> \<not> registered c' \<and> events c' = events c \<and>
      (registered c \<longrightarrow> stat c' = CLOSED \<and> \<not> socket_open c'))) \<and>
    (\<forall>s''. server_step\<^sup>*\<^sup>* s' s'' \<longrightarrow> service_stat s'' = SERVICE_STOPPED \<and>
      acceptor_events s'' = acceptor_events s \<and> contexts s'' \<subseteq>\<^sub>m contexts s')"
proof -
  let ?s = "(service_stop s)\<lparr>acceptor := acceptor_stop (acceptor s), acceptor_ptr := False\<rparr>"
  have "acceptor_ptr s" using server_reachable_inv [OF assms(1)] assms(2) by (simp add: server_inv_def)
  then have stop: "server_stop s = Inr ?s"
    by (simp add: server_stop_def service_stop_def close_all_channel_immediately_def not_running_def)
  have s: "service_stat ?s = SERVICE_STOPPED" "acceptor_events ?s = acceptor_events s" "\<not> acceptor_open (acceptor ?s)"
    by (simp_all add: service_stop_def close_all_channel_immediately_def not_running_def acceptor_stop_def)
  have closed: "contexts ?s i = map_option (\<lambda>c. close_registered (Channel.request_stop c)) (contexts s i)" for i
    by (simp add: service_stop_def close_all_channel_immediately_def not_running_def option.map_comp comp_def)
  have one: "\<not> registered c' \<and> events c' = events c \<and> (registered c \<longrightarrow> stat c' = CLOSED \<and> \<not> socket_open c')"
    if "c' = close_registered (Channel.request_stop c)" for c c'
    using that by (simp add: close_registered_def Channel.request_stop_def close_immediately_def erase_context_def
        close_socket_def context_simps)
  have all: "\<exists>c'. contexts ?s i = Some c' \<and> \<not> registered c' \<and> events c' = events c \<and>
      (registered c \<longrightarrow> stat c' = CLOSED \<and> \<not> socket_open c')" if "contexts s i = Some c" for i c
    unfolding closed that using one [OF refl, of c] by (intro exI [of _ "close_registered (Channel.request_stop c)"]) simp
  show ?thesis
    using stop s(3) all stopped.for_ever [of ?s] s(1,2) by (intro exI [of _ ?s] conjI allI impI) simp_all
qed

subsection \<open>Examples\<close>

definition serving_server :: server where
  "serving_server = listening_server\<lparr>contexts := [1 \<mapsto> new_channel_accepted False], new_channel := Some 2,
     acceptor_events := [Channel_accepted ''127.0.0.1'' 80]\<rparr>"

lemma serving_server_reachable: "server_reachable serving_server"
proof (rule server_go [OF listening_server_reachable], rule server_step.accept)
  show "accept_complete (Accept_ok ''127.0.0.1'' 80 True) 2 (listening_server\<lparr>accepts := 0\<rparr>) = Some serving_server"
    by (simp add: accept_complete_def listening_server_def serving_server_def server_new_def emplaced_def
        call_channel_accepted_def fire_acceptor_def calm_handler_def accept_next_def acceptor_start_def acceptor_new_def
        context_base.defs context_new_def settable_stat_def stat_order context_simps acceptor_accept_def
        prepare_new_channel_for_next_accept_def accepted_context_def new_channel_accepted_def channel_new_def Let_def)
qed (simp_all add: listening_server_def server_new_def)

lemma serving_server_state:
  "service_stat serving_server = SERVICE_RUNNING" "accepts serving_server = 1" "calm serving_server"
  "contexts serving_server 1 = Some (new_channel_accepted False)" "registered (new_channel_accepted False)"
  by (simp_all add: serving_server_def listening_server_def calm_def calm_handler_def new_channel_accepted_def
      channel_new_def context_base.defs)

theorem server_channels_in_order_witness:
  "(\<exists>p. run_phase Tcp Unborn (events (new_channel_accepted False)) = Some p \<and> connected_flag (new_channel_accepted False) = (p = Up)) \<and>
    reads (new_channel_accepted False) \<le> 1 \<and> accepts serving_server \<le> 1 \<and> new_channel serving_server \<noteq> Some 1"
  using server_channels_in_order [OF serving_server_reachable _ serving_server_state(4,5)] serving_server_state(1,2)
  by (simp add: new_channel_defs)

theorem accept_loop_goes_on_witness:
  "\<exists>s'. accept_complete (Accept_failed ''too many open files'') 3 (serving_server\<lparr>accepts := 0\<rparr>) = Some s' \<and>
    accepts s' = 1 \<and> new_channel s' = Some 3"
  using accept_loop_goes_on [OF serving_server_reachable _ serving_server_state(2,3), of "Accept_failed ''too many open files''" 3]
    serving_server_state(1) by auto

theorem stop_closes_all_witness:
  "\<exists>s' c'. server_stop serving_server = Inr s' \<and> \<not> acceptor_open (acceptor s') \<and> contexts s' 1 = Some c' \<and>
    \<not> registered c' \<and> stat c' = CLOSED \<and> \<not> socket_open c'"
  using stop_closes_all [OF serving_server_reachable] serving_server_state(1,4,5) by fastforce

end
