(* ===== verification/Ssl_Options.thy ===== *)
theory Ssl_Options
  imports Tcp_Server
begin

text \<open>
  The options of the TLS services: \<open>ssl_service_base.h\<close> under \<open>src/include/shan/net/\<close>, with the enumerations of
  \<open>constants.h\<close>. Each method refuses when the service is running and otherwise calls the method of the same name of
  \<open>asio::ssl::context\<close>, whose exceptions it reports with its own name. asio's methods are the fields of a record: given
  their arguments and the context they return the context or throw. A buffer is its bytes.

  Shown: while a service runs no option changes, and before, each call has the effect of asio's.
\<close>

section \<open>asio\<close>

datatype verify_mode = VERIFY_NONE | VERIFY_PEER | VERIFY_FAIL_IF_NO_PEER_CERT | VERIFY_CLIENT_ONCE

datatype file_format = ASN1 | PEM

datatype password_purpose = FOR_READING | FOR_WRITING

text \<open>\<open>X509_STORE_CTX\<close> and asio's \<open>verify_context\<close> are numbers; \<open>native_handle\<close> leads from one to the other.\<close>

record 'c asio_ssl =
  native_handle :: "nat \<Rightarrow> nat"
  asio_clear_options :: "u64 \<Rightarrow> 'c \<Rightarrow> string + 'c"
  asio_set_options :: "u64 \<Rightarrow> 'c \<Rightarrow> string + 'c"
  asio_set_verify_mode :: "verify_mode \<Rightarrow> 'c \<Rightarrow> string + 'c"
  asio_set_verify_depth :: "int \<Rightarrow> 'c \<Rightarrow> string + 'c"
  asio_load_verify_file :: "string \<Rightarrow> 'c \<Rightarrow> string + 'c"
  asio_add_certificate_authority :: "u8 list \<Rightarrow> 'c \<Rightarrow> string + 'c"
  asio_set_default_verify_paths :: "'c \<Rightarrow> string + 'c"
  asio_add_verify_path :: "string \<Rightarrow> 'c \<Rightarrow> string + 'c"
  asio_use_certificate :: "u8 list \<Rightarrow> file_format \<Rightarrow> 'c \<Rightarrow> string + 'c"
  asio_use_certificate_file :: "string \<Rightarrow> file_format \<Rightarrow> 'c \<Rightarrow> string + 'c"
  asio_use_certificate_chain :: "u8 list \<Rightarrow> 'c \<Rightarrow> string + 'c"
  asio_use_certificate_chain_file :: "string \<Rightarrow> 'c \<Rightarrow> string + 'c"
  asio_use_private_key :: "u8 list \<Rightarrow> file_format \<Rightarrow> 'c \<Rightarrow> string + 'c"
  asio_use_private_key_file :: "string \<Rightarrow> file_format \<Rightarrow> 'c \<Rightarrow> string + 'c"
  asio_use_rsa_private_key :: "u8 list \<Rightarrow> file_format \<Rightarrow> 'c \<Rightarrow> string + 'c"
  asio_use_rsa_private_key_file :: "string \<Rightarrow> file_format \<Rightarrow> 'c \<Rightarrow> string + 'c"
  asio_use_tmp_dh :: "u8 list \<Rightarrow> 'c \<Rightarrow> string + 'c"
  asio_use_tmp_dh_file :: "string \<Rightarrow> 'c \<Rightarrow> string + 'c"
  asio_set_verify_callback :: "(bool \<Rightarrow> nat \<Rightarrow> bool) \<Rightarrow> 'c \<Rightarrow> string + 'c"
  asio_set_password_callback :: "(nat \<Rightarrow> password_purpose \<Rightarrow> string) \<Rightarrow> 'c \<Rightarrow> string + 'c"

section \<open>The methods\<close>

definition is_running :: "server \<Rightarrow> bool" where
  "is_running s \<longleftrightarrow> service_stat s = SERVICE_RUNNING"

definition failed :: "string \<Rightarrow> string \<Rightarrow> string" where
  "failed method what = method @ ''() failed. ('' @ what @ '')''"

definition configure :: "string \<Rightarrow> bool \<Rightarrow> ('c \<Rightarrow> string + 'c) \<Rightarrow> 'c \<Rightarrow> string + 'c" where
  "configure method running call ctx =
     (if running then Inl (failed method ''ssl service is already running.'')
      else case call ctx of Inl what \<Rightarrow> Inl (failed method what) | Inr ctx' \<Rightarrow> Inr ctx')"

definition clear_options :: "'c asio_ssl \<Rightarrow> bool \<Rightarrow> u64 \<Rightarrow> 'c \<Rightarrow> string + 'c" where
  "clear_options asio running options ctx =
     configure ''clear_options'' running (asio_clear_options asio options) ctx"

definition set_options :: "'c asio_ssl \<Rightarrow> bool \<Rightarrow> u64 \<Rightarrow> 'c \<Rightarrow> string + 'c" where
  "set_options asio running options ctx =
     configure ''set_options'' running (asio_set_options asio options) ctx"

definition set_verify_mode :: "'c asio_ssl \<Rightarrow> bool \<Rightarrow> verify_mode \<Rightarrow> 'c \<Rightarrow> string + 'c" where
  "set_verify_mode asio running v ctx =
     configure ''set_verify_mode'' running (asio_set_verify_mode asio v) ctx"

definition set_verify_depth :: "'c asio_ssl \<Rightarrow> bool \<Rightarrow> int \<Rightarrow> 'c \<Rightarrow> string + 'c" where
  "set_verify_depth asio running depth ctx =
     configure ''set_verify_depth'' running (asio_set_verify_depth asio depth) ctx"

definition load_verify_file :: "'c asio_ssl \<Rightarrow> bool \<Rightarrow> string \<Rightarrow> 'c \<Rightarrow> string + 'c" where
  "load_verify_file asio running filename ctx =
     configure ''load_verify_file'' running (asio_load_verify_file asio filename) ctx"

definition add_certificate_authority :: "'c asio_ssl \<Rightarrow> bool \<Rightarrow> u8 list \<Rightarrow> 'c \<Rightarrow> string + 'c" where
  "add_certificate_authority asio running ca ctx =
     configure ''add_certificate_authority'' running (asio_add_certificate_authority asio ca) ctx"

definition set_default_verify_paths :: "'c asio_ssl \<Rightarrow> bool \<Rightarrow> 'c \<Rightarrow> string + 'c" where
  "set_default_verify_paths asio running ctx =
     configure ''set_default_verify_paths'' running (asio_set_default_verify_paths asio) ctx"

definition add_verify_path :: "'c asio_ssl \<Rightarrow> bool \<Rightarrow> string \<Rightarrow> 'c \<Rightarrow> string + 'c" where
  "add_verify_path asio running path ctx =
     configure ''add_verify_path'' running (asio_add_verify_path asio path) ctx"

definition use_certificate :: "'c asio_ssl \<Rightarrow> bool \<Rightarrow> u8 list \<Rightarrow> file_format \<Rightarrow> 'c \<Rightarrow> string + 'c" where
  "use_certificate asio running cert fmt ctx =
     configure ''use_certificate'' running (asio_use_certificate asio cert fmt) ctx"

definition use_certificate_file :: "'c asio_ssl \<Rightarrow> bool \<Rightarrow> string \<Rightarrow> file_format \<Rightarrow> 'c \<Rightarrow> string + 'c" where
  "use_certificate_file asio running filename fmt ctx =
     configure ''use_certificate_file'' running (asio_use_certificate_file asio filename fmt) ctx"

definition use_certificate_chain :: "'c asio_ssl \<Rightarrow> bool \<Rightarrow> u8 list \<Rightarrow> 'c \<Rightarrow> string + 'c" where
  "use_certificate_chain asio running chain ctx =
     configure ''use_certificate_chain'' running (asio_use_certificate_chain asio chain) ctx"

definition use_certificate_chain_file :: "'c asio_ssl \<Rightarrow> bool \<Rightarrow> string \<Rightarrow> 'c \<Rightarrow> string + 'c" where
  "use_certificate_chain_file asio running filename ctx =
     configure ''use_certificate_chain_file'' running (asio_use_certificate_chain_file asio filename) ctx"

definition use_private_key :: "'c asio_ssl \<Rightarrow> bool \<Rightarrow> u8 list \<Rightarrow> file_format \<Rightarrow> 'c \<Rightarrow> string + 'c" where
  "use_private_key asio running private_key fmt ctx =
     configure ''use_private_key'' running (asio_use_private_key asio private_key fmt) ctx"

definition use_private_key_file :: "'c asio_ssl \<Rightarrow> bool \<Rightarrow> string \<Rightarrow> file_format \<Rightarrow> 'c \<Rightarrow> string + 'c" where
  "use_private_key_file asio running filename fmt ctx =
     configure ''use_private_key_file'' running (asio_use_private_key_file asio filename fmt) ctx"

definition use_rsa_private_key :: "'c asio_ssl \<Rightarrow> bool \<Rightarrow> u8 list \<Rightarrow> file_format \<Rightarrow> 'c \<Rightarrow> string + 'c" where
  "use_rsa_private_key asio running private_key fmt ctx =
     configure ''use_rsa_private_key'' running (asio_use_rsa_private_key asio private_key fmt) ctx"

definition use_rsa_private_key_file :: "'c asio_ssl \<Rightarrow> bool \<Rightarrow> string \<Rightarrow> file_format \<Rightarrow> 'c \<Rightarrow> string + 'c" where
  "use_rsa_private_key_file asio running filename fmt ctx =
     configure ''use_rsa_private_key_file'' running (asio_use_rsa_private_key_file asio filename fmt) ctx"

definition use_tmp_dh :: "'c asio_ssl \<Rightarrow> bool \<Rightarrow> u8 list \<Rightarrow> 'c \<Rightarrow> string + 'c" where
  "use_tmp_dh asio running dh ctx =
     configure ''use_tmp_dh'' running (asio_use_tmp_dh asio dh) ctx"

definition use_tmp_dh_file :: "'c asio_ssl \<Rightarrow> bool \<Rightarrow> string \<Rightarrow> 'c \<Rightarrow> string + 'c" where
  "use_tmp_dh_file asio running filename ctx =
     configure ''use_tmp_dh_file'' running (asio_use_tmp_dh_file asio filename) ctx"

definition set_verify_callback :: "'c asio_ssl \<Rightarrow> bool \<Rightarrow> (bool \<Rightarrow> nat \<Rightarrow> bool) \<Rightarrow> 'c \<Rightarrow> string + 'c" where
  "set_verify_callback asio running verify_cb ctx =
     configure ''set_verify_callback'' running (asio_set_verify_callback asio (\<lambda>preverified ctx. verify_cb preverified (native_handle asio ctx))) ctx"

definition set_password_callback :: "'c asio_ssl \<Rightarrow> bool \<Rightarrow> (nat \<Rightarrow> password_purpose \<Rightarrow> string) \<Rightarrow> 'c \<Rightarrow> string + 'c" where
  "set_password_callback asio running pw_cb ctx =
     configure ''set_password_callback'' running (asio_set_password_callback asio (\<lambda>max_length purpose. pw_cb max_length purpose)) ctx"

text \<open>Any of these calls.\<close>

datatype ssl_call =
    Clear_options u64
  | Set_options u64
  | Set_verify_mode verify_mode
  | Set_verify_depth int
  | Load_verify_file string
  | Add_certificate_authority "u8 list"
  | Set_default_verify_paths
  | Add_verify_path string
  | Use_certificate "u8 list" file_format
  | Use_certificate_file string file_format
  | Use_certificate_chain "u8 list"
  | Use_certificate_chain_file string
  | Use_private_key "u8 list" file_format
  | Use_private_key_file string file_format
  | Use_rsa_private_key "u8 list" file_format
  | Use_rsa_private_key_file string file_format
  | Use_tmp_dh "u8 list"
  | Use_tmp_dh_file string
  | Set_verify_callback "bool \<Rightarrow> nat \<Rightarrow> bool"
  | Set_password_callback "nat \<Rightarrow> password_purpose \<Rightarrow> string"

fun call_name :: "ssl_call \<Rightarrow> string" where
  "call_name (Clear_options options) = ''clear_options''"
| "call_name (Set_options options) = ''set_options''"
| "call_name (Set_verify_mode v) = ''set_verify_mode''"
| "call_name (Set_verify_depth depth) = ''set_verify_depth''"
| "call_name (Load_verify_file filename) = ''load_verify_file''"
| "call_name (Add_certificate_authority ca) = ''add_certificate_authority''"
| "call_name Set_default_verify_paths = ''set_default_verify_paths''"
| "call_name (Add_verify_path path) = ''add_verify_path''"
| "call_name (Use_certificate cert fmt) = ''use_certificate''"
| "call_name (Use_certificate_file filename fmt) = ''use_certificate_file''"
| "call_name (Use_certificate_chain chain) = ''use_certificate_chain''"
| "call_name (Use_certificate_chain_file filename) = ''use_certificate_chain_file''"
| "call_name (Use_private_key private_key fmt) = ''use_private_key''"
| "call_name (Use_private_key_file filename fmt) = ''use_private_key_file''"
| "call_name (Use_rsa_private_key private_key fmt) = ''use_rsa_private_key''"
| "call_name (Use_rsa_private_key_file filename fmt) = ''use_rsa_private_key_file''"
| "call_name (Use_tmp_dh dh) = ''use_tmp_dh''"
| "call_name (Use_tmp_dh_file filename) = ''use_tmp_dh_file''"
| "call_name (Set_verify_callback verify_cb) = ''set_verify_callback''"
| "call_name (Set_password_callback pw_cb) = ''set_password_callback''"

fun call_option :: "'c asio_ssl \<Rightarrow> bool \<Rightarrow> ssl_call \<Rightarrow> 'c \<Rightarrow> string + 'c" where
  "call_option asio running (Clear_options options) ctx = clear_options asio running options ctx"
| "call_option asio running (Set_options options) ctx = set_options asio running options ctx"
| "call_option asio running (Set_verify_mode v) ctx = set_verify_mode asio running v ctx"
| "call_option asio running (Set_verify_depth depth) ctx = set_verify_depth asio running depth ctx"
| "call_option asio running (Load_verify_file filename) ctx = load_verify_file asio running filename ctx"
| "call_option asio running (Add_certificate_authority ca) ctx = add_certificate_authority asio running ca ctx"
| "call_option asio running Set_default_verify_paths ctx = set_default_verify_paths asio running ctx"
| "call_option asio running (Add_verify_path path) ctx = add_verify_path asio running path ctx"
| "call_option asio running (Use_certificate cert fmt) ctx = use_certificate asio running cert fmt ctx"
| "call_option asio running (Use_certificate_file filename fmt) ctx = use_certificate_file asio running filename fmt ctx"
| "call_option asio running (Use_certificate_chain chain) ctx = use_certificate_chain asio running chain ctx"
| "call_option asio running (Use_certificate_chain_file filename) ctx = use_certificate_chain_file asio running filename ctx"
| "call_option asio running (Use_private_key private_key fmt) ctx = use_private_key asio running private_key fmt ctx"
| "call_option asio running (Use_private_key_file filename fmt) ctx = use_private_key_file asio running filename fmt ctx"
| "call_option asio running (Use_rsa_private_key private_key fmt) ctx = use_rsa_private_key asio running private_key fmt ctx"
| "call_option asio running (Use_rsa_private_key_file filename fmt) ctx = use_rsa_private_key_file asio running filename fmt ctx"
| "call_option asio running (Use_tmp_dh dh) ctx = use_tmp_dh asio running dh ctx"
| "call_option asio running (Use_tmp_dh_file filename) ctx = use_tmp_dh_file asio running filename ctx"
| "call_option asio running (Set_verify_callback verify_cb) ctx = set_verify_callback asio running verify_cb ctx"
| "call_option asio running (Set_password_callback pw_cb) ctx = set_password_callback asio running pw_cb ctx"

fun asio_call :: "'c asio_ssl \<Rightarrow> ssl_call \<Rightarrow> 'c \<Rightarrow> string + 'c" where
  "asio_call asio (Clear_options options) = asio_clear_options asio options"
| "asio_call asio (Set_options options) = asio_set_options asio options"
| "asio_call asio (Set_verify_mode v) = asio_set_verify_mode asio v"
| "asio_call asio (Set_verify_depth depth) = asio_set_verify_depth asio depth"
| "asio_call asio (Load_verify_file filename) = asio_load_verify_file asio filename"
| "asio_call asio (Add_certificate_authority ca) = asio_add_certificate_authority asio ca"
| "asio_call asio Set_default_verify_paths = asio_set_default_verify_paths asio"
| "asio_call asio (Add_verify_path path) = asio_add_verify_path asio path"
| "asio_call asio (Use_certificate cert fmt) = asio_use_certificate asio cert fmt"
| "asio_call asio (Use_certificate_file filename fmt) = asio_use_certificate_file asio filename fmt"
| "asio_call asio (Use_certificate_chain chain) = asio_use_certificate_chain asio chain"
| "asio_call asio (Use_certificate_chain_file filename) = asio_use_certificate_chain_file asio filename"
| "asio_call asio (Use_private_key private_key fmt) = asio_use_private_key asio private_key fmt"
| "asio_call asio (Use_private_key_file filename fmt) = asio_use_private_key_file asio filename fmt"
| "asio_call asio (Use_rsa_private_key private_key fmt) = asio_use_rsa_private_key asio private_key fmt"
| "asio_call asio (Use_rsa_private_key_file filename fmt) = asio_use_rsa_private_key_file asio filename fmt"
| "asio_call asio (Use_tmp_dh dh) = asio_use_tmp_dh asio dh"
| "asio_call asio (Use_tmp_dh_file filename) = asio_use_tmp_dh_file asio filename"
| "asio_call asio (Set_verify_callback verify_cb) = asio_set_verify_callback asio (\<lambda>pre v. verify_cb pre (native_handle asio v))"
| "asio_call asio (Set_password_callback pw_cb) = asio_set_password_callback asio pw_cb"

lemmas ssl_defs = clear_options_def set_options_def set_verify_mode_def set_verify_depth_def load_verify_file_def
  add_certificate_authority_def set_default_verify_paths_def add_verify_path_def use_certificate_def
  use_certificate_file_def use_certificate_chain_def use_certificate_chain_file_def use_private_key_def
  use_private_key_file_def use_rsa_private_key_def use_rsa_private_key_file_def use_tmp_dh_def
  use_tmp_dh_file_def set_verify_callback_def set_password_callback_def

text \<open>Every method is \<open>configure\<close> of asio's method of the same name.\<close>

lemma call_option_configure: "call_option asio running call ctx = configure (call_name call) running (asio_call asio call) ctx"
  by (cases call) (simp_all add: ssl_defs)

text \<open>The service counts as not running from the moment it is asked to stop.\<close>

lemma not_running_when_asked: "\<not> is_running (server_request_stop s)"
  by (simp add: is_running_def server_request_stop_def not_running_def)

section \<open>A history of calls\<close>

text \<open>Calls with whether the service was running; what they throw is lost on the context.\<close>

fun ssl_history :: "'c asio_ssl \<Rightarrow> (bool \<times> ssl_call) list \<Rightarrow> 'c \<Rightarrow> 'c" where
  "ssl_history asio [] ctx = ctx"
| "ssl_history asio ((running, call) # calls) ctx =
     ssl_history asio calls (case call_option asio running call ctx of Inl what \<Rightarrow> ctx | Inr ctx' \<Rightarrow> ctx')"

text \<open>The options of a TLS service are frozen while it runs: a call throws, naming its method, and the context is
  what the calls made while the service did not run left. Otherwise a call does what asio's method of the same name
  does with the same arguments, and reports its exceptions under its own name.\<close>

theorem ssl_options_frozen:
  "call_option asio True call ctx = Inl (call_name call @ ''() failed. (ssl service is already running.)'') \<and>
   ssl_history asio calls ctx = ssl_history asio (filter (\<lambda>(running, call). \<not> running) calls) ctx \<and>
   call_option asio False call ctx =
     (case asio_call asio call ctx of Inl what \<Rightarrow> Inl (call_name call @ ''() failed. ('' @ what @ '')'') | Inr ctx' \<Rightarrow> Inr ctx')"
proof -
  have "ssl_history asio calls ctx = ssl_history asio (filter (\<lambda>(running, call). \<not> running) calls) ctx" for calls ctx
    by (induction asio calls ctx rule: ssl_history.induct) (auto simp: call_option_configure configure_def)
  from this [of calls ctx] show ?thesis by (simp add: call_option_configure configure_def failed_def split: sum.splits)
qed

end
