(* ===== verification/Idle_Monitor.thy ===== *)
theory Idle_Monitor
  imports Transitions
begin

text \<open>
  \<open>tcp_idle_monitor\<close> of \<open>src/include/shan/net/tcp_idle_monitor.h\<close>: a channel handler that fires a user event when
  nothing was read or written on a channel for some time.

  Channels are named by their id; of the service the monitor needs the set of the ids of its contexts. Time is in
  milliseconds and passes in steps of its own. A \<open>steady_timer\<close> is the deadline of its pending wait: setting
  the expiry cancels the wait before it, and a wait whose deadline has passed becomes a call of \<open>timeout\<close> that is
  queued in the strand and cannot be cancelled any more. Cancelled waits call \<open>timeout\<close> with an error, which does
  nothing. The strands of different channels share \<open>_monitors\<close> without a lock in the source; here their
  functions run one at a time. \<open>idle_events\<close> and \<open>last_activity\<close> are records and not part of the program.
\<close>

section \<open>State\<close>

record monitor =
  monitor_id :: int
  expire_time :: int
  monitor_param :: nat
  deadline :: "int option"

record idle_monitor =
  default_id :: int
  default_expire :: int
  default_param :: nat
  service_known :: bool
  monitors :: "nat \<Rightarrow> monitor option"
  service_contexts :: "nat set"
  resets :: "(nat \<times> int \<times> int \<times> nat) list"
  fired :: "nat list"
  now :: int
  idle_events :: "(nat \<times> int \<times> nat \<times> int) list"
  last_activity :: "nat \<Rightarrow> int"

definition idle_monitor_new :: "int \<Rightarrow> int \<Rightarrow> nat \<Rightarrow> string + idle_monitor" where
  "idle_monitor_new i expire p =
     (if expire \<le> 0 then Inl ''invalid expiration time.''
      else Inr \<lparr>default_id = i, default_expire = expire, default_param = p, service_known = False, monitors = Map.empty,
        service_contexts = {}, resets = [], fired = [], now = 0, idle_events = [], last_activity = (\<lambda>ch. 0)\<rparr>)"

section \<open>Timers\<close>

definition reset_timer :: "int \<Rightarrow> monitor \<Rightarrow> monitor" where
  "reset_timer t m = m\<lparr>deadline := Some (t + expire_time m)\<rparr>"

definition reset_timer_to :: "int \<Rightarrow> int \<Rightarrow> int \<Rightarrow> nat \<Rightarrow> monitor \<Rightarrow> monitor" where
  "reset_timer_to t i expire p m =
     (let m = m\<lparr>monitor_id := i, expire_time := expire, monitor_param := p\<rparr>
      in if expire_time m > 0 then m\<lparr>deadline := Some (t + expire_time m)\<rparr> else m\<lparr>deadline := None\<rparr>)"

definition monitor_new :: "int \<Rightarrow> int \<Rightarrow> int \<Rightarrow> nat \<Rightarrow> monitor" where
  "monitor_new t i expire p =
     reset_timer_to t i expire p \<lparr>monitor_id = i, expire_time = expire, monitor_param = p, deadline = None\<rparr>"

definition active :: "nat \<Rightarrow> idle_monitor \<Rightarrow> idle_monitor" where
  "active ch s = s\<lparr>last_activity := (last_activity s)(ch := now s)\<rparr>"

definition set_monitor :: "nat \<Rightarrow> monitor \<Rightarrow> idle_monitor \<Rightarrow> idle_monitor" where
  "set_monitor ch m s = active ch (s\<lparr>monitors := (monitors s)(ch \<mapsto> m)\<rparr>)"

section \<open>Callbacks\<close>

text \<open>\<open>emplace\<close> keeps a monitor that is there.\<close>

definition channel_connected :: "nat \<Rightarrow> idle_monitor \<Rightarrow> idle_monitor" where
  "channel_connected ch s =
     (let s = s\<lparr>service_known := True\<rparr> in
      case monitors s ch of
        Some m \<Rightarrow> s
      | None \<Rightarrow> set_monitor ch (monitor_new (now s) (default_id s) (default_expire s) (default_param s)) s)"

definition channel_read :: "nat \<Rightarrow> idle_monitor \<Rightarrow> idle_monitor" where
  "channel_read ch s = (case monitors s ch of None \<Rightarrow> s | Some m \<Rightarrow> set_monitor ch (reset_timer (now s) m) s)"

definition channel_write :: "nat \<Rightarrow> idle_monitor \<Rightarrow> idle_monitor" where
  "channel_write ch s = (case monitors s ch of None \<Rightarrow> s | Some m \<Rightarrow> set_monitor ch (reset_timer (now s) m) s)"

definition channel_disconnected :: "nat \<Rightarrow> idle_monitor \<Rightarrow> idle_monitor" where
  "channel_disconnected ch s = s\<lparr>monitors := (monitors s)(ch := None)\<rparr>"

text \<open>\<open>channel_context_of\<close> returns a null pointer for an unknown id; dereferencing it is not an exception. Before
  the first channel is connected \<open>_service_p\<close> has no value.\<close>

definition channel_context_of :: "nat \<Rightarrow> idle_monitor \<Rightarrow> unit result" where
  "channel_context_of ch s =
     (if \<not> service_known s then Inl (Undefined Uninitialized_pointer)
      else if ch \<in> service_contexts s then Inr () else Inl (Undefined Null_dereference))"

definition reset_channel_timer :: "nat \<Rightarrow> int \<Rightarrow> int \<Rightarrow> nat \<Rightarrow> idle_monitor \<Rightarrow> idle_monitor result" where
  "reset_channel_timer ch i expire p s =
     bind_result (channel_context_of ch s) (\<lambda>_. Inr (s\<lparr>resets := resets s @ [(ch, i, expire, p)]\<rparr>))"

definition run_reset :: "nat \<times> int \<times> int \<times> nat \<Rightarrow> idle_monitor \<Rightarrow> idle_monitor result" where
  "run_reset r s =
     (case r of (ch, i, expire, p) \<Rightarrow>
        case monitors s ch of
          None \<Rightarrow> Inr s
        | Some m \<Rightarrow>
            bind_result (channel_context_of ch s) (\<lambda>_. Inr (set_monitor ch (reset_timer_to (now s) i expire p m) s)))"

definition fire_idle_event :: "nat \<Rightarrow> monitor \<Rightarrow> idle_monitor \<Rightarrow> idle_monitor result" where
  "fire_idle_event ch m s =
     (if \<not> service_known s then Inl (Undefined Uninitialized_pointer)
      else Inr (if ch \<in> service_contexts s
                then s\<lparr>idle_events := idle_events s @ [(ch, monitor_id m, monitor_param m, now s)]\<rparr> else s))"

definition timeout :: "bool \<Rightarrow> nat \<Rightarrow> idle_monitor \<Rightarrow> idle_monitor result" where
  "timeout error ch s =
     (if error then Inr s
      else case monitors s ch of
        None \<Rightarrow> Inr s
      | Some m \<Rightarrow>
          bind_result (fire_idle_event ch m s) (\<lambda>s.
            bind_result (channel_context_of ch s) (\<lambda>_. Inr (set_monitor ch (reset_timer (now s) m) s))))"

section \<open>What can happen\<close>

text \<open>A context enters the service before it is connected, and leaves it in the function that tells the handlers
  of the disconnect.\<close>

inductive idle_step :: "idle_monitor \<Rightarrow> idle_monitor \<Rightarrow> bool" where
  enter: "idle_step s (s\<lparr>service_contexts := insert ch (service_contexts s)\<rparr>)"
| connected: "ch \<in> service_contexts s \<Longrightarrow> idle_step s (channel_connected ch s)"
| was_read: "idle_step s (channel_read ch s)"
| wrote: "idle_step s (channel_write ch s)"
| leave: "idle_step s ((channel_disconnected ch s)\<lparr>service_contexts := service_contexts s - {ch}\<rparr>)"
| ask_reset: "reset_channel_timer ch i expire p s = Inr s' \<Longrightarrow> idle_step s s'"
| run_reset: "r \<in> set (resets s) \<Longrightarrow> run_reset r (s\<lparr>resets := remove1 r (resets s)\<rparr>) = Inr s' \<Longrightarrow> idle_step s s'"
| expire: "monitors s ch = Some m \<Longrightarrow> deadline m = Some d \<Longrightarrow> d \<le> now s \<Longrightarrow>
    idle_step s (s\<lparr>monitors := (monitors s)(ch \<mapsto> m\<lparr>deadline := None\<rparr>), fired := fired s @ [ch]\<rparr>)"
| timeout: "ch \<in> set (fired s) \<Longrightarrow> timeout False ch (s\<lparr>fired := remove1 ch (fired s)\<rparr>) = Inr s' \<Longrightarrow> idle_step s s'"
| tick: "0 \<le> t \<Longrightarrow> idle_step s (s\<lparr>now := now s + t\<rparr>)"

inductive idle_reachable :: "idle_monitor \<Rightarrow> bool" where
  idle_new: "idle_monitor_new i expire p = Inr s \<Longrightarrow> idle_reachable s"
| idle_go: "idle_reachable s \<Longrightarrow> idle_step s s' \<Longrightarrow> idle_reachable s'"

inductive_cases idle_stepE: "idle_step s s'"

section \<open>The invariant\<close>

definition monitor_ok :: "idle_monitor \<Rightarrow> nat \<Rightarrow> monitor \<Rightarrow> bool" where
  "monitor_ok s ch m \<longleftrightarrow>
     (\<forall>d. deadline m = Some d \<longrightarrow> d = last_activity s ch + expire_time m) \<and>
     (deadline m = None \<longrightarrow> ch \<in> set (fired s) \<or> expire_time m \<le> 0)"

definition idle_inv :: "idle_monitor \<Rightarrow> bool" where
  "idle_inv s \<longleftrightarrow> 0 < default_expire s \<and>
     (\<forall>ch m. monitors s ch = Some m \<longrightarrow> service_known s \<and> ch \<in> service_contexts s \<and> monitor_ok s ch m)"

lemma idle_inv_I:
  assumes "0 < default_expire s"
    and "\<And>ch m. monitors s ch = Some m \<Longrightarrow> service_known s \<and> ch \<in> service_contexts s \<and> monitor_ok s ch m"
  shows "idle_inv s"
  using assms by (simp add: idle_inv_def)

lemma idle_invD:
  assumes "idle_inv s" and "monitors s ch = Some m"
  shows "service_known s" "ch \<in> service_contexts s" "monitor_ok s ch m"
  using assms by (auto simp: idle_inv_def)

lemma reset_monitor_ok:
  "monitor_ok (set_monitor ch (reset_timer (now s) m) s) ch (reset_timer (now s) m)"
  "monitor_ok (set_monitor ch (reset_timer_to (now s) i expire p m) s) ch (reset_timer_to (now s) i expire p m)"
  by (simp_all add: monitor_ok_def set_monitor_def active_def reset_timer_def reset_timer_to_def Let_def)

lemma set_monitor_inv:
  assumes "0 < default_expire s" and "service_known s" and "ch \<in> service_contexts s"
    and "\<And>ch' m'. monitors s ch' = Some m' \<Longrightarrow> ch' \<noteq> ch \<Longrightarrow> ch' \<in> service_contexts s \<and> monitor_ok s ch' m'"
    and "monitor_ok (set_monitor ch m s) ch m"
  shows "idle_inv (set_monitor ch m s)"
proof (rule idle_inv_I)
  fix ch' m'
  assume "monitors (set_monitor ch m s) ch' = Some m'"
  then show "service_known (set_monitor ch m s) \<and> ch' \<in> service_contexts (set_monitor ch m s) \<and>
      monitor_ok (set_monitor ch m s) ch' m'"
    using assms(2-5)
    by (cases "ch' = ch") (auto simp: set_monitor_def active_def monitor_ok_def)
qed (use assms(1) in \<open>simp add: set_monitor_def active_def\<close>)

lemma restart_inv:
  assumes "idle_inv s" and "monitors s ch = Some m"
  shows "idle_inv (set_monitor ch (reset_timer (now s) m) s)"
    "idle_inv (set_monitor ch (reset_timer_to (now s) i expire p m) s)"
  using assms idle_invD [OF assms] by (intro set_monitor_inv reset_monitor_ok; simp add: idle_inv_def)+

lemma channel_connected_inv:
  assumes "idle_inv s" and "ch \<in> service_contexts s"
  shows "idle_inv (channel_connected ch s)"
proof (cases "monitors s ch")
  case None
  let ?s = "s\<lparr>service_known := True\<rparr>"
  have "monitor_ok (set_monitor ch (monitor_new (now s) (default_id s) (default_expire s) (default_param s)) ?s) ch
      (monitor_new (now s) (default_id s) (default_expire s) (default_param s))"
    using reset_monitor_ok(2) [of ch ?s] by (simp add: monitor_new_def)
  moreover have "\<And>ch' m'. monitors s ch' = Some m' \<Longrightarrow> ch' \<in> service_contexts s \<and> monitor_ok ?s ch' m'"
    using assms(1) by (auto simp: idle_inv_def monitor_ok_def)
  ultimately have "idle_inv (set_monitor ch (monitor_new (now s) (default_id s) (default_expire s) (default_param s)) ?s)"
    using assms by (intro set_monitor_inv) (simp_all add: idle_inv_def)
  then show ?thesis using None by (simp add: channel_connected_def)
next
  case (Some m)
  then show ?thesis using assms by (auto simp: channel_connected_def idle_inv_def monitor_ok_def)
qed

lemma timeout_result:
  assumes "idle_inv s" and "monitors s ch = Some m"
  shows "timeout False ch s =
    Inr (set_monitor ch (reset_timer (now s) m)
      (s\<lparr>idle_events := idle_events s @ [(ch, monitor_id m, monitor_param m, now s)]\<rparr>))"
  using idle_invD [OF assms] assms(2) by (simp add: timeout_def fire_idle_event_def channel_context_of_def)

text \<open>A queued call that is taken from the queue leaves the other monitors as they are.\<close>

lemma timeout_inv:
  assumes "idle_inv s" and "ch \<in> set (fired s)" and "timeout False ch (s\<lparr>fired := remove1 ch (fired s)\<rparr>) = Inr s'"
  shows "idle_inv s'"
proof -
  let ?d = "s\<lparr>fired := remove1 ch (fired s)\<rparr>"
  have other: "monitors s ch' = Some m' \<Longrightarrow> ch' \<noteq> ch \<Longrightarrow> ch' \<in> service_contexts s \<and> monitor_ok ?d ch' m'" for ch' m'
    using assms(1) by (auto simp: idle_inv_def monitor_ok_def)
  show ?thesis
  proof (cases "monitors s ch")
    case None
    then have s': "s' = ?d" using assms(3) by (simp add: timeout_def)
    show ?thesis
    proof (rule idle_inv_I)
      show "service_known s' \<and> ch' \<in> service_contexts s' \<and> monitor_ok s' ch' m'" if "monitors s' ch' = Some m'" for ch' m'
        using that None other [of ch' m'] idle_invD(1) [OF assms(1), of ch' m'] by (cases "ch' = ch") (simp_all add: s')
    qed (use assms(1) in \<open>simp add: s' idle_inv_def\<close>)
  next
    case (Some m)
    let ?e = "?d\<lparr>idle_events := idle_events s @ [(ch, monitor_id m, monitor_param m, now s)]\<rparr>"
    have "idle_inv (set_monitor ch (reset_timer (now ?e) m) ?e)"
      using assms(1) other idle_invD [OF assms(1) Some]
      by (intro set_monitor_inv reset_monitor_ok) (simp_all add: idle_inv_def monitor_ok_def)
    then show ?thesis
      using assms(3) Some idle_invD(1,2) [OF assms(1) Some]
      by (simp add: timeout_def fire_idle_event_def channel_context_of_def)
  qed
qed

lemma run_reset_inv:
  assumes "idle_inv s" and "run_reset r s = Inr s'"
  shows "idle_inv s'"
  using assms restart_inv(2) [OF assms(1)]
  by (auto simp: run_reset_def bind_result_eq_Inr split: prod.splits option.splits)

lemma idle_inv_fields:
  "idle_inv (s\<lparr>resets := rs\<rparr>) = idle_inv s" "idle_inv (s\<lparr>now := t\<rparr>) = idle_inv s"
  by (simp_all add: idle_inv_def monitor_ok_def)

lemma idle_step_inv:
  assumes "idle_step s s'" and "idle_inv s"
  shows "idle_inv s'"
  using assms(1)
proof cases
  case (enter ch)
  then show ?thesis using assms(2) by (auto simp: idle_inv_def monitor_ok_def)
next
  case (connected ch)
  then show ?thesis using channel_connected_inv [OF assms(2)] by simp
next
  case (was_read ch)
  then show ?thesis using assms(2) restart_inv(1) [OF assms(2)] by (simp add: channel_read_def split: option.splits)
next
  case (wrote ch)
  then show ?thesis using assms(2) restart_inv(1) [OF assms(2)] by (simp add: channel_write_def split: option.splits)
next
  case (leave ch)
  then show ?thesis using assms(2) by (auto simp: idle_inv_def monitor_ok_def channel_disconnected_def split: if_splits)
next
  case (ask_reset ch i expire p)
  then show ?thesis using assms(2) by (auto simp: reset_channel_timer_def bind_result_eq_Inr idle_inv_fields)
next
  case (run_reset r)
  then show ?thesis using run_reset_inv [of "s\<lparr>resets := remove1 r (resets s)\<rparr>"] assms(2) by (simp add: idle_inv_fields)
next
  case (expire ch m d)
  then show ?thesis using assms(2) by (auto simp: idle_inv_def monitor_ok_def split: if_splits)
next
  case (timeout ch)
  then show ?thesis using timeout_inv [OF assms(2)] by simp
next
  case (tick t)
  then show ?thesis using assms(2) by (simp add: idle_inv_fields)
qed

interpretation idle_machine: invariant_machine idle_step idle_inv "\<lambda>s. \<exists>i expire p. idle_monitor_new i expire p = Inr s" idle_reachable
proof
  show "idle_inv s" if "\<exists>i expire p. idle_monitor_new i expire p = Inr s" for s
    using that by (auto simp: idle_monitor_new_def idle_inv_def split: if_splits)
  show "Q s" if "idle_reachable s" "\<And>r. \<exists>i expire p. idle_monitor_new i expire p = Inr r \<Longrightarrow> Q r"
    "\<And>r t. Q r \<Longrightarrow> idle_step r t \<Longrightarrow> Q t" for Q s
    using that by (induction rule: idle_reachable.induct) blast+
qed (auto intro: idle_step_inv)

lemma idle_reachable_inv: "idle_reachable s \<Longrightarrow> idle_inv s"
  by (rule idle_machine.always)

section \<open>A timer without a period\<close>

lemma idle_round:
  assumes "idle_inv s" and "monitors s ch = Some m" and "expire_time m = 0" and "deadline m = Some (now s)"
  shows "\<exists>s' m'. idle_step\<^sup>*\<^sup>* s s' \<and> idle_inv s' \<and> monitors s' ch = Some m' \<and> expire_time m' = 0 \<and>
    deadline m' = Some (now s') \<and> now s' = now s \<and> length (idle_events s') = Suc (length (idle_events s))"
proof -
  let ?e = "s\<lparr>monitors := (monitors s)(ch \<mapsto> m\<lparr>deadline := None\<rparr>), fired := fired s @ [ch]\<rparr>"
  let ?d = "?e\<lparr>fired := remove1 ch (fired ?e)\<rparr>"
  let ?m = "reset_timer (now s) (m\<lparr>deadline := None\<rparr>)"
  let ?f = "set_monitor ch ?m (?d\<lparr>idle_events := idle_events s @ [(ch, monitor_id m, monitor_param m, now s)]\<rparr>)"
  have e: "idle_step s ?e" by (rule idle_step.expire [OF assms(2,4)]) simp
  have "timeout False ch ?d = Inr ?f"
    using idle_invD(1,2) [OF assms(1,2)] by (simp add: timeout_def fire_idle_event_def channel_context_of_def)
  then have f: "idle_step ?e ?f" by (intro idle_step.timeout) simp_all
  have "idle_inv ?f" using idle_step_inv [OF f idle_step_inv [OF e assms(1)]] .
  moreover have "idle_step\<^sup>*\<^sup>* s ?f" using e f by simp
  moreover have "monitors ?f ch = Some ?m" "now ?f = now s" "expire_time ?m = 0" "deadline ?m = Some (now s)"
    "length (idle_events ?f) = Suc (length (idle_events s))"
    using assms(3) by (simp_all add: set_monitor_def active_def reset_timer_def)
  ultimately show ?thesis by metis
qed

lemma idle_rounds:
  assumes "idle_inv s" and "monitors s ch = Some m" and "expire_time m = 0" and "deadline m = Some (now s)"
  shows "\<exists>s'. idle_step\<^sup>*\<^sup>* s s' \<and> now s' = now s \<and> length (idle_events s') = length (idle_events s) + n"
  using assms
proof (induction n arbitrary: s m)
  case 0
  then show ?case by auto
next
  case (Suc n)
  obtain t u where t: "idle_step\<^sup>*\<^sup>* s t" "idle_inv t" "monitors t ch = Some u" "expire_time u = 0"
      "deadline u = Some (now t)" "now t = now s" "length (idle_events t) = Suc (length (idle_events s))"
    using idle_round [OF Suc.prems] by blast
  from Suc.IH [OF t(2-5)] obtain s' where "idle_step\<^sup>*\<^sup>* t s'" "now s' = now t"
      "length (idle_events s') = length (idle_events t) + n" by blast
  then show ?case using t by (intro exI [of _ s']) simp
qed

section \<open>Examples\<close>

text \<open>A monitor of 1000 milliseconds with channel 7 connected, and the same after 1000 milliseconds with the timer
  expired.\<close>

definition watching :: idle_monitor where
  "watching = channel_connected 7 \<lparr>default_id = 1, default_expire = 1000, default_param = 0, service_known = False,
     monitors = Map.empty, service_contexts = {7}, resets = [], fired = [], now = 0, idle_events = [], last_activity = (\<lambda>ch. 0)\<rparr>"

lemma watching_reachable: "idle_reachable watching"
proof -
  let ?s = "\<lparr>default_id = 1, default_expire = 1000, default_param = 0, service_known = False, monitors = Map.empty,
    service_contexts = {}, resets = [], fired = [], now = 0, idle_events = [], last_activity = (\<lambda>ch. 0)\<rparr>"
  have "idle_reachable ?s" by (rule idle_new [of 1 1000 0]) (simp add: idle_monitor_new_def)
  from idle_go [OF this idle_step.enter [of _ 7]] have "idle_reachable (?s\<lparr>service_contexts := {7}\<rparr>)" by simp
  from idle_go [OF this idle_step.connected [of 7]] show ?thesis by (simp add: watching_def)
qed

lemma watching_state:
  "monitors watching 7 = Some \<lparr>monitor_id = 1, expire_time = 1000, monitor_param = 0, deadline = Some 1000\<rparr>"
  "service_known watching" "service_contexts watching = {7}" "now watching = 0" "idle_events watching = []"
  by (simp_all add: watching_def channel_connected_def set_monitor_def active_def monitor_new_def reset_timer_to_def)

section \<open>Properties\<close>

text \<open>C36: No function of the monitor that runs in a strand dereferences a null pointer, as long as every context
  leaves the service in the function that tells the monitor of the disconnect: neither an expired timer nor a
  posted reset. \<open>reset_channel_timer\<close>, which other threads call, is not safe: only when the channel is in the
  service and some channel was connected before does it return, with the reset posted. Before the first channel is
  connected it uses a pointer without a value, and for an unknown channel it dereferences a null pointer, although its
  comment says that then nothing happens.\<close>

theorem idle_monitor_safe:
  assumes "idle_reachable s"
  shows "(\<exists>s'. timeout error ch s = Inr s') \<and> (\<exists>s'. run_reset (ch, i, expire, p) s = Inr s') \<and>
    reset_channel_timer ch i expire p s =
      (if \<not> service_known s then Inl (Undefined Uninitialized_pointer)
       else if ch \<notin> service_contexts s then Inl (Undefined Null_dereference)
       else Inr (s\<lparr>resets := resets s @ [(ch, i, expire, p)]\<rparr>))"
proof -
  have inv: "idle_inv s" by (rule idle_reachable_inv [OF assms])
  have "\<exists>s'. timeout error ch s = Inr s'"
    using timeout_result [OF inv] by (cases error; cases "monitors s ch") (auto simp: timeout_def)
  moreover have "\<exists>s'. run_reset (ch, i, expire, p) s = Inr s'"
    using idle_invD(1,2) [OF inv] by (cases "monitors s ch") (auto simp: run_reset_def channel_context_of_def)
  ultimately show ?thesis by (simp add: reset_channel_timer_def channel_context_of_def)
qed

theorem idle_monitor_safe_witness:
  "(\<exists>s'. timeout False 7 watching = Inr s') \<and> (\<exists>s'. run_reset (8, 1, 5, 0) watching = Inr s') \<and>
    reset_channel_timer 8 1 5 0 watching = Inl (Undefined Null_dereference)"
  using idle_monitor_safe [OF watching_reachable, where ch = 7 and error = False]
    idle_monitor_safe [OF watching_reachable, where ch = 8 and i = 1 and expire = 5 and p = 0] watching_state(2,3)
  by simp

text \<open>A connected channel is always watched: its timer runs and is due one period after the last read, write,
  reset or idle event, or it has expired and the call of \<open>timeout\<close> is queued, or it was turned off. So no timer
  expires before a whole period without activity.\<close>

theorem idle_timer_armed:
  assumes "idle_reachable s" and "monitors s ch = Some m"
  shows "case deadline m of
      Some d \<Rightarrow> d = last_activity s ch + expire_time m
    | None \<Rightarrow> ch \<in> set (fired s) \<or> expire_time m \<le> 0"
  using idle_invD(3) [OF idle_reachable_inv [OF assms(1)] assms(2)] by (simp add: monitor_ok_def split: option.splits)

theorem idle_timer_armed_witness: "(1000 :: int) = last_activity watching 7 + 1000"
  using idle_timer_armed [OF watching_reachable watching_state(1)] by simp

text \<open>Turning a timer off does not last: after \<open>reset_channel_timer\<close> with a time of zero, the next read on the
  channel starts the timer again with that period, it expires at once, and then again after every idle event, so
  any number of idle events is fired without any time passing.\<close>

theorem turned_off_timer_spins:
  assumes "idle_reachable s" and "monitors s ch = Some m" and "run_reset (ch, i, 0, p) s = Inr s1"
  shows "(\<exists>m1. monitors s1 ch = Some m1 \<and> deadline m1 = None) \<and>
    (\<exists>s2. idle_step\<^sup>*\<^sup>* (channel_read ch s1) s2 \<and> now s2 = now s \<and> length (idle_events s2) = length (idle_events s) + n)"
proof -
  let ?m = "reset_timer_to (now s) i 0 p m"
  have inv: "idle_inv s" by (rule idle_reachable_inv [OF assms(1)])
  have s1: "s1 = set_monitor ch ?m s"
    using assms(2,3) idle_invD(1,2) [OF inv assms(2)] by (simp add: run_reset_def channel_context_of_def)
  have m: "monitors s1 ch = Some ?m" "deadline ?m = None" "expire_time ?m = 0" "now s1 = now s" "idle_events s1 = idle_events s"
    by (simp_all add: s1 set_monitor_def active_def reset_timer_to_def)
  have read: "channel_read ch s1 = set_monitor ch (reset_timer (now s1) ?m) s1" by (simp add: channel_read_def m(1))
  have "idle_inv s1" unfolding s1 by (rule restart_inv(2) [OF inv assms(2)])
  then have "idle_inv (channel_read ch s1)" unfolding read by (rule restart_inv(1) [OF _ m(1)])
  from idle_rounds [OF this, of ch "reset_timer (now s1) ?m" n] m show ?thesis
    by (simp add: read set_monitor_def active_def reset_timer_def)
qed

theorem turned_off_timer_spins_witness:
  "\<exists>s1 s2. run_reset (7, 1, 0, 0) watching = Inr s1 \<and> idle_step\<^sup>*\<^sup>* (channel_read 7 s1) s2 \<and> now s2 = 0 \<and>
    length (idle_events s2) = 1000"
proof -
  obtain s1 where s1: "run_reset (7, 1, 0, 0) watching = Inr s1"
    by (simp add: run_reset_def watching_state channel_context_of_def)
  from turned_off_timer_spins [OF watching_reachable watching_state(1) s1, where n = 1000] s1 watching_state(4,5)
  show ?thesis by auto
qed

end
