(* ===== verification/Channel_Idle.thy ===== *)
theory Channel_Idle
  imports Channel_Leaks Idle_Monitor
begin

text \<open>
  What the idle monitor relies on, shown of the channels: a TCP or TLS context leaves the contexts of the service only
  after its handlers have been told that it is disconnected.
\<close>

section \<open>Registered or told\<close>

definition told :: "channel \<Rightarrow> bool" where
  "told c \<longleftrightarrow> registered c \<or> Channel_disconnected \<in> set (events c)"

lemma told_fields: "registered c' = registered c \<Longrightarrow> events c' = events c \<Longrightarrow> told c' = told c"
  by (simp add: told_def)

lemma told_effect: "handler_effect c c' \<Longrightarrow> told c' = told c"
  by (simp add: told_def handler_effect_def)

lemma told_simple [simp]:
  "told (set_done d c) = told c" "told (set_connected x c) = told c" "told (set_stat s c) = told c"
  "told (set_task_in_progress t c) = told c" "told (clear_task_in_progress t c) = told c" "told (post p c) = told c"
  "told (close_socket c) = told c" "told (start_read c) = told c" "told (start_connect c) = told c"
  "told (start_handshake c) = told c" "told (request_stop c) = told c" "told (remove_sent_data c) = told c"
  "told (push_message m w c) = told c" "told (write_next_streambuf c) = told c" "told (fire_exception_caught what c) = told c"
  "told (c\<lparr>unread := n\<rparr>) = told c" "told (c\<lparr>reads := n\<rparr>) = told c" "told (c\<lparr>resolves := n\<rparr>) = told c"
  "told (c\<lparr>connects := n\<rparr>) = told c" "told (c\<lparr>handshakes := n\<rparr>) = told c" "told (c\<lparr>shutdowns := n\<rparr>) = told c"
  "told (c\<lparr>writes := ws\<rparr>) = told c" "told (c\<lparr>posts := ps\<rparr>) = told c" "told (c\<lparr>registered := True\<rparr>)"
  by (simp_all add: told_def context_simps post_def close_socket_def start_read_def start_connect_def start_handshake_def
      request_stop_def remove_sent_data_def push_message_def issue_write_def write_next_streambuf_def
      fire_exception_caught_def Let_def)

lemma told_event: "told c \<Longrightarrow> told (c\<lparr>events := events c @ [cb]\<rparr>)"
  by (auto simp: told_def)

lemma told_fire [simp, intro]:
  "told c \<Longrightarrow> told (fire hs which cb c)" "told c \<Longrightarrow> told (reset_and_fire hs which cb c)"
  using told_effect [OF fire_effect [of c cb hs which]] told_effect [OF fire_effect [of "set_done False c" cb hs which]]
    told_event [of c cb] told_event [of "set_done False c" cb]
  by (simp_all add: reset_and_fire_def)

lemma events_closing [simp]: "events (close_socket c) = events c" "events (set_stat s c) = events c"
  by (simp_all add: close_socket_def set_stat_def)

lemma disconnected_event:
  assumes "connected_flag c"
  shows "Channel_disconnected \<in> set (events (call_channel_disconnected hs c))"
proof -
  let ?d = "set_connected False c"
  let ?e = "if settable_stat DISCONNECTED ?d then set_stat DISCONNECTED ?d else ?d"
  have "Channel_disconnected \<in> set (events (reset_and_fire hs ''channel_disconnected'' Channel_disconnected ?e))"
    using handler_effectD(8) [OF fire_effect [of "set_done False ?e" Channel_disconnected hs "''channel_disconnected''"]]
    by (simp add: reset_and_fire_def)
  then show ?thesis
    using assms by (simp add: call_channel_disconnected_def Let_def close_immediately_def)
qed

lemma told_disconnected [simp, intro]: "told c \<Longrightarrow> told (call_channel_disconnected hs c)"
  by (simp add: call_channel_disconnected_def Let_def close_immediately_def)

lemma told_erase: "connected_flag c \<Longrightarrow> told (erase_context (call_channel_disconnected hs c))"
  using disconnected_event [of c hs] by (simp add: told_def erase_context_def)

lemma told_closing [simp, intro]:
  "told c \<Longrightarrow> told (close_immediately c)" "told c \<Longrightarrow> told (shutdown_complete hs c)"
  "told c \<Longrightarrow> told (close_gracefully hs c)" "told c \<Longrightarrow> told (handle_req_close hs c)" "told c \<Longrightarrow> told (run_close hs c)"
proof -
  show i: "told (close_immediately c)" if "told c" using that by (simp add: close_immediately_def)
  show s: "told (shutdown_complete hs c)" if "told c" for c
    using that told_erase by (auto simp: shutdown_complete_def close_without_shutdown_def Let_def)
  show g: "told (close_gracefully hs c)" if "told c"
    using that s by (simp add: close_gracefully_def close_at_once_def ssl_close_gracefully_def Let_def)
  show "told (handle_req_close hs c)" "told (run_close hs c)" if "told c"
    using that g by (simp_all add: handle_req_close_def run_close_def)
qed

lemma told_up [simp, intro]:
  "told c \<Longrightarrow> told (call_channel_created hs c)" "told c \<Longrightarrow> told (read_if_connected c)"
  "told c \<Longrightarrow> told (call_channel_connected hs c)" "told c \<Longrightarrow> told (handshake_complete hs error c)"
  by (simp_all add: call_channel_created_def read_if_connected_def call_channel_connected_def handshake_complete_def
      Let_def split: option.splits)

lemma told_read_loop: "told c \<Longrightarrow> told (read_loop hs c)"
proof (induction hs c rule: read_loop.induct)
  case (1 hs c)
  then show ?case by (subst read_loop.simps) (auto simp: Let_def)
qed

lemma told_read: "told c \<Longrightarrow> told (tcp_call_channel_read hs n c)"
  by (simp add: tcp_call_channel_read_def Let_def told_read_loop)

lemma told_write:
  assumes "told c" and "\<And>b d. told (write b d) = told d"
  shows "told (write_with write hs obj c)"
proof -
  let ?c = "(set_done False c)\<lparr>events := events c @ [Channel_write obj]\<rparr>"
  have "told ?c" using assms(1) by (auto simp: told_def set_done_def)
  then have "told (fst (snd (call_channel_write_handler hs obj ?c)))"
    using told_effect [OF call_channel_write_handler_effect [of ?c hs obj]] by simp
  then show ?thesis by (simp add: write_with_def assms(2) split_beta Let_def split: net_object.splits)
qed

lemma told_run_write: "told c \<Longrightarrow> told (run_write hs obj c)" "told c \<Longrightarrow> told (run_write_to hs obj dest c)"
  by (simp_all add: run_write_def run_write_to_def told_write write_streambuf_def write_streambuf_to_def)

lemma told_written: "told c \<Longrightarrow> told (call_channel_written hs n c)"
  by (simp add: call_channel_written_def Let_def)

lemma told_asked: "asked c c' \<Longrightarrow> told c \<Longrightarrow> told c'"
  by (drule asked_keeps) (auto simp: told_effect)

section \<open>Every step\<close>

lemma tcp_connect_told: "told c \<Longrightarrow> told (tcp_connect_complete hs error inserted c)"
  by (simp add: tcp_connect_complete_def new_channel_connected_def Let_def told_closing split: option.splits)

lemma told_bind:
  assumes "open_and_bind os hs lp v c = Some c'" and "told c"
  shows "told c'"
proof -
  have "told ((call_channel_created hs c)\<lparr>socket_open := True\<rparr>)"
    using told_up(1) [OF assms(2), of hs] by (simp add: told_def)
  then show ?thesis
    using assms told_up(1) [OF assms(2), of hs]
    by (auto simp: open_and_bind_def open_channel_def bind_channel_def bind_eq_Some_conv split: if_splits)
qed

lemma told_begin:
  "told c \<Longrightarrow> told (run_accepted hs c)" "told c \<Longrightarrow> told (run_connect hs c)" "told c \<Longrightarrow> told (run_resolve hs c)"
  "run_bind_name os hs lp v remote c = Some c' \<Longrightarrow> told c \<Longrightarrow> told c'"
  "run_bind_address os hs lp v dest c = Some c' \<Longrightarrow> told c \<Longrightarrow> told c'"
  by (auto simp: run_accepted_def tcp_accepted_def ssl_accepted_def run_connect_def run_resolve_def Let_def
      run_bind_name_def run_bind_address_def call_channel_bound_def dest: told_bind split: if_splits)

lemma told_posted: "run_posted os hs q c = Some c' \<Longrightarrow> told c \<Longrightarrow> told c'"
  by (cases q) (auto simp: told_begin told_run_write)

lemma told_read_complete:
  assumes "told c" and "kind c \<noteq> Udp" and "connected_flag c"
  shows "told (read_complete hs error n sender c)"
proof -
  let ?c = "clear_task_in_progress T_READ c"
  have "told (erase_context (call_channel_disconnected hs d))" if "d = ?c \<or> d = fire_exception_caught what ?c" for d what
    using that assms(3) by (intro told_erase) (auto simp: fire_exception_caught_def post_def context_simps)
  moreover have "told (call_channel_read hs n sender ?c)"
    using assms by (simp add: call_channel_read_def told_read)
  ultimately show ?thesis
    unfolding read_complete_def Let_def by (intro told_closing) (auto split: option.splits read_error.splits)
qed

lemma told_step:
  assumes "channel_step hs c c'" and "channel_reachable hs c" and "kind c \<noteq> Udp" and "told c"
  shows "told c'"
  using assms(1)
proof (cases rule: step_cases)
  case (posted os p ps)
  then show ?thesis using told_posted [of os hs p "c\<lparr>posts := ps\<rparr>"] assms(4) by simp
next
  case (resolved n failed)
  then show ?thesis using assms(3,4) by (simp add: resolve_complete_def tcp_resolve_complete_def)
next
  case (connected n error inserted)
  then show ?thesis using assms(3,4) by (simp add: connect_complete_def tcp_connect_told)
next
  case (handshaken n error)
  then show ?thesis using assms(4) by (simp add: told_up)
next
  case (shut_down n)
  then show ?thesis using assms(4) by (simp add: told_closing)
next
  case (read n error bytes sender)
  obtain p where "connected_flag c = (p = Up)" "reads c \<le> 1" "reads c = 1 \<longrightarrow> p \<in> {Bound, Up}" "p = Bound \<longrightarrow> kind c = Udp"
    by (rule reachable_phase [OF assms(2)])
  then have "connected_flag c" using read(1) assms(3) by auto
  then show ?thesis using read(2) told_read_complete [of "c\<lparr>reads := n\<rparr>"] assms(3,4) by simp
next
  case (written w ws error)
  then show ?thesis using assms(4) by (auto simp: write_complete_def Let_def told_written split: option.splits)
next
  case asked
  then show ?thesis using assms(4) by (rule told_asked)
qed

interpretation told: persistent "channel_step hs" "\<lambda>c. told c \<and> channel_reachable hs c \<and> kind c \<noteq> Udp" "\<lambda>_ _. True" for hs
  using told_step kind_step channel_go by unfold_locales auto

section \<open>Properties\<close>

text \<open>A TCP or TLS context that has been among the contexts of the service leaves them only when its handlers have
  been told that the channel is disconnected; so a monitor that is told forgets the channel before it is gone.\<close>

theorem leaves_when_told:
  assumes "channel_reachable hs c" and "kind c \<noteq> Udp" and "registered c" and "(channel_step hs)\<^sup>*\<^sup>* c c'"
    and "\<not> registered c'"
  shows "Channel_disconnected \<in> set (events c')"
proof -
  have "told c'"
    using told.for_ever [OF assms(4)] assms(1-3) by (simp add: told_def)
  then show ?thesis using assms(5) by (simp add: told_def)
qed

text \<open>A server channel whose peer closes the connection.\<close>

definition served :: channel where
  "served = next_post [quiet_handler] (new_channel_accepted False)"

lemma served_reachable: "channel_reachable [quiet_handler] served"
  unfolding served_def by (intro next_post_reachable from_server)

theorem leaves_when_told_witness:
  "Channel_disconnected \<in> set (events (read_complete [quiet_handler] (Some Silent_error) 0 ip_port_default (served\<lparr>reads := 0\<rparr>)))"
proof -
  have state: "kind served = Tcp" "registered served" "reads served = Suc 0" by code_simp+
  have "\<not> registered (read_complete [quiet_handler] (Some Silent_error) 0 ip_port_default (served\<lparr>reads := 0\<rparr>))" by code_simp
  with leaves_when_told [OF served_reachable _ state(2) r_into_rtranclp [of "channel_step [quiet_handler]", OF read_done [OF state(3)]]]
  show ?thesis using state(1) by simp
qed

end
