(* ===== verification/Channel_Close.thy ===== *)
theory Channel_Close
  imports Channel_Leaks
begin

text \<open>
  Closing a TCP or TLS channel that has been asked to close. The function posted by \<open>fire_channel_close\<close> and the end of
  every completion close the channel when it is not busy, that is, when none of the tasks in progress that
  \<open>is_channel_busy\<close> looks at is set (\<open>channel_context.h\<close>, \<open>context_base.h\<close>, \<open>service_base.h\<close> under
  \<open>src/include/shan/net/\<close>).

  The invariant relates the flags of the tasks to the operations that will clear them. For connecting, shaking hands
  and reading they agree; for writing they need not, because \<open>T_WRITE\<close> is set for a buffer that is only queued.
\<close>

section \<open>Flags and operations\<close>

definition flags_inv :: "channel \<Rightarrow> bool" where
  "flags_inv c \<longleftrightarrow>
     (in_progress 0 c \<longrightarrow> 0 < connects c \<or> Post_start_connect \<in> set (posts c)) \<and>
     (in_progress 1 c \<longrightarrow> 0 < handshakes c)"

text \<open>A close that has been asked for will be looked at again.\<close>

definition close_pending :: "channel \<Rightarrow> bool" where
  "close_pending c \<longleftrightarrow> (stat c = REQ_CLOSE \<longrightarrow> Post_close \<in> set (posts c) \<or> is_channel_busy c)"

lemma flags_inv_effect: "handler_effect c c' \<Longrightarrow> flags_inv c \<Longrightarrow> flags_inv c'"
  using posts_grow_mem [of c c' Post_start_connect]
  by (auto simp: handler_effect_def flags_inv_def in_progress_def)

lemma close_pending_effect: "handler_effect c c' \<Longrightarrow> close_pending c \<Longrightarrow> close_pending c'"
  using posts_grow_mem [of c c' Post_close]
  by (auto simp: handler_effect_def close_pending_def is_channel_busy_def)

lemma flags_inv_fire:
  "flags_inv c \<Longrightarrow> flags_inv (fire hs which cb c)" "flags_inv c \<Longrightarrow> flags_inv (reset_and_fire hs which cb c)"
  using flags_inv_effect [OF fire_effect [of c cb hs which]]
    flags_inv_effect [OF fire_effect [of "set_done False c" cb hs which]]
  by (simp_all add: reset_and_fire_def flags_inv_def in_progress_def context_simps)

lemma in_progress_other [simp]:
  "in_progress 0 (set_task_in_progress T_CONNECT c)" "in_progress 1 (set_task_in_progress T_HANDSHAKE c)"
  "in_progress 1 (set_task_in_progress T_CONNECT c) = in_progress 1 c"
  "in_progress 0 (set_task_in_progress T_HANDSHAKE c) = in_progress 0 c"
  "\<not> in_progress 0 (clear_task_in_progress T_CONNECT c)" "\<not> in_progress 1 (clear_task_in_progress T_HANDSHAKE c)"
  "in_progress 1 (clear_task_in_progress T_CONNECT c) = in_progress 1 c"
  "in_progress 0 (clear_task_in_progress T_HANDSHAKE c) = in_progress 0 c"
  by (simp_all add: task_bits in_progress_set in_progress_clear)

lemma flags_inv_simple [simp]:
  "flags_inv (set_done d c) = flags_inv c" "flags_inv (set_stat s c) = flags_inv c"
  "flags_inv (set_connected b c) = flags_inv c" "flags_inv (close_socket c) = flags_inv c"
  "flags_inv (erase_context c) = flags_inv c" "flags_inv (c\<lparr>unread := n\<rparr>) = flags_inv c"
  "flags_inv (c\<lparr>events := es\<rparr>) = flags_inv c" "flags_inv (c\<lparr>registered := r\<rparr>) = flags_inv c"
  "flags_inv (c\<lparr>reads := n\<rparr>) = flags_inv c" "flags_inv (c\<lparr>writes := ws\<rparr>) = flags_inv c"
  "flags_inv (c\<lparr>shutdowns := n\<rparr>) = flags_inv c" "flags_inv (c\<lparr>resolves := n\<rparr>) = flags_inv c"
  "flags_inv (start_read c) = flags_inv c" "flags_inv (request_stop c) = flags_inv c"
  "flags_inv (fire_exception_caught what c) = flags_inv c"
  "flags_inv (write_next_streambuf c) = flags_inv c" "flags_inv (remove_sent_data c) = flags_inv c"
  "flags_inv (push_message m w c) = flags_inv c"
  by (simp_all add: flags_inv_def in_progress_def context_simps close_socket_def erase_context_def start_read_def
      request_stop_def fire_exception_caught_def post_def write_next_streambuf_def issue_write_def remove_sent_data_def
      push_message_def Let_def)

lemma flags_inv_tasks [simp]:
  "flags_inv (set_task_in_progress T_READ c) = flags_inv c" "flags_inv (clear_task_in_progress T_READ c) = flags_inv c"
  "flags_inv (set_task_in_progress T_WRITE c) = flags_inv c" "flags_inv (clear_task_in_progress T_WRITE c) = flags_inv c"
  "flags_inv (clear_task_in_progress T_SHUTDOWN c) = flags_inv c"
  by (simp_all add: flags_inv_def) (simp_all add: context_simps)

lemma flags_inv_start:
  "flags_inv c \<Longrightarrow> flags_inv (start_connect c)" "flags_inv c \<Longrightarrow> flags_inv (start_connect (set_task_in_progress T_CONNECT c))"
  "flags_inv c \<Longrightarrow> flags_inv (start_handshake (set_task_in_progress T_HANDSHAKE c))"
  "flags_inv c \<Longrightarrow> flags_inv (post Post_start_connect (set_task_in_progress T_CONNECT c))"
  "flags_inv c \<Longrightarrow> flags_inv (read_if_connected c)"
  by (auto simp: flags_inv_def start_connect_def start_handshake_def post_def in_progress_def read_if_connected_def
      start_read_def context_simps T_CONNECT_def T_HANDSHAKE_def T_READ_def bit_simps)

lemma flags_inv_done:
  "flags_inv c \<Longrightarrow> flags_inv (clear_task_in_progress T_CONNECT (c\<lparr>connects := n\<rparr>))"
  "flags_inv c \<Longrightarrow> flags_inv (clear_task_in_progress T_HANDSHAKE (c\<lparr>handshakes := n\<rparr>))"
  by (simp_all add: flags_inv_def in_progress_def context_simps T_CONNECT_def T_HANDSHAKE_def bit_simps)

lemma flags_inv_disconnected: "flags_inv c \<Longrightarrow> flags_inv (call_channel_disconnected hs c)"
  by (auto simp: call_channel_disconnected_def Let_def close_immediately_def flags_inv_fire)

lemma flags_inv_shutdown: "flags_inv c \<Longrightarrow> flags_inv (shutdown_complete hs c)"
  by (simp add: shutdown_complete_def Let_def close_without_shutdown_def flags_inv_disconnected)

lemma flags_inv_close: "flags_inv c \<Longrightarrow> flags_inv (close_gracefully hs c)"
  by (simp add: close_gracefully_def ssl_close_gracefully_def close_at_once_def Let_def flags_inv_shutdown)

lemma flags_inv_handle: "flags_inv c \<Longrightarrow> flags_inv (handle_req_close hs c)" "flags_inv c \<Longrightarrow> flags_inv (run_close hs c)"
  by (simp_all add: handle_req_close_def run_close_def flags_inv_close)

lemma flags_inv_connected: "flags_inv c \<Longrightarrow> flags_inv (call_channel_connected hs c)"
  by (simp add: call_channel_connected_def Let_def flags_inv_handle flags_inv_start(5) flags_inv_fire)

lemma flags_inv_read_loop: "flags_inv c \<Longrightarrow> flags_inv (read_loop hs c)"
proof (induction hs c rule: read_loop.induct)
  case (1 hs c)
  let ?d = "fire hs ''channel_read'' Channel_read c"
  have d: "flags_inv ?d" using 1(2) by (rule flags_inv_fire(1))
  have loop: "read_loop hs c = (if unread ?d = unread c then ?d else if unread ?d > 0 then read_loop hs ?d else ?d)"
    by (subst read_loop.simps) (simp only: Let_def)
  show ?case using 1(1) [OF refl _ _ d] d unfolding loop by presburger
qed

lemma flags_inv_read:
  assumes "flags_inv c"
  shows "flags_inv (tcp_call_channel_read hs n c)"
proof -
  let ?c = "set_done False (c\<lparr>unread := unread c + n\<rparr>)"
  let ?d = "read_loop hs ?c"
  let ?e = "if unread ?d = 0 \<and> stat ?d = CONNECTED
            then reset_and_fire hs ''channel_rdbuf_empty'' Channel_rdbuf_empty ?d else ?d"
  have "flags_inv ?c" using assms by simp
  then have "flags_inv ?d" by (rule flags_inv_read_loop)
  then have "flags_inv ?e" using flags_inv_fire(2) by simp
  then have "flags_inv (read_if_connected ?e)" by (rule flags_inv_start(5))
  then show ?thesis by (simp only: tcp_call_channel_read_def Let_def)
qed

lemma flags_inv_write:
  assumes "flags_inv c" and "\<And>b d. flags_inv (write b d) = flags_inv d"
  shows "flags_inv (write_with write hs obj c)"
proof -
  let ?c = "(set_done False c)\<lparr>events := events c @ [Channel_write obj]\<rparr>"
  have "flags_inv (fst (snd (call_channel_write_handler hs obj ?c)))"
    using assms(1) by (intro flags_inv_effect [OF call_channel_write_handler_effect]) simp
  then show ?thesis by (auto simp: write_with_def split_beta Let_def assms(2) split: net_object.splits)
qed

lemma flags_inv_runs:
  assumes "flags_inv c"
  shows "flags_inv (run_write hs obj c)" "flags_inv (run_write_to hs obj dest c)" "flags_inv (call_channel_written hs n c)"
proof -
  show "flags_inv (run_write hs obj c)" "flags_inv (run_write_to hs obj dest c)"
    using assms by (simp_all add: run_write_def run_write_to_def flags_inv_write write_streambuf_def write_streambuf_to_def)
  have "flags_inv (if stat c = BOUND \<or> stat c = CONNECTED
      then reset_and_fire hs ''channel_written'' (Channel_written n) c else c)"
    using assms flags_inv_fire(2) by simp
  then show "flags_inv (call_channel_written hs n c)" unfolding call_channel_written_def Let_def by simp
qed

lemma flags_inv_post: "flags_inv c \<Longrightarrow> posts c = q # qs \<Longrightarrow> q \<noteq> Post_start_connect \<Longrightarrow> flags_inv (c\<lparr>posts := qs\<rparr>)"
  by (auto simp: flags_inv_def in_progress_def)

lemma flags_inv_posted:
  assumes "flags_inv c" and "posts c = q # qs" and "kind c \<noteq> Udp" and "run_posted os hs q (c\<lparr>posts := qs\<rparr>) = Some c'"
    and "\<not> (\<exists>lp v remote. q = Post_bind_name lp v remote)" and "\<not> (\<exists>lp v dest. q = Post_bind_address lp v dest)"
  shows "flags_inv c'"
proof (cases "q = Post_start_connect")
  case True
  then show ?thesis using assms by (auto simp: flags_inv_def start_connect_def in_progress_def)
next
  case False
  have c: "flags_inv (c\<lparr>posts := qs\<rparr>)" using assms(1,2) False by (rule flags_inv_post)
  then have "flags_inv (call_channel_created hs (c\<lparr>posts := qs\<rparr>))"
    by (simp add: call_channel_created_def flags_inv_fire)
  then show ?thesis
    using c assms(4-6) False
    by (cases q) (auto simp: flags_inv_fire flags_inv_runs flags_inv_handle run_accepted_def tcp_accepted_def ssl_accepted_def
        run_connect_def run_resolve_def Let_def flags_inv_connected flags_inv_start)
qed

lemma flags_inv_complete:
  assumes "flags_inv c" and "kind c \<noteq> Udp"
  shows "flags_inv (resolve_complete failed (c\<lparr>resolves := n\<rparr>))"
    "flags_inv (connect_complete hs error inserted (c\<lparr>connects := n\<rparr>))"
    "flags_inv (handshake_complete hs error (c\<lparr>handshakes := n\<rparr>))"
    "flags_inv (shutdown_complete hs (c\<lparr>shutdowns := n\<rparr>))"
    "flags_inv (read_complete hs rerror bytes sender (c\<lparr>reads := n\<rparr>))"
    "flags_inv (write_complete hs error bytes (c\<lparr>writes := ws\<rparr>))"
proof -
  show "flags_inv (resolve_complete failed (c\<lparr>resolves := n\<rparr>))"
    using assms by (simp add: resolve_complete_def tcp_resolve_complete_def flags_inv_start)
  have d: "flags_inv (clear_task_in_progress T_CONNECT (c\<lparr>connects := n\<rparr>))"
    using assms(1) by (rule flags_inv_done)
  then show "flags_inv (connect_complete hs error inserted (c\<lparr>connects := n\<rparr>))"
    using assms(2)
    by (auto simp: connect_complete_def tcp_connect_complete_def new_channel_connected_def close_immediately_def Let_def
        flags_inv_start flags_inv_connected split: option.splits)
  have "flags_inv (clear_task_in_progress T_HANDSHAKE (c\<lparr>handshakes := n\<rparr>))"
    using assms(1) by (rule flags_inv_done)
  then show "flags_inv (handshake_complete hs error (c\<lparr>handshakes := n\<rparr>))"
    by (simp add: handshake_complete_def Let_def flags_inv_connected split: option.splits)
  show "flags_inv (shutdown_complete hs (c\<lparr>shutdowns := n\<rparr>))"
    using assms(1) by (simp add: flags_inv_shutdown)
  show "flags_inv (read_complete hs rerror bytes sender (c\<lparr>reads := n\<rparr>))"
    using assms
    by (auto simp: read_complete_def Let_def call_channel_read_def flags_inv_handle flags_inv_read flags_inv_disconnected
        split: option.splits read_error.splits)
  show "flags_inv (write_complete hs error bytes (c\<lparr>writes := ws\<rparr>))"
    using assms(1) by (auto simp: write_complete_def Let_def flags_inv_handle flags_inv_runs split: option.splits)
qed

section \<open>A close is not forgotten\<close>

lemma close_pending_stat: "stat c \<noteq> REQ_CLOSE \<Longrightarrow> close_pending c"
  by (simp add: close_pending_def)

lemma busy_set [simp]: "is_channel_busy c \<Longrightarrow> is_channel_busy (set_task_in_progress t c)"
  by (auto simp: busy_bits in_progress_def set_task_in_progress_def bit_or_iff)

lemma busy_simple [simp]:
  "is_channel_busy (set_done d c) = is_channel_busy c" "is_channel_busy (c\<lparr>events := es\<rparr>) = is_channel_busy c"
  "is_channel_busy (c\<lparr>posts := ps\<rparr>) = is_channel_busy c" "is_channel_busy (request_stop c) = is_channel_busy c"
  "is_channel_busy (fire_exception_caught what c) = is_channel_busy c" "is_channel_busy (push_message m w c) = is_channel_busy c"
  by (simp_all add: is_channel_busy_def context_simps fire_exception_caught_def post_def push_message_def issue_write_def
      Let_def request_stop_def)

lemma pending_simple [simp]:
  "close_pending (set_done d c) = close_pending c" "close_pending (c\<lparr>events := es\<rparr>) = close_pending c"
  "close_pending (request_stop c) = close_pending c" "close_pending (fire_exception_caught what c) = close_pending c"
  "close_pending (push_message m w c) = close_pending c"
  unfolding close_pending_def
  by (simp_all only: busy_simple) (simp_all add: context_simps request_stop_def fire_exception_caught_def post_def
      push_message_def issue_write_def Let_def)

lemma pending_set: "close_pending c \<Longrightarrow> close_pending (set_task_in_progress t c)"
  unfolding close_pending_def by (auto simp: busy_set) (auto simp: context_simps)

lemma pending_handle: "close_pending (handle_req_close hs c)" "close_pending (run_close hs c)"
  by (auto simp: close_pending_def handle_req_close_def run_close_def close_gracefully_stat)

lemma pending_connected: "stat c = CREATED \<Longrightarrow> close_pending (call_channel_connected hs c)"
  by (simp add: call_channel_connected_def Let_def pending_handle close_pending_stat)

lemma pending_fire: "close_pending c \<Longrightarrow> close_pending (reset_and_fire hs which cb c)"
  using close_pending_effect [OF fire_effect [of "set_done False c" cb hs which]] by (simp add: reset_and_fire_def)

lemma pending_write:
  assumes "close_pending c" and "\<And>b d. close_pending (write b d) = close_pending d"
  shows "close_pending (write_with write hs obj c)"
proof -
  let ?c = "(set_done False c)\<lparr>events := events c @ [Channel_write obj]\<rparr>"
  have "close_pending (fst (snd (call_channel_write_handler hs obj ?c)))"
    using assms(1) by (intro close_pending_effect [OF call_channel_write_handler_effect]) simp
  then show ?thesis by (auto simp: write_with_def split_beta Let_def assms(2) pending_set split: net_object.splits)
qed

lemma pending_posted:
  assumes "close_pending c" and "posts c = q # qs" and "kind c \<noteq> Udp" and "begins q \<longrightarrow> stat c = CREATED"
    and "run_posted os hs q (c\<lparr>posts := qs\<rparr>) = Some c'"
    and "\<not> (\<exists>lp v remote. q = Post_bind_name lp v remote)" and "\<not> (\<exists>lp v dest. q = Post_bind_address lp v dest)"
  shows "close_pending c'"
proof (cases "q = Post_close")
  case True
  then show ?thesis using assms(5) by (auto simp: pending_handle)
next
  case False
  let ?d = "c\<lparr>posts := qs\<rparr>"
  have d: "close_pending ?d" using assms(1,2) False by (auto simp: close_pending_def)
  have "stat (call_channel_created hs ?d) = CREATED" if "begins q" using that assms(4) by (simp add: created_CREATED)
  then have "close_pending (run_accepted hs ?d)" "close_pending (run_connect hs ?d)" "close_pending (run_resolve hs ?d)"
    if "begins q"
    using that by (simp_all add: run_accepted_def tcp_accepted_def ssl_accepted_def run_connect_def run_resolve_def Let_def
        pending_connected close_pending_stat)
  moreover have "close_pending (start_connect ?d)"
    using d by (simp add: close_pending_def start_connect_def is_channel_busy_def)
  moreover have "close_pending (run_write hs obj ?d)" "close_pending (run_write_to hs obj dest ?d)" for obj dest
    using d by (simp_all add: run_write_def run_write_to_def pending_write write_streambuf_def write_streambuf_to_def)
  ultimately show ?thesis using assms(5-7) d False by (cases q) (auto simp: pending_fire)
qed

lemma starting_created:
  assumes "channel_inv c" and "kind c \<noteq> Udp" and "startups c \<noteq> 0"
  shows "stat c = CREATED"
  using assms by (auto simp: channel_inv_def living_def in_phase_def start_inv_def phase_is_def split: if_splits)

definition closing_inv :: "channel \<Rightarrow> bool" where
  "closing_inv c \<longleftrightarrow> channel_inv c \<and> (kind c \<noteq> Udp \<longrightarrow> flags_inv c \<and> close_pending c)"

lemma closing_step:
  assumes "channel_step hs c c'" and "closing_inv c" and "kind c \<noteq> Udp"
  shows "flags_inv c' \<and> close_pending c'"
proof -
  have c: "flags_inv c" "close_pending c" and inv: "channel_inv c" using assms(2,3) by (simp_all add: closing_inv_def)
  have up: "startups c \<noteq> 0 \<Longrightarrow> stat c = CREATED" using starting_created [OF inv assms(3)] .
  from assms(1) show ?thesis
  proof (cases rule: step_cases)
    case (posted os q qs)
    have "begins q \<longrightarrow> stat c = CREATED \<and> begins_with (kind c) q"
      using inv posted(1) by (auto simp: channel_inv_def unborn_def living_def in_phase_def start_inv_def)
    then show ?thesis
      using flags_inv_posted [OF c(1) posted(1) assms(3) posted(2)] pending_posted [OF c(2) posted(1) assms(3) _ posted(2)]
        assms(3) by fastforce
  next
    case (resolved n failed)
    then have "stat c' = CREATED" using up by (simp add: startups_def resolve_complete_def tcp_resolve_complete_def assms(3))
    then show ?thesis using resolved flags_inv_complete [OF c(1) assms(3)] by (simp add: close_pending_stat)
  next
    case (connected n error inserted)
    then have "stat c = CREATED" using up by (simp add: startups_def)
    then have "close_pending c'"
      using connected assms(3)
      by (auto simp: connect_complete_def tcp_connect_complete_def new_channel_connected_def Let_def close_immediately_def
          pending_connected close_pending_stat split: option.splits)
    then show ?thesis using connected flags_inv_complete [OF c(1) assms(3)] by simp
  next
    case (handshaken n error)
    then have "stat c = CREATED" using up by (simp add: startups_def)
    then have "close_pending c'"
      using handshaken by (simp add: handshake_complete_def Let_def pending_connected close_pending_stat split: option.splits)
    then show ?thesis using handshaken flags_inv_complete [OF c(1) assms(3)] by simp
  next
    case (shut_down n)
    then show ?thesis
      using flags_inv_complete [OF c(1) assms(3)] by (simp add: close_pending_stat shutdown_complete_stat)
  next
    case (read n error bytes sender)
    then show ?thesis
      using flags_inv_complete(5) [OF c(1) assms(3)] by (simp add: read_complete_def Let_def pending_handle)
  next
    case (written w ws error)
    then show ?thesis
      using flags_inv_complete(6) [OF c(1) assms(3)] by (simp add: write_complete_def Let_def pending_handle)
  next
    case asked
    then show ?thesis using asked_keeps [OF asked] c flags_inv_effect close_pending_effect by auto
  qed
qed

interpretation closing_machine: invariant_machine "channel_step hs" closing_inv created "channel_reachable hs" for hs
proof
  show "closing_inv c'" if "channel_step hs c c'" "closing_inv c" for c c'
    using that closing_step [OF that] kind_step [OF that(1)] order_machine.keeps_step [OF that(1)]
    by (simp add: closing_inv_def)
  show "closing_inv c" if "created c" for c
    using that order_machine.start_inv [OF that] unfolding created_def
    by (elim exE disjE) (auto simp: closing_inv_def flags_inv_def close_pending_def in_progress_def new_channel_defs)
qed (auto intro: channel_least)

section \<open>While a close is pending\<close>

text \<open>The functions posted to a channel that has been asked to close, other than the close itself, only post more.\<close>

definition only_posts :: "channel \<Rightarrow> channel \<Rightarrow> bool" where
  "only_posts c c' \<longleftrightarrow>
     stat c' = stat c \<and> tasks c' = tasks c \<and> startups c' = startups c \<and> reads c' = reads c \<and> writes c' = writes c \<and>
     shutdowns c' = shutdowns c \<and> (\<exists>ps. posts c' = posts c @ ps)"

lemma only_posts_effect: "handler_effect c c' \<Longrightarrow> stat c = REQ_CLOSE \<Longrightarrow> only_posts c c'"
  using startups_effect [of c c'] by (auto simp: only_posts_def handler_effect_def posts_grow_def)

lemma only_posts_simple [simp]:
  "only_posts (set_done b c) c' = only_posts c c'" "only_posts (c\<lparr>events := es\<rparr>) c' = only_posts c c'"
  "only_posts c d \<Longrightarrow> only_posts c (fire_exception_caught what d)" "only_posts c (request_stop c)"
  by (auto simp: only_posts_def context_simps startups_def fire_exception_caught_def post_def request_stop_def)

lemma only_posts_fire: "stat c = REQ_CLOSE \<Longrightarrow> only_posts c (reset_and_fire hs which cb c)"
  using only_posts_effect [OF fire_effect [of "set_done False c" cb hs which]] by (simp add: reset_and_fire_def)

lemma only_posts_write:
  assumes "stat c = REQ_CLOSE"
  shows "only_posts c (write_with write hs obj c)"
proof -
  let ?c = "(set_done False c)\<lparr>events := events c @ [Channel_write obj]\<rparr>"
  have r: "only_posts c (fst (snd (call_channel_write_handler hs obj ?c)))"
    using only_posts_effect [OF call_channel_write_handler_effect [of ?c hs obj]] assms by simp
  then have "stat (fst (snd (call_channel_write_handler hs obj ?c))) = REQ_CLOSE"
    using assms by (simp add: only_posts_def)
  then show ?thesis using r by (auto simp: write_with_def split_beta Let_def split: net_object.splits)
qed

lemma only_posts_posted:
  assumes "stat c = REQ_CLOSE" and "\<not> starts q" and "q \<noteq> Post_close"
  shows "\<exists>c'. run_posted os hs q c = Some c' \<and> only_posts c c'"
  using assms by (cases q) (auto simp: only_posts_fire only_posts_write run_write_def run_write_to_def)

text \<open>When nothing keeps the channel busy, the posted close carries the close out.\<close>

lemma posted_close_runs:
  "posts c = qs @ Post_close # rs \<Longrightarrow> stat c = REQ_CLOSE \<Longrightarrow> \<not> is_channel_busy c \<Longrightarrow> startups c = 0 \<Longrightarrow>
   \<exists>c'. (channel_step hs)\<^sup>*\<^sup>* c c' \<and> stat c' = CLOSED"
proof (induction qs arbitrary: c rs)
  case Nil
  let ?c' = "run_close hs (c\<lparr>posts := rs\<rparr>)"
  have "channel_step hs c ?c'" using Nil(1) by (intro posted [of _ Post_close rs willing]) simp_all
  moreover have "stat ?c' = CLOSED" using Nil(2,3) by (simp add: run_close_def close_gracefully_stat)
  ultimately show ?case by blast
next
  case (Cons q qs)
  let ?d = "c\<lparr>posts := qs @ Post_close # rs\<rparr>"
  show ?case
  proof (cases "q = Post_close")
    case True
    let ?c' = "run_close hs ?d"
    have "channel_step hs c ?c'" using Cons.prems(1) True by (intro posted [of _ Post_close _ willing]) simp_all
    moreover have "stat ?c' = CLOSED" using Cons.prems(2,3) by (simp add: run_close_def close_gracefully_stat)
    ultimately show ?thesis by blast
  next
    case False
    have "\<not> starts q" "startups ?d = 0" using Cons.prems(1,4) by (auto simp: startups_def split: if_splits)
    then obtain c' where c': "run_posted willing hs q ?d = Some c'" "only_posts ?d c'"
      using only_posts_posted [of ?d q willing hs] Cons.prems(2) False by auto
    then obtain ps where "posts c' = qs @ Post_close # rs @ ps" by (auto simp: only_posts_def)
    moreover have "stat c' = REQ_CLOSE" "\<not> is_channel_busy c'" "startups c' = 0"
      using c'(2) Cons.prems(2,3) \<open>startups ?d = 0\<close> by (simp_all add: only_posts_def is_channel_busy_def)
    ultimately obtain e where "(channel_step hs)\<^sup>*\<^sup>* c' e" "stat e = CLOSED"
      using Cons.IH [of c' "rs @ ps"] by auto
    moreover have "channel_step hs c c'" using posted [OF Cons.prems(1) [simplified]] c'(1) by blast
    ultimately show ?thesis using converse_rtranclp_into_rtranclp [of "channel_step hs" c c' e] by blast
  qed
qed

text \<open>Busy, and nothing under way that would end it.\<close>

definition choked :: "channel \<Rightarrow> bool" where
  "choked c \<longleftrightarrow>
     stat c = REQ_CLOSE \<and> is_channel_busy c \<and> startups c = 0 \<and> reads c = 0 \<and> writes c = [] \<and> shutdowns c = 0"

lemma choked_only_posts: "choked c \<Longrightarrow> only_posts c c' \<Longrightarrow> choked c'"
  by (simp add: choked_def only_posts_def is_channel_busy_def)

lemma choked_step:
  assumes "channel_step hs c c'" and "choked c"
  shows "choked c'"
proof -
  have idle: "resolves c = 0" "connects c = 0" "handshakes c = 0" "filter starts (posts c) = []"
    using assms(2) by (simp_all add: choked_def startups_def)
  from assms(1) show ?thesis
  proof (cases rule: step_cases)
    case (posted os q qs)
    have d: "choked (c\<lparr>posts := qs\<rparr>)" and q: "\<not> starts q"
      using assms(2) posted(1) by (auto simp: choked_def startups_def split: if_splits)
    show ?thesis
    proof (cases "q = Post_close")
      case True
      then have "c' = c\<lparr>posts := qs\<rparr>" using posted(2) d by (auto simp: run_close_def choked_def)
      then show ?thesis using d by simp
    next
      case False
      have "stat (c\<lparr>posts := qs\<rparr>) = REQ_CLOSE" using d by (simp add: choked_def)
      then have "only_posts (c\<lparr>posts := qs\<rparr>) c'"
        using only_posts_posted [of "c\<lparr>posts := qs\<rparr>" q os hs, OF _ q False] posted(2) by simp
      with d show ?thesis by (rule choked_only_posts)
    qed
  next
    case asked
    have "stat c = REQ_CLOSE" using assms(2) by (simp add: choked_def)
    then have "only_posts c c'" using asked_keeps [OF asked] only_posts_effect by auto
    with assms(2) show ?thesis by (rule choked_only_posts)
  qed (use assms(2) idle in \<open>simp_all add: choked_def\<close>)
qed

interpretation choked: persistent "channel_step hs" choked "\<lambda>c c'. stat c \<le> stat c'" for hs
  by unfold_locales (auto intro: choked_step order_trans dest: channel_step_stat)

text \<open>What is true of a channel that has been asked to close.\<close>

lemma closing_facts:
  assumes "channel_reachable hs c" and "kind c \<noteq> Udp" and "stat c = REQ_CLOSE"
  shows "startups c = 0" "shutdowns c = 0" "in_progress 2 c \<longleftrightarrow> reads c > 0"
    "is_channel_busy c \<longleftrightarrow> in_progress 2 c \<or> in_progress 3 c" "Post_close \<in> set (posts c) \<or> is_channel_busy c"
    "in_progress k c \<Longrightarrow> k < 4 \<Longrightarrow> k = 2 \<or> k = 3"
proof -
  have inv: "channel_inv c" and flags: "flags_inv c" and pending: "close_pending c"
    using closing_machine.always [OF assms(1)] assms(2) by (simp_all add: closing_inv_def)
  show start: "startups c = 0" using starting_created [OF inv assms(2)] assms(3) by auto
  show "shutdowns c = 0" "in_progress 2 c \<longleftrightarrow> reads c > 0"
    using inv assms(3) by (auto simp: channel_inv_def living_def in_phase_def start_inv_def read_inv_def split: if_splits)
  have "\<not> in_progress 0 c" "\<not> in_progress 1 c"
    using flags start by (auto simp: flags_inv_def startups_def filter_empty_conv)
  moreover have "k < 4 \<Longrightarrow> k = 0 \<or> k = 1 \<or> k = 2 \<or> k = 3" for k :: nat by auto
  ultimately have bits: "in_progress k c \<Longrightarrow> k < 4 \<Longrightarrow> k = 2 \<or> k = 3" for k by metis
  then show "in_progress k c \<Longrightarrow> k < 4 \<Longrightarrow> k = 2 \<or> k = 3" .
  have "(2 :: nat) < 4" "(3 :: nat) < 4" by simp_all
  then show "is_channel_busy c \<longleftrightarrow> in_progress 2 c \<or> in_progress 3 c" using bits unfolding busy_bits by metis
  show "Post_close \<in> set (posts c) \<or> is_channel_busy c" using pending assms(3) by (simp add: close_pending_def)
qed

lemma can_close:
  assumes "channel_reachable hs c" and "kind c \<noteq> Udp" and "stat c = REQ_CLOSE"
    and "reads c > 0 \<or> writes c \<noteq> [] \<or> \<not> in_progress 3 c"
  shows "\<exists>c'. (channel_step hs)\<^sup>*\<^sup>* c c' \<and> stat c' = CLOSED"
proof -
  note facts = closing_facts [OF assms(1-3)]
  consider (read) n where "reads c = Suc n" | (written) w ws where "reads c = 0" "writes c = w # ws"
    | (free) "reads c = 0" "\<not> in_progress 3 c"
    using assms(4) by (cases "reads c"; cases "writes c") auto
  then show ?thesis
  proof cases
    case read
    let ?c' = "read_complete hs (Some Silent_error) 0 ip_port_default (c\<lparr>reads := n\<rparr>)"
    have "stat ?c' = CLOSED"
      by (simp add: read_complete_def Let_def handle_req_close_def call_channel_disconnected_stat)
    moreover have "channel_step hs c ?c'" using read by (rule read_done)
    ultimately show ?thesis by blast
  next
    case written
    let ?c' = "write_complete hs (Some ''operation aborted'') (sent_bytes w) (c\<lparr>writes := ws\<rparr>)"
    let ?d = "fire_exception_caught ''operation aborted'' (remove_sent_data (clear_task_in_progress T_WRITE (c\<lparr>writes := ws\<rparr>)))"
    have "in_progress k ?d = (k \<noteq> 3 \<and> in_progress k c)" for k
      using in_progress_clear [of k 3 c]
      by (simp add: fire_exception_caught_def post_def remove_sent_data_def task_bits in_progress_def clear_task_in_progress_def)
    then have "\<not> in_progress k ?d" if "k < 4" for k
      using facts(3,6) written(1) that by auto
    then have "stat ?c' = CLOSED"
      using assms(3) by (simp add: write_complete_def Let_def handle_req_close_def close_gracefully_stat busy_bits)
    moreover have "channel_step hs c ?c'" using written(2) by (rule write_done)
    ultimately show ?thesis by blast
  next
    case free
    then have "\<not> is_channel_busy c" using facts(3,4) by simp
    moreover obtain qs rs where "posts c = qs @ Post_close # rs"
      using facts(5) calculation by (auto simp: in_set_conv_decomp)
    ultimately show ?thesis using posted_close_runs assms(3) facts(1) by blast
  qed
qed

section \<open>Example\<close>

text \<open>A handler that closes the channel when it reads. A server channel with two buffers queued; the write of the first
  fails; a third buffer is written; then bytes come.\<close>

definition closing_handler :: channel_handler where
  "closing_handler =
     \<lparr>react = \<lambda>cb c. (if cb = Channel_read then [Ask_close, Ask_done] else [Ask_done], False), encode = \<lambda>obj threw. obj\<rparr>"

definition before_bytes :: channel where
  "before_bytes =
     (let hs = [closing_handler];
          c = next_post hs (new_channel_accepted False);
          c = fst (write_channel (Buffer [1]) c);
          c = next_post hs (next_post hs (fst (write_channel (Buffer [2]) c)));
          c = write_complete hs (Some ''broken pipe'') 1 (c\<lparr>writes := []\<rparr>);
          c = fst (write_channel (Buffer [3]) c)
      in next_post hs (next_post hs c))"

definition never_closed :: channel where
  "never_closed = read_complete [closing_handler] None 1 ip_port_default (before_bytes\<lparr>reads := 0\<rparr>)"

lemma never_closed_reachable: "channel_reachable [closing_handler] never_closed"
proof -
  let ?hs = "[closing_handler]"
  let ?c = "next_post ?hs (next_post ?hs (fst (write_channel (Buffer [2]) (fst (write_channel (Buffer [1])
    (next_post ?hs (new_channel_accepted False)))))))"
  have c: "channel_reachable ?hs ?c"
    by (intro next_post_reachable channel_go [OF _ asked_write] from_server)
  have "writes ?c = [Send [1]]" by code_simp
  from channel_go [OF c write_done [OF this]]
  have "channel_reachable ?hs (write_complete ?hs (Some ''broken pipe'') 1 (?c\<lparr>writes := []\<rparr>))"
    by (simp add: sent_bytes_def)
  then have "channel_reachable ?hs before_bytes"
    unfolding before_bytes_def Let_def by (intro next_post_reachable channel_go [OF _ asked_write])
  moreover have "reads before_bytes = Suc 0" by code_simp
  ultimately show ?thesis unfolding never_closed_def by (intro channel_go [OF _ read_done])
qed

lemma never_closed_state:
  "kind never_closed \<noteq> Udp" "stat never_closed = REQ_CLOSE" "reads never_closed = 0" "writes never_closed = []"
  "in_progress 3 never_closed"
  by code_simp+

section \<open>Properties\<close>

text \<open>C25: Before its service is stopped, a TCP or TLS channel that has been asked to close can be closed exactly when a
  read or a write is with asio, or \<open>T_WRITE\<close> is not set. Otherwise, which is reached when \<open>write\<close> after a failed write
  sets \<open>T_WRITE\<close> for a buffer that is only queued and then a \<open>channel_read\<close> handler closes, no completion will clear
  \<open>T_WRITE\<close>, and only the stop of the service closes the channel.\<close>

theorem close_completes_iff:
  assumes "channel_reachable hs c" and "kind c \<noteq> Udp" and "stat c = REQ_CLOSE"
  shows "(\<exists>c'. (hosted_step hs)\<^sup>*\<^sup>* (c, False) (c', False) \<and> stat c' = CLOSED) \<longleftrightarrow>
    reads c > 0 \<or> writes c \<noteq> [] \<or> \<not> in_progress 3 c"
proof
  assume "\<exists>c'. (hosted_step hs)\<^sup>*\<^sup>* (c, False) (c', False) \<and> stat c' = CLOSED"
  then obtain c' where hosted: "(hosted_step hs)\<^sup>*\<^sup>* (c, False) (c', False)" and closed: "stat c' = CLOSED" by blast
  from hosted have c': "(channel_step hs)\<^sup>*\<^sup>* c c'" by (cases rule: hosted_cases) simp_all
  note facts = closing_facts(1,2,4) [OF assms]
  have "\<not> choked c"
  proof
    assume "choked c"
    from choked.for_ever [OF c' this] have "stat c' = REQ_CLOSE" by (simp add: choked_def)
    then show False using closed by simp
  qed
  then show "reads c > 0 \<or> writes c \<noteq> [] \<or> \<not> in_progress 3 c"
    unfolding choked_def facts using assms(3) by (simp, blast)
next
  assume "reads c > 0 \<or> writes c \<noteq> [] \<or> \<not> in_progress 3 c"
  then show "\<exists>c'. (hosted_step hs)\<^sup>*\<^sup>* (c, False) (c', False) \<and> stat c' = CLOSED"
    using can_close [OF assms] hosted_runs by blast
qed

theorem close_completes_iff_witness:
  "\<not> (\<exists>c'. (hosted_step [closing_handler])\<^sup>*\<^sup>* (never_closed, False) (c', False) \<and> stat c' = CLOSED)"
  using close_completes_iff [OF never_closed_reachable never_closed_state(1,2)] never_closed_state(3-5) by simp

end
