(* ===== verification/Socket_Options.thy ===== *)
theory Socket_Options
  imports Channel_Order
begin

text \<open>
  The options of channels (\<open>channel_base.h\<close>) and the pipelines of handlers (\<open>handler_pipeline.h\<close>), under
  \<open>src/include/shan/net/\<close>. Each method makes an option of asio and sets it on the socket of the channel. asio is a
  parameter: what \<open>set_option\<close> throws, if anything, for an option and a socket that is open or not, and what
  \<open>from_string\<close> reads an address as. A channel is given to the application in one place only, the callback
  \<open>channel_created\<close>.

  Shown: when the function runs that brings a channel up, the socket of a channel of a server is open in that callback
  and the socket of every other channel is not, so that a client or a UDP handler that sets an option there only gets
  an exception event.
\<close>

section \<open>Options\<close>

datatype socket_option =
    Receive_buffer_size int
  | Send_buffer_size int
  | No_delay bool
  | Keep_alive bool
  | Linger bool int
  | Receive_low_watermark int
  | Send_low_watermark int
  | Enable_loopback bool
  | Multicast_hops int
  | Join_group nat
  | Leave_group nat
  | Outbound_interface nat
  | Unicast_hops int
  | Broadcast bool
  | Do_not_route bool

record asio_socket =
  asio_set_option :: "socket_option \<Rightarrow> bool \<Rightarrow> string option"
  address_from_string :: "string \<Rightarrow> string + nat"
  address_v4_from_string :: "string \<Rightarrow> string + nat"

text \<open>\<open>socket().set_option(option)\<close>, and the same with an address that is read first; the result is the exception.\<close>

definition set_option :: "asio_socket \<Rightarrow> socket_option \<Rightarrow> channel \<Rightarrow> string option" where
  "set_option asio option c = asio_set_option asio option (socket_open c)"

definition set_address_option ::
    "asio_socket \<Rightarrow> (nat \<Rightarrow> socket_option) \<Rightarrow> string + nat \<Rightarrow> channel \<Rightarrow> string option" where
  "set_address_option asio mk address c =
     (case address of Inl what \<Rightarrow> Some what | Inr a \<Rightarrow> set_option asio (mk a) c)"

text \<open>TCP and UDP.\<close>

definition set_receive_buffer_size :: "asio_socket \<Rightarrow> int \<Rightarrow> channel \<Rightarrow> string option" where
  "set_receive_buffer_size asio n = set_option asio (Receive_buffer_size n)"

definition set_send_buffer_size :: "asio_socket \<Rightarrow> int \<Rightarrow> channel \<Rightarrow> string option" where
  "set_send_buffer_size asio n = set_option asio (Send_buffer_size n)"

text \<open>TCP.\<close>

definition set_no_delay :: "asio_socket \<Rightarrow> bool \<Rightarrow> channel \<Rightarrow> string option" where
  "set_no_delay asio no_delay = set_option asio (No_delay no_delay)"

definition set_keep_alive :: "asio_socket \<Rightarrow> bool \<Rightarrow> channel \<Rightarrow> string option" where
  "set_keep_alive asio keep_alive = set_option asio (Keep_alive keep_alive)"

definition set_linger :: "asio_socket \<Rightarrow> bool \<Rightarrow> int \<Rightarrow> channel \<Rightarrow> string option" where
  "set_linger asio linger seconds = set_option asio (Linger linger seconds)"

definition set_recv_low_watermark :: "asio_socket \<Rightarrow> int \<Rightarrow> channel \<Rightarrow> string option" where
  "set_recv_low_watermark asio low = set_option asio (Receive_low_watermark low)"

definition set_send_low_watermark :: "asio_socket \<Rightarrow> int \<Rightarrow> channel \<Rightarrow> string option" where
  "set_send_low_watermark asio low = set_option asio (Send_low_watermark low)"

text \<open>UDP.\<close>

definition set_multicast_loop :: "asio_socket \<Rightarrow> bool \<Rightarrow> channel \<Rightarrow> string option" where
  "set_multicast_loop asio multicast_loop = set_option asio (Enable_loopback multicast_loop)"

definition set_multicast_ttl :: "asio_socket \<Rightarrow> int \<Rightarrow> channel \<Rightarrow> string option" where
  "set_multicast_ttl asio multicast_ttl = set_option asio (Multicast_hops multicast_ttl)"

definition join_group :: "asio_socket \<Rightarrow> string \<Rightarrow> channel \<Rightarrow> string option" where
  "join_group asio multicast_address =
     set_address_option asio Join_group (address_from_string asio multicast_address)"

definition leave_group :: "asio_socket \<Rightarrow> string \<Rightarrow> channel \<Rightarrow> string option" where
  "leave_group asio multicast_address =
     set_address_option asio Leave_group (address_from_string asio multicast_address)"

definition set_multicast_if :: "asio_socket \<Rightarrow> string \<Rightarrow> channel \<Rightarrow> string option" where
  "set_multicast_if asio address =
     set_address_option asio Outbound_interface (address_v4_from_string asio address)"

definition set_unicast_ttl :: "asio_socket \<Rightarrow> int \<Rightarrow> channel \<Rightarrow> string option" where
  "set_unicast_ttl asio unicast_ttl = set_option asio (Unicast_hops unicast_ttl)"

definition set_broadcast :: "asio_socket \<Rightarrow> bool \<Rightarrow> channel \<Rightarrow> string option" where
  "set_broadcast asio broadcast = set_option asio (Broadcast broadcast)"

definition set_dont_route :: "asio_socket \<Rightarrow> bool \<Rightarrow> channel \<Rightarrow> string option" where
  "set_dont_route asio dont_route = set_option asio (Do_not_route dont_route)"

datatype channel_call =
    Set_receive_buffer_size int
  | Set_send_buffer_size int
  | Set_no_delay bool
  | Set_keep_alive bool
  | Set_linger bool int
  | Set_recv_low_watermark int
  | Set_send_low_watermark int
  | Set_multicast_loop bool
  | Set_multicast_ttl int
  | Call_join_group string
  | Call_leave_group string
  | Set_multicast_if string
  | Set_unicast_ttl int
  | Set_broadcast bool
  | Set_dont_route bool

fun call_channel :: "asio_socket \<Rightarrow> channel_call \<Rightarrow> channel \<Rightarrow> string option" where
  "call_channel asio (Set_receive_buffer_size n) = set_receive_buffer_size asio n"
| "call_channel asio (Set_send_buffer_size n) = set_send_buffer_size asio n"
| "call_channel asio (Set_no_delay b) = set_no_delay asio b"
| "call_channel asio (Set_keep_alive b) = set_keep_alive asio b"
| "call_channel asio (Set_linger b n) = set_linger asio b n"
| "call_channel asio (Set_recv_low_watermark n) = set_recv_low_watermark asio n"
| "call_channel asio (Set_send_low_watermark n) = set_send_low_watermark asio n"
| "call_channel asio (Set_multicast_loop b) = set_multicast_loop asio b"
| "call_channel asio (Set_multicast_ttl n) = set_multicast_ttl asio n"
| "call_channel asio (Call_join_group a) = join_group asio a"
| "call_channel asio (Call_leave_group a) = leave_group asio a"
| "call_channel asio (Set_multicast_if a) = set_multicast_if asio a"
| "call_channel asio (Set_unicast_ttl n) = set_unicast_ttl asio n"
| "call_channel asio (Set_broadcast b) = set_broadcast asio b"
| "call_channel asio (Set_dont_route b) = set_dont_route asio b"

lemmas channel_call_defs = set_receive_buffer_size_def set_send_buffer_size_def set_no_delay_def set_keep_alive_def
  set_linger_def set_recv_low_watermark_def set_send_low_watermark_def set_multicast_loop_def set_multicast_ttl_def
  join_group_def leave_group_def set_multicast_if_def set_unicast_ttl_def set_broadcast_def set_dont_route_def
  set_address_option_def set_option_def

section \<open>Pipelines\<close>

definition add_handler_ptr :: "'h \<Rightarrow> 'h list \<Rightarrow> 'h list" where
  "add_handler_ptr h hs = hs @ [h]"

definition get_handler_ptr :: "nat \<Rightarrow> 'h list \<Rightarrow> 'h result" where
  "get_handler_ptr i hs = (if i < length hs then Inr (hs ! i) else Inl Out_of_range)"

text \<open>A handler keeps its index, and \<open>at\<close> throws for the others.\<close>

lemma get_added_handler:
  "get_handler_ptr i (add_handler_ptr h hs) = (if i = length hs then Inr h else get_handler_ptr i hs)"
  by (auto simp: get_handler_ptr_def add_handler_ptr_def nth_append)

section \<open>The socket of a new channel\<close>

definition fresh_socket :: "channel \<Rightarrow> bool" where
  "fresh_socket c \<longleftrightarrow>
     (case posts c of [] \<Rightarrow> True | q # qs \<Rightarrow> begins q \<longrightarrow> socket_open c = (q = Post_accepted))"

lemma living_fresh: "living c \<Longrightarrow> fresh_socket c"
  by (auto simp: living_def in_phase_def start_inv_def fresh_socket_def split: list.splits)

lemma asked_fresh:
  assumes "asked c c'" and "fresh_socket c" and "unborn c"
  shows "fresh_socket c'"
proof -
  obtain q qs where q: "posts c = q # qs" using assms(3) by (auto simp: unborn_def)
  moreover have "\<exists>ps. posts c' = posts c @ ps" and "socket_open c' = socket_open c"
    using asked_keeps [OF assms(1)] by (auto simp: handler_effect_def posts_grow_def request_stop_def)
  ultimately show ?thesis using assms(2) by (auto simp: fresh_socket_def)
qed

lemma fresh_step:
  assumes "channel_step hs c c'" and "channel_inv c" and "fresh_socket c"
  shows "fresh_socket c'"
proof (cases "living c")
  case True
  then show ?thesis using living_step [OF assms(1)] living_fresh by blast
next
  case False
  then have unborn: "unborn c" "stat c = CREATED" using assms(2) by (auto simp: channel_inv_def)
  then have "channel_inv c'" using unborn_step [OF assms(1)] by blast
  then consider "living c'" | "unborn c'" by (auto simp: channel_inv_def)
  then show ?thesis
  proof cases
    case 1
    then show ?thesis by (rule living_fresh)
  next
    case 2
    from assms(1) show ?thesis
    proof (cases rule: step_cases)
      case (posted os p ps)
      then have "living c'" using unborn birth [of "c\<lparr>posts := ps\<rparr>" p os hs c'] by (auto simp: unborn_def)
      then show ?thesis by (rule living_fresh)
    next
      case asked
      then show ?thesis using assms(3) unborn(1) by (rule asked_fresh)
    qed (use unborn in \<open>auto simp: unborn_def phase_defs\<close>)
  qed
qed

interpretation fresh_machine:
  invariant_machine "channel_step hs" "\<lambda>c. channel_inv c \<and> fresh_socket c" created "channel_reachable hs" for hs
proof
  show "channel_inv c' \<and> fresh_socket c'" if "channel_step hs c c'" "channel_inv c \<and> fresh_socket c" for c c'
    using that fresh_step order_machine.keeps_step by blast
  show "channel_inv c \<and> fresh_socket c" if "created c" for c
    using that order_machine.start_inv [OF that] unfolding created_def
    by (elim exE disjE) (auto simp: fresh_socket_def new_channel_defs)
qed (auto intro: channel_least)

section \<open>Setting an option in \<open>channel_created\<close>\<close>

definition option_handler :: "asio_socket \<Rightarrow> channel_call \<Rightarrow> channel_handler" where
  "option_handler asio call =
     \<lparr>react = (\<lambda>cb c. ([], cb = Channel_created \<and> call_channel asio call c \<noteq> None)), encode = (\<lambda>obj threw. obj)\<rparr>"

lemma call_channel_closed:
  "(\<And>option. asio_set_option asio option False \<noteq> None) \<Longrightarrow> \<not> socket_open c \<Longrightarrow> call_channel asio call c \<noteq> None"
  by (cases call) (auto simp: channel_call_defs split: sum.splits)

lemma option_handler_created:
  "posts (call_channel_created [option_handler asio call] c) =
     posts c @ (if call_channel asio call (set_done False c\<lparr>events := events c @ [Channel_created]\<rparr>) = None then []
                else [Post_exception (handler_failed ''channel_created'')])"
  by (simp add: call_channel_created_def reset_and_fire_def fire_def call_handler_def option_handler_def
      fire_exception_caught_def post_def context_simps Let_def)

lemma option_handler_others:
  "cb \<noteq> Channel_created \<Longrightarrow>
     reset_and_fire [option_handler asio call] which cb c = (set_done False c)\<lparr>events := events c @ [cb]\<rparr>"
  by (simp add: reset_and_fire_def fire_def call_handler_def option_handler_def context_simps Let_def)

lemma option_handler_up:
  "posts (call_channel_connected [option_handler asio call] c) = posts c"
  "posts (call_channel_bound [option_handler asio call] r c) = posts c"
  by (auto simp: call_channel_connected_def call_channel_bound_def option_handler_others handle_req_close_def
      read_if_connected_def start_read_def context_simps Let_def)

text \<open>The function that brings a channel up, past the callback.\<close>

definition goes_on :: "posted \<Rightarrow> posted list" where
  "goes_on p =
     (case p of
        Post_connect \<Rightarrow> [Post_start_connect]
      | Post_bind_address lp v dest \<Rightarrow> (if is_valid dest then [Post_start_connect] else [])
      | _ \<Rightarrow> [])"

lemma bind_posts:
  "open_and_bind os hs lp v c = Some d \<Longrightarrow> stat c = CREATED \<Longrightarrow> posts d = posts (call_channel_created hs c)"
  by (drule open_and_bind_result) (simp_all add: context_simps)

lemma run_begins_posts:
  assumes "stat c = CREATED" and "begins p" and "run_posted os [option_handler asio call] p c = Some c'"
  shows "posts c' = posts (call_channel_created [option_handler asio call] c) @ goes_on p"
proof -
  let ?hs = "[option_handler asio call]"
  show ?thesis
  proof (cases p)
    case (Post_bind_name lp v remote)
    then obtain d where d: "open_and_bind os ?hs lp v c = Some d"
      and "posts c' = posts d" using assms(3)
      by (cases remote) (auto simp: run_bind_name_def option_handler_up Let_def)
    then show ?thesis using bind_posts [OF d assms(1)] by (simp add: goes_on_def Post_bind_name)
  next
    case (Post_bind_address lp v dest)
    then obtain d where d: "open_and_bind os ?hs lp v c = Some d"
      and "posts c' = posts d @ (if is_valid dest then [Post_start_connect] else [])" using assms(3)
      by (cases "is_valid dest") (auto simp: run_bind_address_def option_handler_up post_def)
    then show ?thesis using bind_posts [OF d assms(1)] by (simp add: goes_on_def Post_bind_address)
  qed (use assms(2,3) in \<open>auto simp: run_accepted_def tcp_accepted_def ssl_accepted_def run_connect_def run_resolve_def
    goes_on_def option_handler_up start_handshake_def post_def context_simps Let_def\<close>)
qed

text \<open>C35: The application is given the channel, to set its options, in \<open>channel_created\<close>. When the function that brings
  a channel up runs, a handler that sets an option there, one that an open socket takes and a closed one refuses,
  succeeds for the channels of a server. For those of a client or of a UDP service, whose sockets are opened only
  afterwards, asio throws: an exception event is posted, and the channel goes on to come up without the option.\<close>

theorem options_at_creation:
  assumes "\<And>option. asio_set_option asio option False \<noteq> None"
    and "\<And>c. socket_open c \<Longrightarrow> call_channel asio call c = None"
    and "channel_reachable [option_handler asio call] c" and "posts c = p # ps" and "begins p"
    and "run_posted os [option_handler asio call] p (c\<lparr>posts := ps\<rparr>) = Some c'"
  shows "posts c' = ps @ (if p = Post_accepted then [] else [Post_exception (handler_failed ''channel_created'')]) @
    (case p of Post_connect \<Rightarrow> [Post_start_connect]
     | Post_bind_address lp v dest \<Rightarrow> (if is_valid dest then [Post_start_connect] else [])
     | _ \<Rightarrow> [])"
proof -
  have inv: "channel_inv c" "fresh_socket c"
    using fresh_machine.always [OF assms(3)] by simp_all
  then have "socket_open c = (p = Post_accepted)"
    using assms(4,5) by (simp add: fresh_socket_def)
  then have "call_channel asio call (set_done False (c\<lparr>posts := ps\<rparr>)\<lparr>events := events c @ [Channel_created]\<rparr>) = None
      \<longleftrightarrow> p = Post_accepted"
    using assms(2) call_channel_closed [where asio = asio, OF assms(1)] by (cases "socket_open c") (auto simp: context_simps)
  moreover have "stat (c\<lparr>posts := ps\<rparr>) = CREATED"
    using inv(1) assms(4,5) by (auto simp: channel_inv_def living_def in_phase_def start_inv_def)
  ultimately show ?thesis
    using run_begins_posts [OF _ assms(5,6)] by (simp add: option_handler_created goes_on_def)
qed

definition plain_asio :: asio_socket where
  "plain_asio =
     \<lparr>asio_set_option = (\<lambda>option is_open. if is_open then None else Some ''Bad file descriptor''),
       address_from_string = (\<lambda>a. Inr 1), address_v4_from_string = (\<lambda>a. Inr 1)\<rparr>"

theorem options_at_creation_witness:
  "posts (run_connect [option_handler plain_asio (Set_no_delay True)]
     ((channel_new Tcp [Post_connect] False False)\<lparr>posts := []\<rparr>)) =
     [Post_exception (handler_failed ''channel_created''), Post_start_connect]"
proof -
  have "channel_reachable [option_handler plain_asio (Set_no_delay True)] (channel_new Tcp [Post_connect] False False)"
    by (rule from_client [of False]) (simp add: connect_address_def tcp_kind_def)
  from options_at_creation [OF _ _ this, of Post_connect "[]" willing] show ?thesis
    by (simp add: plain_asio_def channel_call_defs channel_new_def context_base.defs)
qed

end
