(* ===== verification/Service_Stop.thy ===== *)
theory Service_Stop
  imports Net_Context Transitions
begin

text \<open>
  How a service starts, stops and is waited for: \<open>start\<close>, \<open>request_stop\<close>, \<open>wait_stop\<close> and \<open>stop\<close> of
  \<open>src/include/shan/net/service_base.h\<close>, as steps of threads over the state of the service, its mutex
  \<open>_service_mutex\<close> and its condition variable.

  Thread 0 is a thread of the application; threads 1 to the worker count run \<open>io_service::run\<close>, that is, poll for
  handlers and run them, until the \<open>io_service\<close> is stopped. Every thread may call \<open>request_stop\<close> and \<open>wait_stop\<close>, the
  workers from handlers. \<open>request_stop\<close> creates one more thread, which holds the mutex while it stops the
  \<open>io_service\<close>, joins the workers and closes the channels. \<open>waited\<close> records who came back from the condition
  variable.

  Shown: when \<open>wait_stop\<close> returns after waiting, every worker has ended and every channel is closed; the stop can come
  to its end exactly when no handler is inside \<open>request_stop\<close> or \<open>wait_stop\<close> once it has begun, which are the
  deadlocks the comments in the source warn of.
\<close>

section \<open>State\<close>

text \<open>Where a thread is: a worker between handlers, code of the application (a handler in a worker), before and
  after taking the mutex in the two functions, waiting for the condition variable, and ended.\<close>

datatype place =
    Unstarted
  | Polling
  | Running
  | Ask_lock
  | Ask_locked
  | Wait_lock
  | Wait_locked
  | Wait_cv
  | Left

datatype stop_place = No_thread | Stop_lock | Stop_locked | Joining | Closing | Ended

datatype owner = Caller nat | Stopper

record lifecycle =
  life_stat :: service_stat
  worker_count :: nat
  service_mutex :: "owner option"
  stop_thread :: stop_place
  io_stopped :: bool
  channels_closed :: bool
  at :: "nat \<Rightarrow> place"
  waited :: "nat set"

definition lifecycle_new :: "nat \<Rightarrow> lifecycle" where
  "lifecycle_new n =
     \<lparr>life_stat = SERVICE_CREATED, worker_count = n, service_mutex = None, stop_thread = No_thread, io_stopped = False,
       channels_closed = False, at = (\<lambda>t. if t = 0 then Running else Unstarted), waited = {}\<rparr>"

definition go :: "nat \<Rightarrow> place \<Rightarrow> lifecycle \<Rightarrow> lifecycle" where
  "go t p s = s\<lparr>at := (at s)(t := p)\<rparr>"

definition take_mutex :: "owner \<Rightarrow> lifecycle \<Rightarrow> lifecycle" where
  "take_mutex w s = s\<lparr>service_mutex := Some w\<rparr>"

definition release_mutex :: "lifecycle \<Rightarrow> lifecycle" where
  "release_mutex s = s\<lparr>service_mutex := None\<rparr>"

section \<open>Steps\<close>

text \<open>\<open>start\<close> of the services, with the mutex held from its beginning to its end, and \<open>start\<close> of their base class,
  which creates the workers.\<close>

definition base_start :: "lifecycle \<Rightarrow> lifecycle" where
  "base_start s =
     s\<lparr>life_stat := SERVICE_RUNNING, at := (\<lambda>t. if t \<in> {1..worker_count s} then Polling else at s t)\<rparr>"

definition start_service :: "lifecycle \<Rightarrow> lifecycle" where
  "start_service s = (if life_stat s = SERVICE_CREATED then base_start s else s)"

text \<open>What \<open>request_stop\<close> and \<open>wait_stop\<close> do once they hold the mutex.\<close>

definition request_stop_locked :: "nat \<Rightarrow> lifecycle \<Rightarrow> lifecycle" where
  "request_stop_locked t s =
     (let s = (if life_stat s = SERVICE_RUNNING \<and> stop_thread s = No_thread
               then s\<lparr>life_stat := SERVICE_REQ_STOP, stop_thread := Stop_lock\<rparr> else s)
      in release_mutex (go t Running s))"

definition wait_stop_locked :: "nat \<Rightarrow> lifecycle \<Rightarrow> lifecycle" where
  "wait_stop_locked t s =
     (if life_stat s = SERVICE_RUNNING \<or> life_stat s = SERVICE_REQ_STOP then release_mutex (go t Wait_cv s)
      else release_mutex (go t Running s))"

definition wake :: "nat \<Rightarrow> lifecycle \<Rightarrow> lifecycle" where
  "wake t s = (if life_stat s = SERVICE_STOPPED then (go t Running s)\<lparr>waited := insert t (waited s)\<rparr> else s)"

text \<open>The thread of \<open>request_stop\<close> and \<open>stop\<close>: take the mutex; set the state and stop the \<open>io_service\<close>; join the workers;
  close the channels, notify and release the mutex.\<close>

definition begin_stop :: "lifecycle \<Rightarrow> lifecycle" where
  "begin_stop s = s\<lparr>life_stat := SERVICE_STOPPED, io_stopped := True, stop_thread := Joining\<rparr>"

definition joinable :: "lifecycle \<Rightarrow> bool" where
  "joinable s \<longleftrightarrow> (\<forall>t \<in> {1..worker_count s}. at s t = Left)"

definition close_channels :: "lifecycle \<Rightarrow> lifecycle" where
  "close_channels s = release_mutex (s\<lparr>channels_closed := True, stop_thread := Ended\<rparr>)"

inductive life_step :: "lifecycle \<Rightarrow> lifecycle \<Rightarrow> bool" where
  start: "at s t = Running \<Longrightarrow> service_mutex s = None \<Longrightarrow> life_step s (start_service s)"
| poll: "at s t = Polling \<Longrightarrow> \<not> io_stopped s \<Longrightarrow> life_step s (go t Running s)"
| handled: "at s t = Running \<Longrightarrow> 0 < t \<Longrightarrow> life_step s (go t Polling s)"
| leave: "at s t = Polling \<Longrightarrow> io_stopped s \<Longrightarrow> life_step s (go t Left s)"
| ask: "at s t = Running \<Longrightarrow> life_step s (go t Ask_lock s)"
| ask_lock: "at s t = Ask_lock \<Longrightarrow> service_mutex s = None \<Longrightarrow> life_step s (take_mutex (Caller t) (go t Ask_locked s))"
| asked: "at s t = Ask_locked \<Longrightarrow> life_step s (request_stop_locked t s)"
| wait: "at s t = Running \<Longrightarrow> life_step s (go t Wait_lock s)"
| wait_lock: "at s t = Wait_lock \<Longrightarrow> service_mutex s = None \<Longrightarrow> life_step s (take_mutex (Caller t) (go t Wait_locked s))"
| wait_locked: "at s t = Wait_locked \<Longrightarrow> life_step s (wait_stop_locked t s)"
| wake: "at s t = Wait_cv \<Longrightarrow> service_mutex s = None \<Longrightarrow> life_step s (wake t s)"
| stop_lock: "stop_thread s = Stop_lock \<Longrightarrow> service_mutex s = None \<Longrightarrow>
    life_step s (take_mutex Stopper (s\<lparr>stop_thread := Stop_locked\<rparr>))"
| begin_stop: "stop_thread s = Stop_locked \<Longrightarrow> life_step s (begin_stop s)"
| join: "stop_thread s = Joining \<Longrightarrow> joinable s \<Longrightarrow> life_step s (s\<lparr>stop_thread := Closing\<rparr>)"
| close: "stop_thread s = Closing \<Longrightarrow> life_step s (close_channels s)"

inductive_cases life_stepE: "life_step s s'"

inductive life_reachable :: "lifecycle \<Rightarrow> bool" where
  life_new: "life_reachable (lifecycle_new n)"
| life_go: "life_reachable s \<Longrightarrow> life_step s s' \<Longrightarrow> life_reachable s'"

lemmas life_defs = go_def take_mutex_def release_mutex_def base_start_def start_service_def
  request_stop_locked_def wait_stop_locked_def wake_def begin_stop_def joinable_def close_channels_def Let_def

section \<open>The invariant\<close>

text \<open>Who holds the mutex is where it is held; the workers are there once the service has started; and how far the
  stop has come.\<close>

definition holds :: "place \<Rightarrow> bool" where
  "holds p \<longleftrightarrow> p = Ask_locked \<or> p = Wait_locked"

definition mutex_inv :: "lifecycle \<Rightarrow> bool" where
  "mutex_inv s \<longleftrightarrow>
     (\<forall>u. holds (at s u) = (service_mutex s = Some (Caller u))) \<and>
     (stop_thread s \<in> {Stop_locked, Joining, Closing}) = (service_mutex s = Some Stopper)"

definition workers_inv :: "lifecycle \<Rightarrow> bool" where
  "workers_inv s \<longleftrightarrow>
     (\<forall>u > worker_count s. at s u = Unstarted) \<and>
     (\<forall>u \<in> {1..worker_count s}. (at s u = Unstarted) = (life_stat s = SERVICE_CREATED)) \<and>
     at s 0 \<notin> {Unstarted, Polling, Left}"

definition stop_inv :: "lifecycle \<Rightarrow> bool" where
  "stop_inv s \<longleftrightarrow>
     (case stop_thread s of
        No_thread \<Rightarrow> life_stat s \<in> {SERVICE_CREATED, SERVICE_RUNNING}
      | Stop_lock \<Rightarrow> life_stat s = SERVICE_REQ_STOP
      | Stop_locked \<Rightarrow> life_stat s = SERVICE_REQ_STOP
      | Joining \<Rightarrow> life_stat s = SERVICE_STOPPED
      | Closing \<Rightarrow> life_stat s = SERVICE_STOPPED \<and> joinable s
      | Ended \<Rightarrow> life_stat s = SERVICE_STOPPED \<and> joinable s) \<and>
     (io_stopped s \<longleftrightarrow> life_stat s = SERVICE_STOPPED) \<and>
     (channels_closed s \<longleftrightarrow> stop_thread s = Ended) \<and>
     (waited s \<noteq> {} \<longrightarrow> stop_thread s = Ended)"

definition life_inv :: "lifecycle \<Rightarrow> bool" where
  "life_inv s \<longleftrightarrow> mutex_inv s \<and> workers_inv s \<and> stop_inv s"

lemmas life_inv_defs = life_inv_def mutex_inv_def workers_inv_def stop_inv_def holds_def joinable_def

lemma life_inv_new: "life_inv (lifecycle_new n)"
  by (auto simp: life_inv_defs lifecycle_new_def)

text \<open>The transitions move one thread, and some take or release the mutex on the way.\<close>

lemma holder: "mutex_inv s \<Longrightarrow> holds (at s t) \<Longrightarrow> service_mutex s = Some (Caller t)"
  unfolding mutex_inv_def by blast

lemma mutex_inv_go: "mutex_inv s \<Longrightarrow> holds (at s t) = holds p \<Longrightarrow> mutex_inv (go t p s)"
  by (simp add: mutex_inv_def go_def)

lemma mutex_inv_take:
  "mutex_inv s \<Longrightarrow> service_mutex s = None \<Longrightarrow> holds p \<Longrightarrow> mutex_inv (take_mutex (Caller t) (go t p s))"
  by (auto simp: mutex_inv_def go_def take_mutex_def)

lemma mutex_inv_release:
  assumes "mutex_inv s" "holds (at s t)" "\<not> holds p"
  shows "mutex_inv (release_mutex (go t p s))"
proof -
  have "service_mutex s = Some (Caller t)"
    using assms by (simp add: holder)
  with assms show ?thesis
    by (auto simp: mutex_inv_def go_def release_mutex_def)
qed

lemma mutex_inv_fields:
  "mutex_inv s \<Longrightarrow> at s' = at s \<Longrightarrow> service_mutex s' = service_mutex s \<Longrightarrow>
   (stop_thread s' \<in> {Stop_locked, Joining, Closing}) = (stop_thread s \<in> {Stop_locked, Joining, Closing}) \<Longrightarrow>
   mutex_inv s'"
  by (simp add: mutex_inv_def)

lemma workers_inv_go:
  "workers_inv s \<Longrightarrow> at s t \<noteq> Unstarted \<Longrightarrow> p \<noteq> Unstarted \<Longrightarrow> 0 < t \<or> p \<noteq> Polling \<and> p \<noteq> Left \<Longrightarrow>
   workers_inv (go t p s)"
  by (auto simp: workers_inv_def go_def)

lemma workers_inv_fields:
  "workers_inv s \<Longrightarrow> at s' = at s \<Longrightarrow> worker_count s' = worker_count s \<Longrightarrow>
   (life_stat s' = SERVICE_CREATED) = (life_stat s = SERVICE_CREATED) \<Longrightarrow> workers_inv s'"
  by (simp add: workers_inv_def)

lemma stop_inv_go:
  assumes "stop_inv s" "at s t \<noteq> Left"
  shows "stop_inv (go t p s)"
proof -
  have "joinable s \<Longrightarrow> joinable (go t p s)"
    using assms(2) by (auto simp: joinable_def go_def)
  with assms(1) show ?thesis
    by (auto simp: stop_inv_def go_def split: stop_place.splits)
qed

lemma stop_inv_fields:
  "stop_inv s \<Longrightarrow> at s' = at s \<Longrightarrow> worker_count s' = worker_count s \<Longrightarrow> life_stat s' = life_stat s \<Longrightarrow>
   stop_thread s' = stop_thread s \<Longrightarrow> io_stopped s' = io_stopped s \<Longrightarrow> channels_closed s' = channels_closed s \<Longrightarrow>
   waited s' = waited s \<Longrightarrow> stop_inv s'"
  by (simp add: stop_inv_def joinable_def split: stop_place.splits)

text \<open>Each kind of step keeps the invariant.\<close>

lemma life_inv_go:
  "life_inv s \<Longrightarrow> holds (at s t) = holds p \<Longrightarrow> at s t \<noteq> Unstarted \<Longrightarrow> at s t \<noteq> Left \<Longrightarrow> p \<noteq> Unstarted \<Longrightarrow>
   0 < t \<or> p \<noteq> Polling \<and> p \<noteq> Left \<Longrightarrow> life_inv (go t p s)"
  by (simp add: life_inv_def mutex_inv_go workers_inv_go stop_inv_go)

lemma life_inv_take:
  assumes "life_inv s" "service_mutex s = None" "holds p" "at s t \<noteq> Unstarted" "at s t \<noteq> Left"
  shows "life_inv (take_mutex (Caller t) (go t p s))"
proof -
  have "p \<noteq> Unstarted" "p \<noteq> Polling" "p \<noteq> Left"
    using assms(3) by (auto simp: holds_def)
  then have "workers_inv (go t p s)" "stop_inv (go t p s)"
    using assms by (auto simp: life_inv_def intro: workers_inv_go stop_inv_go)
  then have "workers_inv (take_mutex (Caller t) (go t p s))" "stop_inv (take_mutex (Caller t) (go t p s))"
    by (auto simp: take_mutex_def elim: workers_inv_fields stop_inv_fields)
  then show ?thesis
    using assms by (simp add: life_inv_def mutex_inv_take)
qed

lemma life_inv_release:
  assumes "life_inv s" "holds (at s t)" "\<not> holds p" "p \<notin> {Unstarted, Polling, Left}"
  shows "life_inv (release_mutex (go t p s))"
proof -
  have "at s t \<noteq> Unstarted" "at s t \<noteq> Left"
    using assms(2) by (auto simp: holds_def)
  then have "workers_inv (go t p s)" "stop_inv (go t p s)"
    using assms by (auto simp: life_inv_def intro: workers_inv_go stop_inv_go)
  then have "workers_inv (release_mutex (go t p s))" "stop_inv (release_mutex (go t p s))"
    by (auto simp: release_mutex_def elim: workers_inv_fields stop_inv_fields)
  then show ?thesis
    using assms by (simp add: life_inv_def mutex_inv_release)
qed

lemma life_inv_start:
  assumes "life_inv s" "service_mutex s = None"
  shows "life_inv (start_service s)"
proof (cases "life_stat s = SERVICE_CREATED")
  case True
  with assms(1) have "stop_thread s = No_thread"
    by (auto simp: life_inv_def stop_inv_def split: stop_place.splits)
  moreover have "\<forall>u \<in> {1..worker_count s}. \<not> holds (at s u)"
    using assms by (auto simp: life_inv_def mutex_inv_def)
  ultimately show ?thesis
    using assms True
    by (auto simp: start_service_def base_start_def life_inv_def mutex_inv_def workers_inv_def stop_inv_def holds_def)
next
  case False
  with assms show ?thesis
    by (simp add: start_service_def)
qed

lemma life_inv_asked:
  assumes "life_inv s" "at s t = Ask_locked"
  shows "life_inv (request_stop_locked t s)"
proof -
  define s1 where "s1 = (if life_stat s = SERVICE_RUNNING \<and> stop_thread s = No_thread
    then s\<lparr>life_stat := SERVICE_REQ_STOP, stop_thread := Stop_lock\<rparr> else s)"
  have "life_inv s1"
    using assms(1)
    by (auto simp: s1_def life_inv_def stop_inv_def elim: mutex_inv_fields workers_inv_fields split: stop_place.splits)
  moreover have "at s1 t = Ask_locked"
    using assms(2) by (simp add: s1_def)
  ultimately show ?thesis
    by (simp add: request_stop_locked_def s1_def[symmetric] Let_def life_inv_release holds_def)
qed

lemma life_inv_wait_locked: "life_inv s \<Longrightarrow> at s t = Wait_locked \<Longrightarrow> life_inv (wait_stop_locked t s)"
  by (simp add: wait_stop_locked_def life_inv_release holds_def)

lemma life_inv_wake:
  assumes "life_inv s" "at s t = Wait_cv" "service_mutex s = None"
  shows "life_inv (wake t s)"
proof (cases "life_stat s = SERVICE_STOPPED")
  case True
  have g: "life_inv (go t Running s)"
    using assms by (simp add: life_inv_go holds_def)
  have "stop_thread s = Ended"
    using assms True by (auto simp: life_inv_def stop_inv_def mutex_inv_def split: stop_place.splits)
  with True g show ?thesis
    by (auto simp: wake_def life_inv_def stop_inv_def joinable_def go_def
        elim: mutex_inv_fields workers_inv_fields)
qed (use assms in \<open>simp add: wake_def\<close>)

lemma life_inv_stop_lock:
  "life_inv s \<Longrightarrow> stop_thread s = Stop_lock \<Longrightarrow> service_mutex s = None \<Longrightarrow>
   life_inv (take_mutex Stopper (s\<lparr>stop_thread := Stop_locked\<rparr>))"
  by (auto simp: take_mutex_def life_inv_def mutex_inv_def workers_inv_def stop_inv_def)

lemma life_inv_begin_stop: "life_inv s \<Longrightarrow> stop_thread s = Stop_locked \<Longrightarrow> life_inv (begin_stop s)"
  by (auto simp: begin_stop_def life_inv_def mutex_inv_def workers_inv_def stop_inv_def)

lemma life_inv_join:
  "life_inv s \<Longrightarrow> stop_thread s = Joining \<Longrightarrow> joinable s \<Longrightarrow> life_inv (s\<lparr>stop_thread := Closing\<rparr>)"
  by (auto simp: joinable_def life_inv_def mutex_inv_def workers_inv_def stop_inv_def)

lemma life_inv_close: "life_inv s \<Longrightarrow> stop_thread s = Closing \<Longrightarrow> life_inv (close_channels s)"
  by (auto simp: close_channels_def release_mutex_def joinable_def life_inv_def mutex_inv_def workers_inv_def
      stop_inv_def)

lemma life_inv_step: "life_step s s' \<Longrightarrow> life_inv s \<Longrightarrow> life_inv s'"
proof (induction rule: life_step.induct)
  case (start s t)
  then show ?case
    by (simp add: life_inv_start)
next
  case (wake s t)
  then show ?case
    by (simp add: life_inv_wake)
next
  case (leave s t)
  then have "0 < t"
    by (cases t) (auto simp: life_inv_def workers_inv_def)
  with leave show ?case
    by (simp add: life_inv_go holds_def)
qed (simp_all add: life_inv_go life_inv_take life_inv_asked life_inv_wait_locked life_inv_stop_lock
      life_inv_begin_stop life_inv_join life_inv_close holds_def)

interpretation life_machine: invariant_machine life_step life_inv "\<lambda>s. \<exists>n. s = lifecycle_new n" life_reachable
proof
  show "Q s" if "life_reachable s" "\<And>r. \<exists>n. r = lifecycle_new n \<Longrightarrow> Q r" "\<And>r t. Q r \<Longrightarrow> life_step r t \<Longrightarrow> Q t" for Q s
    using that by (induction rule: life_reachable.induct) blast+
qed (auto simp: life_inv_new intro: life_inv_step)

lemma life_inv_reachable: "life_reachable s \<Longrightarrow> life_inv s"
  by (rule life_machine.always)

section \<open>Returning from \<open>wait_stop\<close>\<close>

text \<open>C29: Whoever has come back from waiting in \<open>wait_stop\<close> finds the service stopped, its channels closed and its
  workers ended; so it was not a worker.\<close>

theorem wait_stop_sound:
  assumes "life_reachable s" "t \<in> waited s"
  shows "life_stat s = SERVICE_STOPPED \<and> channels_closed s \<and> (\<forall>u \<in> {1..worker_count s}. at s u = Left)"
proof -
  have "life_inv s"
    using assms(1) by (rule life_inv_reachable)
  then show ?thesis
    using assms(2) by (auto simp: life_inv_def stop_inv_def joinable_def)
qed

section \<open>Coming to the end of a stop\<close>

lemma steps_leave:
  "stop_thread s = Joining \<Longrightarrow> io_stopped s \<Longrightarrow> at s t \<in> {Polling, Running, Left} \<Longrightarrow> 0 < t \<Longrightarrow>
   life_step\<^sup>*\<^sup>* s (go t Left s)"
proof -
  assume s: "stop_thread s = Joining" "io_stopped s" "at s t \<in> {Polling, Running, Left}" "0 < t"
  have leave: "at r t = Polling \<Longrightarrow> io_stopped r \<Longrightarrow> life_step\<^sup>*\<^sup>* r (go t Left r)" for r
    by (rule r_into_rtranclp) (rule life_step.leave)
  consider "at s t = Polling" | "at s t = Running" | "at s t = Left"
    using s(3) by auto
  then show ?thesis
  proof cases
    case 1
    with s show ?thesis
      by (simp add: leave)
  next
    case 2
    then have "life_step s (go t Polling s)"
      using s(4) by (rule handled)
    also have "life_step\<^sup>*\<^sup>* (go t Polling s) (go t Left (go t Polling s))"
      by (rule leave) (use s in \<open>simp_all add: go_def\<close>)
    finally show ?thesis
      by (simp add: go_def)
  next
    case 3
    then have "go t Left s = s"
      by (simp add: go_def fun_upd_idem)
    then show ?thesis
      by simp
  qed
qed

lemma steps_leave_all:
  assumes "stop_thread s = Joining" "io_stopped s" "\<forall>t \<in> {1..n}. at s t \<in> {Polling, Running, Left}"
  shows "life_step\<^sup>*\<^sup>* s (s\<lparr>at := (\<lambda>t. if t \<in> {1..n} then Left else at s t)\<rparr>)"
  using assms(3)
proof (induction n)
  case 0
  then show ?case
    by simp
next
  case (Suc n)
  define r where "r = s\<lparr>at := (\<lambda>t. if t \<in> {1..n} then Left else at s t)\<rparr>"
  have "life_step\<^sup>*\<^sup>* s r"
    using Suc by (simp add: r_def)
  also have "life_step\<^sup>*\<^sup>* r (go (Suc n) Left r)"
    using assms Suc.prems by (intro steps_leave) (auto simp: r_def)
  also have "go (Suc n) Left r = s\<lparr>at := (\<lambda>t. if t \<in> {1..Suc n} then Left else at s t)\<rparr>"
    by (auto simp: r_def go_def le_Suc_eq intro!: ext arg_cong[where f = "\<lambda>f. s\<lparr>at := f\<rparr>"])
  finally show ?case .
qed

lemma stop_reaches_end:
  assumes "stop_thread s = Joining" "io_stopped s" "\<forall>t \<in> {1..worker_count s}. at s t \<in> {Polling, Running, Left}"
  shows "\<exists>s'. life_step\<^sup>*\<^sup>* s s' \<and> stop_thread s' = Ended"
proof -
  define r where "r = s\<lparr>at := (\<lambda>t. if t \<in> {1..worker_count s} then Left else at s t)\<rparr>"
  have "life_step\<^sup>*\<^sup>* s r"
    using assms unfolding r_def by (rule steps_leave_all)
  also have "life_step r (r\<lparr>stop_thread := Closing\<rparr>)"
    by (rule join) (use assms in \<open>simp_all add: r_def joinable_def\<close>)
  also have "life_step (r\<lparr>stop_thread := Closing\<rparr>) (close_channels (r\<lparr>stop_thread := Closing\<rparr>))"
    by (rule close) simp
  finally have "life_step\<^sup>*\<^sup>* s (close_channels (r\<lparr>stop_thread := Closing\<rparr>))" .
  moreover have "stop_thread (close_channels (r\<lparr>stop_thread := Closing\<rparr>)) = Ended"
    by (simp add: close_channels_def release_mutex_def)
  ultimately show ?thesis
    by blast
qed

text \<open>A worker that waits for the mutex or for the condition variable while the workers are joined stays there.\<close>

definition stop_blocked :: "nat \<Rightarrow> lifecycle \<Rightarrow> bool" where
  "stop_blocked t s \<longleftrightarrow>
     life_inv s \<and> stop_thread s = Joining \<and> t \<in> {1..worker_count s} \<and> at s t \<in> {Ask_lock, Wait_lock, Wait_cv}"

lemma joining_mutex: "life_inv s \<Longrightarrow> stop_thread s = Joining \<Longrightarrow> service_mutex s = Some Stopper"
  by (auto simp: life_inv_def mutex_inv_def)

lemma joining_not_held: "life_inv s \<Longrightarrow> stop_thread s = Joining \<Longrightarrow> \<not> holds (at s t)"
  using holder[of s t] joining_mutex[of s] by (auto simp: life_inv_def)

lemma stop_blocked_step:
  assumes "life_step s s'" "stop_blocked t s"
  shows "stop_blocked t s'"
proof -
  have inv: "life_inv s" "life_inv s'"
    using assms life_inv_step by (auto simp: stop_blocked_def)
  have m: "service_mutex s = Some Stopper" and h: "\<And>u. at s u \<noteq> Ask_locked" "\<And>u. at s u \<noteq> Wait_locked"
    using assms(2) joining_mutex joining_not_held by (auto simp: stop_blocked_def holds_def)
  have "stop_thread s' = Joining \<and> worker_count s' = worker_count s \<and> at s' t = at s t"
    using assms m h by (cases rule: life_step.cases) (auto simp: stop_blocked_def joinable_def go_def)
  with assms(2) inv show ?thesis
    by (simp add: stop_blocked_def)
qed

interpretation stop_blocked: persistent life_step "stop_blocked t" "\<lambda>_ _. True" for t
  by unfold_locales (auto intro: stop_blocked_step)

text \<open>C30: Once the stop of a service joins the workers, it can come to its end exactly when no worker is inside
  \<open>request_stop\<close> or \<open>wait_stop\<close>; otherwise no further step ever ends it.\<close>

theorem stop_completes_iff:
  assumes "life_reachable s" "stop_thread s = Joining"
  shows "(\<exists>s'. life_step\<^sup>*\<^sup>* s s' \<and> stop_thread s' = Ended) \<longleftrightarrow>
    (\<forall>t \<in> {1..worker_count s}. at s t \<in> {Polling, Running, Left})"
proof -
  have inv: "life_inv s"
    using assms(1) by (rule life_inv_reachable)
  then have io: "io_stopped s" and stat: "life_stat s = SERVICE_STOPPED"
    using assms(2) by (auto simp: life_inv_def stop_inv_def)
  have "at s t \<in> {Polling, Running, Left}"
    if "life_step\<^sup>*\<^sup>* s s'" "stop_thread s' = Ended" "t \<in> {1..worker_count s}" for s' t
  proof -
    have "\<not> stop_blocked t s"
      using stop_blocked.for_ever[OF that(1)] that(2) by (auto simp: stop_blocked_def)
    moreover have "at s t \<noteq> Unstarted"
      using inv stat that(3) by (auto simp: life_inv_def workers_inv_def)
    ultimately show ?thesis
      using joining_not_held[OF inv assms(2), of t] inv assms(2) that(3)
      by (cases "at s t") (auto simp: stop_blocked_def holds_def)
  qed
  then show ?thesis
    using stop_reaches_end[OF assms(2) io] by blast
qed

section \<open>Runs\<close>

text \<open>Two runs with one worker: the application waits while a handler requests the stop; the application requests the
  stop while a handler waits for it.\<close>

lemmas life_runs = life_new life_go[OF _ start[of _ 0]] life_go[OF _ poll] life_go[OF _ handled] life_go[OF _ leave]
  life_go[OF _ ask] life_go[OF _ ask_lock] life_go[OF _ asked] life_go[OF _ wait] life_go[OF _ wait_lock]
  life_go[OF _ wait_locked] life_go[OF _ life_step.wake] life_go[OF _ stop_lock] life_go[OF _ life_step.begin_stop]
  life_go[OF _ join] life_go[OF _ close]

definition asks :: "nat \<Rightarrow> lifecycle \<Rightarrow> lifecycle" where
  "asks t s = request_stop_locked t (take_mutex (Caller t) (go t Ask_locked (go t Ask_lock s)))"

definition waits :: "nat \<Rightarrow> lifecycle \<Rightarrow> lifecycle" where
  "waits t s = wait_stop_locked t (take_mutex (Caller t) (go t Wait_locked (go t Wait_lock s)))"

definition stops :: "lifecycle \<Rightarrow> lifecycle" where
  "stops s = begin_stop (take_mutex Stopper (s\<lparr>stop_thread := Stop_locked\<rparr>))"

definition handler_asks :: lifecycle where
  "handler_asks = asks 1 (go 1 Running (waits 0 (start_service (lifecycle_new 1))))"

definition handler_waits :: lifecycle where
  "handler_waits = asks 0 (waits 1 (go 1 Running (start_service (lifecycle_new 1))))"

lemmas run_defs = handler_asks_def handler_waits_def asks_def waits_def stops_def lifecycle_new_def life_defs

lemma reachable_asks:
  "life_reachable s \<Longrightarrow> at s t = Running \<Longrightarrow> service_mutex s = None \<Longrightarrow> life_reachable (asks t s)"
  unfolding asks_def by (intro life_runs) (simp_all add: life_defs)

lemma reachable_waits:
  "life_reachable s \<Longrightarrow> at s t = Running \<Longrightarrow> service_mutex s = None \<Longrightarrow> life_reachable (waits t s)"
  unfolding waits_def by (intro life_runs) (simp_all add: life_defs)

lemma reachable_stops:
  "life_reachable s \<Longrightarrow> stop_thread s = Stop_lock \<Longrightarrow> service_mutex s = None \<Longrightarrow> life_reachable (stops s)"
  unfolding stops_def by (intro life_runs) (simp_all add: life_defs)

lemma reachable_handler_asks: "life_reachable (stops handler_asks)"
  unfolding handler_asks_def
  by (intro reachable_stops reachable_asks reachable_waits life_runs) (simp_all add: run_defs)

lemma reachable_handler_waits: "life_reachable (stops handler_waits)"
  unfolding handler_waits_def
  by (intro reachable_stops reachable_asks reachable_waits life_runs) (simp_all add: run_defs)

definition waited_run :: lifecycle where
  "waited_run =
     wake 0 (close_channels ((go 1 Left (go 1 Polling (stops handler_asks)))\<lparr>stop_thread := Closing\<rparr>))"

lemma reachable_waited_run: "life_reachable waited_run"
  unfolding waited_run_def
  by (intro life_runs reachable_handler_asks) (simp_all add: run_defs)

theorem wait_stop_sound_witness: "0 \<in> waited waited_run \<and> at waited_run 1 = Left"
  using wait_stop_sound[OF reachable_waited_run, of 0] by (simp add: waited_run_def run_defs)

theorem stop_completes_iff_witness:
  "(\<exists>s'. life_step\<^sup>*\<^sup>* (stops handler_asks) s' \<and> stop_thread s' = Ended) \<and>
   \<not> (\<exists>s'. life_step\<^sup>*\<^sup>* (stops handler_waits) s' \<and> stop_thread s' = Ended)"
  using stop_completes_iff[OF reachable_handler_asks] stop_completes_iff[OF reachable_handler_waits]
  by (simp add: run_defs)

end
