(* ===== verification/Service_Destroy.thy ===== *)
theory Service_Destroy
  imports Service_Stop
begin

text \<open>
  What happens when a service is destroyed: the destructors of the services (\<open>tcp_server_base.h\<close>, \<open>tcp_client_base.h\<close>,
  \<open>udp_service.h\<close>) and then, after the members of the derived class, the destructor of their base class
  (\<open>service_base.h\<close>), under \<open>src/include/shan/net/\<close>.

  The thread of the application runs the destructors; from then on it does nothing else with the service, while the
  workers and the thread of \<open>request_stop\<close> go on as in \<open>Service_Stop\<close>. The derived destructor takes the mutex and stops
  a service that is running itself, in its own thread; the steps of that stop are those of the stop thread. It lets a
  service alone that has been asked to stop already.

  Shown: when the service is gone no worker runs any more; but when the stop had been asked for and was not done, the
  members of the derived class, among them the acceptor that \<open>accept_complete\<close> works on, are gone while handlers run.
\<close>

section \<open>Destruction\<close>

datatype dtor_place = In_use | Dtor_stopping | Members_gone | Gone

record doomed =
  life :: lifecycle
  dtor :: dtor_place

definition doomed_new :: "nat \<Rightarrow> doomed" where
  "doomed_new n = \<lparr>life = lifecycle_new n, dtor = In_use\<rparr>"

text \<open>The derived destructor once it has the mutex: \<open>if (_stat == RUNNING) stop();\<close>.\<close>

definition destroy :: "doomed \<Rightarrow> doomed" where
  "destroy d =
     (if life_stat (life d) = SERVICE_RUNNING
      then d\<lparr>life := begin_stop (take_mutex Stopper (life d)), dtor := Dtor_stopping\<rparr>
      else d\<lparr>dtor := Members_gone\<rparr>)"

text \<open>Steps of the other threads.\<close>

definition others_step :: "lifecycle \<Rightarrow> lifecycle \<Rightarrow> bool" where
  "others_step l l' \<longleftrightarrow> life_step l l' \<and> at l' 0 = at l 0 \<and> (life_stat l = SERVICE_CREATED \<longrightarrow> life_stat l' = SERVICE_CREATED)"

inductive doom_step :: "doomed \<Rightarrow> doomed \<Rightarrow> bool" where
  in_use: "dtor d = In_use \<Longrightarrow> life_step (life d) l \<Longrightarrow> doom_step d (d\<lparr>life := l\<rparr>)"
| others: "dtor d \<in> {Dtor_stopping, Members_gone} \<Longrightarrow> others_step (life d) l \<Longrightarrow> doom_step d (d\<lparr>life := l\<rparr>)"
| destroy: "dtor d = In_use \<Longrightarrow> at (life d) 0 = Running \<Longrightarrow> service_mutex (life d) = None \<Longrightarrow> doom_step d (destroy d)"
| stopped: "dtor d = Dtor_stopping \<Longrightarrow> stop_thread (life d) = Ended \<Longrightarrow> doom_step d (d\<lparr>dtor := Members_gone\<rparr>)"
| base: "dtor d = Members_gone \<Longrightarrow> stop_thread (life d) \<in> {No_thread, Ended} \<Longrightarrow> doom_step d (d\<lparr>dtor := Gone\<rparr>)"

inductive doom_reachable :: "doomed \<Rightarrow> bool" where
  doom_new: "doom_reachable (doomed_new n)"
| doom_go: "doom_reachable d \<Longrightarrow> doom_step d d' \<Longrightarrow> doom_reachable d'"

section \<open>The invariant\<close>

definition workers_done :: "lifecycle \<Rightarrow> bool" where
  "workers_done l \<longleftrightarrow> (\<forall>t \<in> {1..worker_count l}. at l t \<in> {Unstarted, Left})"

definition doom_inv :: "doomed \<Rightarrow> bool" where
  "doom_inv d \<longleftrightarrow>
     life_inv (life d) \<and>
     (case dtor d of
        In_use \<Rightarrow> True
      | Dtor_stopping \<Rightarrow> stop_thread (life d) \<in> {Joining, Closing, Ended}
      | Members_gone \<Rightarrow> life_stat (life d) \<noteq> SERVICE_RUNNING
      | Gone \<Rightarrow> workers_done (life d))"

text \<open>A step never takes a stop back, and never brings a service that does not run to running but by \<open>start\<close>.\<close>

lemma stop_goes_on: "life_step l l' \<Longrightarrow> stop_thread l \<in> {Joining, Closing, Ended} \<Longrightarrow> life_inv l \<Longrightarrow>
    stop_thread l' \<in> {Joining, Closing, Ended}"
  by (induction rule: life_step.induct) (auto simp: life_defs)

lemma others_not_running:
  assumes "others_step l l'" and "life_stat l \<noteq> SERVICE_RUNNING"
  shows "life_stat l' \<noteq> SERVICE_RUNNING"
proof -
  have "life_step l l'" and created: "life_stat l = SERVICE_CREATED \<Longrightarrow> life_stat l' = SERVICE_CREATED"
    using assms(1) by (auto simp: others_step_def)
  from this(1) have "life_stat l' = SERVICE_RUNNING \<Longrightarrow> life_stat l \<in> {SERVICE_CREATED, SERVICE_RUNNING}"
    by (induction rule: life_step.induct) (auto simp: life_defs split: if_splits)
  with assms(2) created show ?thesis by auto
qed

lemma done_when_stopped: "life_inv l \<Longrightarrow> stop_thread l \<in> {Closing, Ended} \<Longrightarrow> workers_done l"
  by (auto simp: life_inv_def stop_inv_def joinable_def workers_done_def)

lemma done_before_start: "life_inv l \<Longrightarrow> life_stat l = SERVICE_CREATED \<Longrightarrow> workers_done l"
  by (auto simp: life_inv_def workers_inv_def workers_done_def)

lemma destroy_inv:
  assumes "life_inv (life d)" and "service_mutex (life d) = None"
  shows "doom_inv (destroy d)"
proof (cases "life_stat (life d) = SERVICE_RUNNING")
  case True
  then have "stop_thread (life d) = No_thread"
    using assms(1) by (auto simp: life_inv_def stop_inv_def split: stop_place.splits)
  then have "life_inv (begin_stop (take_mutex Stopper (life d)))"
    using assms True
    by (auto simp: begin_stop_def take_mutex_def life_inv_def mutex_inv_def workers_inv_def stop_inv_def)
  with True show ?thesis
    by (simp add: doom_inv_def destroy_def begin_stop_def take_mutex_def)
qed (use assms in \<open>simp add: doom_inv_def destroy_def\<close>)

lemma doom_inv_step: "doom_step d d' \<Longrightarrow> doom_inv d \<Longrightarrow> doom_inv d'"
proof (induction rule: doom_step.induct)
  case (in_use d l)
  then show ?case using life_inv_step by (simp add: doom_inv_def)
next
  case (others d l)
  then have "life_inv l" and step: "life_step (life d) l"
    using life_inv_step by (auto simp: doom_inv_def others_step_def)
  then show ?case
    using others stop_goes_on [OF step] others_not_running [OF others(2)] by (auto simp: doom_inv_def)
next
  case (destroy d)
  then have "life_inv (life d)" by (simp add: doom_inv_def)
  then show ?case using destroy(3) by (rule destroy_inv)
next
  case (stopped d)
  then show ?case by (auto simp: doom_inv_def life_inv_def stop_inv_def)
next
  case (base d)
  then have inv: "life_inv (life d)" and stat: "life_stat (life d) \<noteq> SERVICE_RUNNING" by (auto simp: doom_inv_def)
  have "stop_thread (life d) = No_thread \<Longrightarrow> life_stat (life d) = SERVICE_CREATED"
    using inv stat by (auto simp: life_inv_def stop_inv_def)
  then have "workers_done (life d)"
    using base(2) done_before_start [OF inv] done_when_stopped [OF inv] by auto
  with inv show ?case by (simp add: doom_inv_def)
qed

interpretation doom_machine: invariant_machine doom_step doom_inv "\<lambda>d. \<exists>n. d = doomed_new n" doom_reachable
proof
  show "Q d" if "doom_reachable d" "\<And>r. \<exists>n. r = doomed_new n \<Longrightarrow> Q r" "\<And>r t. Q r \<Longrightarrow> doom_step r t \<Longrightarrow> Q t" for Q d
    using that by (induction rule: doom_reachable.induct) blast+
  show "doom_inv d" if "\<exists>n. d = doomed_new n" for d
    using that by (auto simp: doomed_new_def doom_inv_def life_inv_new)
qed (auto intro: doom_inv_step)

section \<open>Properties\<close>

text \<open>C31: When a service has been destroyed every worker has ended or was never started. When only the derived part
  is gone this holds as well, unless a stop had been asked for before and is still to be done.\<close>

theorem destroyed_service:
  assumes "doom_reachable d" and "dtor d \<in> {Members_gone, Gone}"
  shows "(\<forall>t \<in> {1..worker_count (life d)}. at (life d) t \<in> {Unstarted, Left}) \<or>
    dtor d = Members_gone \<and> stop_thread (life d) \<in> {Stop_lock, Stop_locked, Joining}"
proof (cases "dtor d = Gone")
  case True
  then show ?thesis
    using doom_machine.always [OF assms(1)] by (simp add: doom_inv_def workers_done_def)
next
  case False
  then have gone: "dtor d = Members_gone" using assms(2) by simp
  then have inv: "life_inv (life d)" and "life_stat (life d) \<noteq> SERVICE_RUNNING"
    using doom_machine.always [OF assms(1)] by (auto simp: doom_inv_def)
  then have "stop_thread (life d) = No_thread \<Longrightarrow> life_stat (life d) = SERVICE_CREATED"
    by (auto simp: life_inv_def stop_inv_def)
  then have "workers_done (life d) \<or> stop_thread (life d) \<in> {Stop_lock, Stop_locked, Joining}"
    using done_before_start [OF inv] done_when_stopped [OF inv] by (cases "stop_thread (life d)") auto
  with gone show ?thesis by (simp add: workers_done_def)
qed

text \<open>A service that is destroyed while it runs, and stops on its own.\<close>

lemma used_reachable: "life_reachable l \<Longrightarrow> doom_reachable \<lparr>life = l, dtor = In_use\<rparr>"
proof (induction rule: life_reachable.induct)
  case (life_new n)
  then show ?case using doom_new [of n] by (simp add: doomed_new_def)
next
  case (life_go s s')
  then show ?case using doom_go [OF _ in_use [of "\<lparr>life = s, dtor = In_use\<rparr>" s']] by simp
qed

definition asked_and_destroyed :: doomed where
  "asked_and_destroyed = destroy \<lparr>life = asks 1 (go 1 Running (start_service (lifecycle_new 1))), dtor = In_use\<rparr>"

lemma asked_and_destroyed_reachable: "doom_reachable asked_and_destroyed"
proof -
  have "life_reachable (asks 1 (go 1 Running (start_service (lifecycle_new 1))))"
    by (intro reachable_asks life_runs) (simp_all add: run_defs)
  from used_reachable [OF this] show ?thesis
    unfolding asked_and_destroyed_def by (rule doom_go) (rule doom_step.destroy, simp_all add: run_defs)
qed

theorem destroyed_service_witness:
  "at (life asked_and_destroyed) 1 = Running \<and> stop_thread (life asked_and_destroyed) \<in> {Stop_lock, Stop_locked, Joining}"
  using destroyed_service [OF asked_and_destroyed_reachable]
  by (simp add: asked_and_destroyed_def destroy_def run_defs)

end
