(* ===== verification/Read_Path.thy ===== *)
theory Read_Path
  imports Streambuf
begin

text \<open>
  The bytes of a channel on their way to the handlers: \<open>read\<close> of the channels (\<open>tcp_channel.h\<close>, \<open>ssl_channel.h\<close>) gives
  asio room in the read buffer of the context, \<open>call_channel_read\<close> (\<open>tcp_channel_context_base.h\<close>) commits what has
  arrived, and handlers read from the buffer, mark a position and go back to it. \<open>Channel_Context\<close> keeps of all this
  the number of unread bytes only; here the buffer is the one of \<open>Streambuf\<close>.

  \<open>arrived\<close>, \<open>cursor\<close> and \<open>marked\<close> are records and not part of the program: the bytes that came, how many of them the
  handlers have behind them, and where they were at the last mark. Shown: through all moving, growing and shrinking
  of the buffer, and with handlers that run while a read is outstanding, the handlers see the stream of the peer.
\<close>

section \<open>The path\<close>

record read_path =
  rbuf :: streambuf
  pending :: "nat option"
  arrived :: "u8 list"
  cursor :: nat
  marked :: nat

definition read_path_new :: "nat \<Rightarrow> read_path" where
  "read_path_new buffer_base_size =
     \<lparr>rbuf = streambuf_new buffer_base_size, pending = None, arrived = [], cursor = 0, marked = 0\<rparr>"

text \<open>\<open>pending\<close> is the pointer that the outstanding \<open>async_read_some\<close> writes to.\<close>

definition read_some :: "read_path \<Rightarrow> read_path result" where
  "read_some s =
     bind_result (prepare (base_size (rbuf s)) (rbuf s)) (\<lambda>(p, sb). Inr (s\<lparr>rbuf := sb, pending := Some p\<rparr>))"

definition bytes_arrive :: "u8 list \<Rightarrow> read_path \<Rightarrow> read_path result" where
  "bytes_arrive bs s =
     (case pending s of
        None \<Rightarrow> Inr s
      | Some p \<Rightarrow>
          bind_result (store p bs (rbuf s)) (\<lambda>sb.
          bind_result (commit (length bs) sb) (\<lambda>sb.
            Inr (s\<lparr>rbuf := sb, pending := None, arrived := arrived s @ bs\<rparr>))))"

definition handler_reads :: "nat \<Rightarrow> read_path \<Rightarrow> read_path result" where
  "handler_reads n s =
     bind_result (read n (rbuf s)) (\<lambda>(bs, sb). Inr (s\<lparr>rbuf := sb, cursor := cursor s + length bs\<rparr>))"

definition handler_marks :: "read_path \<Rightarrow> read_path" where
  "handler_marks s = s\<lparr>rbuf := set_mark (rbuf s), marked := cursor s\<rparr>"

text \<open>Going back does nothing when \<open>reserve\<close> has moved the bytes and dropped the mark.\<close>

definition handler_goes_back :: "read_path \<Rightarrow> read_path" where
  "handler_goes_back s =
     s\<lparr>rbuf := reset (rbuf s), cursor := (if mark (rbuf s) = None then cursor s else marked s)\<rparr>"

datatype path_call = Read_some | Arrive "u8 list" | Use nat | Mark | Go_back

fun path_exec :: "path_call \<Rightarrow> read_path \<Rightarrow> read_path result" where
  "path_exec Read_some s = read_some s"
| "path_exec (Arrive bs) s = bytes_arrive bs s"
| "path_exec (Use n) s = handler_reads n s"
| "path_exec Mark s = Inr (handler_marks s)"
| "path_exec Go_back s = Inr (handler_goes_back s)"

fun path_run :: "path_call list \<Rightarrow> read_path \<Rightarrow> read_path result" where
  "path_run [] s = Inr s"
| "path_run (c # cs) s = bind_result (path_exec c s) (path_run cs)"

text \<open>One read is outstanding at a time, and asio stays within the room it was given.\<close>

fun well_ordered :: "nat \<Rightarrow> bool \<Rightarrow> path_call list \<Rightarrow> bool" where
  "well_ordered room outstanding [] = True"
| "well_ordered room outstanding (Read_some # cs) = (\<not> outstanding \<and> well_ordered room True cs)"
| "well_ordered room outstanding (Arrive bs # cs) =
     (outstanding \<and> length bs \<le> room \<and> well_ordered room False cs)"
| "well_ordered room outstanding (c # cs) = well_ordered room outstanding cs"

fun stream_of :: "path_call list \<Rightarrow> u8 list" where
  "stream_of [] = []"
| "stream_of (Arrive bs # cs) = bs @ stream_of cs"
| "stream_of (c # cs) = stream_of cs"

section \<open>The invariant\<close>

text \<open>The bytes from a position of the buffer to its put position.\<close>

definition window :: "nat \<Rightarrow> streambuf \<Rightarrow> u8 list" where
  "window g sb = take (pnext sb - g) (drop g (buffer sb))"

lemma window_content: "window (gnext sb) sb = content sb"
  by (simp add: window_def content_def)

definition path_inv :: "nat \<Rightarrow> read_path \<Rightarrow> bool" where
  "path_inv room s \<longleftrightarrow>
     sb_inv (rbuf s) \<and> base_size (rbuf s) = room \<and>
     (case pending s of
        None \<Rightarrow> True
      | Some p \<Rightarrow> p = pnext (rbuf s) \<and> room \<le> pend (rbuf s) - pnext (rbuf s)) \<and>
     cursor s \<le> length (arrived s) \<and> content (rbuf s) = drop (cursor s) (arrived s) \<and>
     (case mark (rbuf s) of
        None \<Rightarrow> True
      | Some m \<Rightarrow> marked s \<le> length (arrived s) \<and> window m (rbuf s) = drop (marked s) (arrived s))"

lemma path_inv_new:
  assumes "base < 2 ^ 31"
  shows "path_inv (max base min_size) (read_path_new base)"
proof -
  have "base_size (streambuf_new base) = max base min_size" "mark (streambuf_new base) = None"
    by (simp_all add: streambuf_new_def Let_def)
  then show ?thesis
    using streambuf_new_inv [of base] assms by (simp add: path_inv_def read_path_new_def)
qed

lemma reserve_mark:
  assumes "reserve n sb = Inr sb'"
  shows "base_size sb' = base_size sb" and "mark sb' = None \<or> sb' = sb"
  using assms by (auto simp: reserve_def Let_def bind_result_eq_Inr split: if_splits)

lemma read_some_ok:
  assumes inv: "path_inv room s" and size: "length (arrived s) + room < 2 ^ 31"
  shows "\<exists>s'. read_some s = Inr s' \<and> path_inv room s' \<and> arrived s' = arrived s \<and> pending s' \<noteq> None"
proof -
  note i = inv [unfolded path_inv_def]
  have sb: "sb_inv (rbuf s)" and base: "base_size (rbuf s) = room" using i by auto
  have "in_size (rbuf s) = length (arrived s) - cursor s"
    using length_content [OF sb] i by simp
  then have "in_size (rbuf s) + room \<le> 2 ^ 63" using size by simp
  then obtain sb' where sb': "reserve room (rbuf s) = Inr sb'" "sb_inv sb'" "content sb' = content (rbuf s)"
      "room \<le> pend sb' - pnext sb'"
    using reserve_ok [OF sb] by blast
  have "mark sb' = None \<or> sb' = rbuf s" "base_size sb' = room"
    using reserve_mark [OF sb'(1)] base by auto
  then have "path_inv room (s\<lparr>rbuf := sb', pending := Some (pnext sb')\<rparr>)"
    using i sb' by (auto simp: path_inv_def split: option.splits)
  then show ?thesis
    using sb'(1) base by (simp add: read_some_def prepare_def)
qed

lemma bytes_arrive_ok:
  assumes inv: "path_inv room s" and out: "pending s \<noteq> None" and size: "length bs \<le> room" "room < 2 ^ 31"
  shows "\<exists>s'. bytes_arrive bs s = Inr s' \<and> path_inv room s' \<and> arrived s' = arrived s @ bs \<and> pending s' = None"
proof -
  note i = inv [unfolded path_inv_def]
  have sb: "sb_inv (rbuf s)" and p: "pending s = Some (pnext (rbuf s))"
    and fits: "length bs \<le> pend (rbuf s) - pnext (rbuf s)"
    using i out size(1) by (auto split: option.splits)
  note stored = stored_content [OF sb fits]
  define n where "n = pnext (rbuf s) + length bs"
  define sb1 where "sb1 = (rbuf s)\<lparr>buffer := take (pnext (rbuf s)) (buffer (rbuf s)) @ bs @ drop n (buffer (rbuf s))\<rparr>"
  have "\<not> pnext (rbuf s) + length bs > pend (rbuf s)"
    using fits sb_invD(3) [OF sb] by linarith
  then have "commit (length bs) sb1 = Inr (sb1\<lparr>pnext := n, gend := n\<rparr>)"
    using size by (simp add: commit_def beyond_def sb1_def n_def bump_small)
  then have run: "bytes_arrive bs s =
      Inr (s\<lparr>rbuf := sb1\<lparr>pnext := n, gend := n\<rparr>, pending := None, arrived := arrived s @ bs\<rparr>)"
    using store_ok [OF sb fits] by (simp add: bytes_arrive_def p sb1_def n_def)
  have "window m (sb1\<lparr>pnext := n, gend := n\<rparr>) = window m (rbuf s) @ bs" if "m \<le> pnext (rbuf s)" for m
    using that sb_invD [OF sb] fits by (simp add: window_def sb1_def n_def drop_take)
  moreover have "m \<le> pnext (rbuf s)" if "mark (rbuf s) = Some m" for m
    using that sb sb_invD [OF sb] by (simp add: sb_inv_def)
  moreover have "sb_inv (sb1\<lparr>pnext := n, gend := n\<rparr>)" "content (sb1\<lparr>pnext := n, gend := n\<rparr>) = content (rbuf s) @ bs"
    using stored by (simp_all add: sb1_def n_def)
  ultimately show ?thesis
    using i by (simp add: run path_inv_def) (auto simp: sb1_def split: option.splits)
qed

lemma handler_reads_ok:
  assumes inv: "path_inv room s" and size: "length (arrived s) < 2 ^ 31"
  shows "\<exists>s'. handler_reads n s = Inr s' \<and> path_inv room s' \<and> arrived s' = arrived s \<and> pending s' = pending s \<and>
    cursor s' = min (length (arrived s)) (cursor s + n)"
proof -
  note i = inv [unfolded path_inv_def]
  have sb: "sb_inv (rbuf s)" using i by auto
  define k where "k = min (in_size (rbuf s)) n"
  have in_size: "in_size (rbuf s) = length (arrived s) - cursor s"
    using length_content [OF sb] i by simp
  have "k \<le> in_size (rbuf s)" "k < 2 ^ 31"
    using in_size size by (auto simp: k_def)
  then obtain sb' where sb': "read k (rbuf s) = Inr (take k (content (rbuf s)), sb')" "sb_inv sb'"
      "content sb' = drop k (content (rbuf s))" "mark sb' = mark (rbuf s)" "buffer sb' = buffer (rbuf s)"
      "pnext sb' = pnext (rbuf s)"
    using read_ok [OF sb] by blast
  have "read n (rbuf s) = read k (rbuf s)"
    by (simp add: read_def k_def)
  moreover have "base_size sb' = base_size (rbuf s)" "pend sb' = pend (rbuf s)"
    using sb'(1,2,5) sb by (auto simp: read_def consume_def beyond_def sb_inv_def Let_def bind_result_eq_Inr)
  ultimately show ?thesis
    using i sb' in_size
    by (auto simp: handler_reads_def path_inv_def window_def k_def min_def add.commute split: option.splits)
qed

lemma handler_marks_ok: "path_inv room s \<Longrightarrow> path_inv room (handler_marks s)"
  by (auto simp: path_inv_def handler_marks_def set_mark_def sb_inv_def content_def window_def split: option.splits)

lemma handler_goes_back_ok: "path_inv room s \<Longrightarrow> path_inv room (handler_goes_back s)"
  by (auto simp: path_inv_def handler_goes_back_def reset_def sb_inv_def content_def window_def split: option.splits)

lemma path_run_ok:
  assumes "well_ordered room (pending s \<noteq> None) cs" and "path_inv room s"
    and "length (arrived s) + length (stream_of cs) + room < 2 ^ 31"
  shows "\<exists>s'. path_run cs s = Inr s' \<and> path_inv room s' \<and> arrived s' = arrived s @ stream_of cs"
  using assms
proof (induction cs arbitrary: s)
  case Nil
  then show ?case by simp
next
  case (Cons c cs)
  have "\<exists>s1. path_exec c s = Inr s1 \<and> path_inv room s1 \<and> arrived s1 @ stream_of cs = arrived s @ stream_of (c # cs) \<and>
      well_ordered room (pending s1 \<noteq> None) cs"
  proof (cases c)
    case Read_some
    with Cons.prems read_some_ok [of room s] show ?thesis by auto
  next
    case (Arrive bs)
    with Cons.prems bytes_arrive_ok [of room s bs] show ?thesis by auto
  next
    case (Use n)
    with Cons.prems handler_reads_ok [of room s n] show ?thesis by auto
  qed (use Cons.prems handler_marks_ok handler_goes_back_ok in \<open>auto simp: handler_marks_def handler_goes_back_def\<close>)
  then obtain s1 where s1: "path_exec c s = Inr s1" "path_inv room s1"
      "arrived s1 @ stream_of cs = arrived s @ stream_of (c # cs)" "well_ordered room (pending s1 \<noteq> None) cs"
    by blast
  then have "length (arrived s1) + length (stream_of cs) = length (arrived s) + length (stream_of (c # cs))"
    by (metis length_append)
  then obtain s' where "path_run cs s1 = Inr s'" "path_inv room s'" "arrived s' = arrived s1 @ stream_of cs"
    using Cons.IH [OF s1(4,2)] Cons.prems(3) by auto
  with s1 show ?case by auto
qed

section \<open>Property\<close>

text \<open>C21: Whatever sizes the reads of the socket have and wherever handlers read, mark and go back in between, the
  path does not fault, and what is unread is the stream of the peer from where the handlers are.\<close>

theorem handlers_see_the_stream:
  assumes "well_ordered (max base min_size) False cs" and "length (stream_of cs) + max base min_size < 2 ^ 31"
  shows "\<exists>s. path_run cs (read_path_new base) = Inr s \<and> cursor s \<le> length (stream_of cs) \<and>
    content (rbuf s) = drop (cursor s) (stream_of cs)"
proof -
  have "path_inv (max base min_size) (read_path_new base)"
    using assms(2) by (intro path_inv_new) simp
  then show ?thesis
    using path_run_ok [of "max base min_size" "read_path_new base" cs] assms
    by (fastforce simp: read_path_new_def path_inv_def)
qed

text \<open>A message split over two reads, with a handler that marks, reads, goes back and waits for the rest.\<close>

definition split_message :: "path_call list" where
  "split_message = [Read_some, Arrive [0, 0], Mark, Use 1, Go_back, Read_some, Arrive [0, 7, 9], Use 4]"

theorem handlers_see_the_stream_witness:
  "\<exists>s. path_run split_message (read_path_new 0) = Inr s \<and>
    content (rbuf s) = drop (cursor s) [0, 0, 0, 7, 9]"
  using handlers_see_the_stream [of 0 split_message] by (auto simp: split_message_def min_size_def)

end
