(* ===== verification/Context_Buffers.thy ===== *)
theory Context_Buffers
  imports Pool Read_Path Transitions
begin

text \<open>
  The read buffers of the channels of a program. A channel context takes its buffer from the static pool of buffers in
  its constructor and returns it in its destructor (\<open>channel_context.h\<close>, \<open>constants.h\<close> under \<open>src/include/shan/net/\<close>,
  \<open>util/pool.h\<close>), and in between reads into it and hands it to the handlers. Here the pool of \<open>Pool\<close> and the read path
  of \<open>Read_Path\<close> meet: any number of contexts, created, used and destroyed in any order. A context is kept alive by the
  read it waits for.

  A handler may keep the shared pointer to the buffer that \<open>channel_read\<close> gave it: \<open>kept\<close> are the addresses of those
  pointers, by a number for each of them.

  Shown: no context disturbs another, each sees the stream of its own peer. But the buffer is returned also when a
  handler still holds a pointer to it. The pool is first in, first out, so when the buffers that were returned before
  have been taken, it becomes the buffer of another channel; and a buffer keeps the base size it was made with, since
  \<open>reset\<close> does not look at its argument.
\<close>

section \<open>Model\<close>

text \<open>A context is the address of its buffer and its read path, whose own copy of the buffer is not used.\<close>

record channel_buffers =
  recycled :: "streambuf pool"
  readers :: "nat \<rightharpoonup> nat \<times> read_path"
  kept :: "nat \<rightharpoonup> nat"

definition buffers_new :: channel_buffers where
  "buffers_new = \<lparr>recycled = pool_new, readers = Map.empty, kept = Map.empty\<rparr>"

definition pool_limit :: nat where
  "pool_limit = 2 ^ 64 - 1"

definition context_born :: "nat \<Rightarrow> nat \<Rightarrow> channel_buffers \<Rightarrow> channel_buffers result" where
  "context_born ch buffer_base_size m =
     bind_result (get_object streambuf_new pool_reset buffer_base_size (recycled m)) (\<lambda>(a, p).
       Inr (m\<lparr>recycled := p, readers := (readers m)(ch \<mapsto> (a, read_path_new buffer_base_size))\<rparr>))"

definition context_dies :: "bool \<Rightarrow> nat \<Rightarrow> channel_buffers \<Rightarrow> channel_buffers" where
  "context_dies room ch m =
     (case readers m ch of
        None \<Rightarrow> m
      | Some (a, s) \<Rightarrow>
          m\<lparr>recycled := static_return pool_limit room (Some a) (recycled m), readers := (readers m)(ch := None)\<rparr>)"

text \<open>What happens on the read path of a context happens in its buffer.\<close>

definition context_reads :: "nat \<Rightarrow> path_call \<Rightarrow> channel_buffers \<Rightarrow> channel_buffers result" where
  "context_reads ch c m =
     (case readers m ch of
        None \<Rightarrow> Inr m
      | Some (a, s) \<Rightarrow>
          (case object_store (recycled m) a of
             None \<Rightarrow> Inl (Undefined Out_of_bounds)
           | Some sb \<Rightarrow>
               bind_result (path_exec c (s\<lparr>rbuf := sb\<rparr>)) (\<lambda>s'.
                 Inr (m\<lparr>recycled := (recycled m)\<lparr>object_store := (object_store (recycled m))(a \<mapsto> rbuf s')\<rparr>,
                        readers := (readers m)(ch \<mapsto> (a, s'))\<rparr>))))"

definition handler_keeps :: "nat \<Rightarrow> nat \<Rightarrow> channel_buffers \<Rightarrow> channel_buffers" where
  "handler_keeps h ch m = (case readers m ch of None \<Rightarrow> m | Some (a, s) \<Rightarrow> m\<lparr>kept := (kept m)(h \<mapsto> a)\<rparr>)"

datatype buffers_call = Born nat nat | Dies bool nat | Reads nat path_call | Keep nat nat

fun buffers_exec :: "buffers_call \<Rightarrow> channel_buffers \<Rightarrow> channel_buffers result" where
  "buffers_exec (Born ch base) m = context_born ch base m"
| "buffers_exec (Dies room ch) m = Inr (context_dies room ch m)"
| "buffers_exec (Reads ch c) m = context_reads ch c m"
| "buffers_exec (Keep h ch) m = Inr (handler_keeps h ch m)"

text \<open>One read of a channel is outstanding at a time, asio stays within the room it was given, and a stream is short of
  two gigabytes.\<close>

fun path_allowed :: "nat \<Rightarrow> path_call \<Rightarrow> read_path \<Rightarrow> bool" where
  "path_allowed room Read_some s \<longleftrightarrow> pending s = None \<and> length (arrived s) + room < 2 ^ 31"
| "path_allowed room (Arrive bs) s \<longleftrightarrow> pending s \<noteq> None \<and> length bs \<le> room \<and> room < 2 ^ 31"
| "path_allowed room c s \<longleftrightarrow> length (arrived s) < 2 ^ 31"

fun buffers_allowed :: "buffers_call \<Rightarrow> channel_buffers \<Rightarrow> bool" where
  "buffers_allowed (Born ch base) m \<longleftrightarrow> readers m ch = None \<and> base < 2 ^ 63"
| "buffers_allowed (Dies room ch) m \<longleftrightarrow> (case readers m ch of None \<Rightarrow> False | Some (a, s) \<Rightarrow> pending s = None)"
| "buffers_allowed (Reads ch c) m \<longleftrightarrow>
     (case readers m ch of
        None \<Rightarrow> False
      | Some (a, s) \<Rightarrow>
          (case object_store (recycled m) a of None \<Rightarrow> False | Some sb \<Rightarrow> path_allowed (base_size sb) c s))"
| "buffers_allowed (Keep h ch) m \<longleftrightarrow> readers m ch \<noteq> None"

definition buffers_step :: "channel_buffers \<Rightarrow> channel_buffers \<Rightarrow> bool" where
  "buffers_step m m' \<longleftrightarrow> (\<exists>c. buffers_allowed c m \<and> buffers_exec c m = Inr m')"

inductive buffers_reachable :: "channel_buffers \<Rightarrow> bool" where
  buffers_start: "buffers_reachable buffers_new"
| buffers_go: "buffers_reachable m \<Longrightarrow> buffers_step m m' \<Longrightarrow> buffers_reachable m'"

section \<open>The invariant\<close>

definition held :: "channel_buffers \<Rightarrow> nat set" where
  "held m = {a. \<exists>ch s. readers m ch = Some (a, s)}"

definition reader_ok :: "channel_buffers \<Rightarrow> nat \<Rightarrow> read_path \<Rightarrow> bool" where
  "reader_ok m a s \<longleftrightarrow>
     (case object_store (recycled m) a of None \<Rightarrow> False | Some sb \<Rightarrow> path_inv (base_size sb) (s\<lparr>rbuf := sb\<rparr>))"

definition buffers_inv :: "channel_buffers \<Rightarrow> bool" where
  "buffers_inv m \<longleftrightarrow>
     streambufs_reachable pool_limit (recycled m) (held m) \<and>
     (\<forall>ch a s. readers m ch = Some (a, s) \<longrightarrow> reader_ok m a s) \<and>
     (\<forall>ch ch' a s s'. readers m ch = Some (a, s) \<and> readers m ch' = Some (a, s') \<longrightarrow> ch = ch')"

lemma buffers_invD:
  assumes "buffers_inv m"
  shows "streambufs_reachable pool_limit (recycled m) (held m)" "readers m ch = Some (a, s) \<Longrightarrow> reader_ok m a s"
    "readers m ch = Some (a, s) \<Longrightarrow> readers m ch' = Some (a, s') \<Longrightarrow> ch = ch'"
  using assms by (simp_all add: buffers_inv_def)

lemma held_update:
  "readers m ch = None \<Longrightarrow> held (m\<lparr>recycled := p, readers := (readers m)(ch \<mapsto> (a, s))\<rparr>) = insert a (held m)"
  "readers m ch = Some (a, s) \<Longrightarrow> held (m\<lparr>recycled := p, readers := (readers m)(ch \<mapsto> (a, s'))\<rparr>) = held m"
proof -
  have "b \<in> held m' \<longleftrightarrow> (\<exists>ch s. readers m' ch = Some (b, s))" for b m' by (simp add: held_def)
  then show "readers m ch = None \<Longrightarrow> held (m\<lparr>recycled := p, readers := (readers m)(ch \<mapsto> (a, s))\<rparr>) = insert a (held m)"
    and "readers m ch = Some (a, s) \<Longrightarrow> held (m\<lparr>recycled := p, readers := (readers m)(ch \<mapsto> (a, s'))\<rparr>) = held m"
    by (intro set_eqI; simp; metis option.distinct(1) option.inject prod.inject)+
qed

lemma held_drop:
  assumes ch: "readers m ch = Some (a, s)" and only: "\<And>ch' t. readers m ch' = Some (a, t) \<Longrightarrow> ch' = ch"
  shows "held (m\<lparr>recycled := p, readers := (readers m)(ch := None)\<rparr>) = held m - {a}" (is "held ?m = _")
proof (intro set_eqI iffI)
  fix b
  assume "b \<in> held ?m"
  then obtain ch' t where b: "ch' \<noteq> ch" "readers m ch' = Some (b, t)" by (auto simp: held_def split: if_splits)
  then have "b \<noteq> a" using only by blast
  with b(2) show "b \<in> held m - {a}" by (auto simp: held_def)
next
  fix b
  assume "b \<in> held m - {a}"
  then obtain ch' t where b: "readers m ch' = Some (b, t)" "b \<noteq> a" by (auto simp: held_def)
  then have "ch' \<noteq> ch" using ch by auto
  with b(1) have "readers ?m ch' = Some (b, t)" by simp
  then show "b \<in> held ?m" unfolding held_def by blast
qed

text \<open>Taking a buffer from the pool.\<close>

lemma context_born_ok:
  assumes "buffers_inv m" and "readers m ch = None" and "base < 2 ^ 63"
  shows "\<exists>m'. context_born ch base m = Inr m' \<and> buffers_inv m'"
proof -
  let ?s = "read_path_new base"
  note inv = buffers_invD [OF assms(1)]
  obtain a p sb where get: "get_object streambuf_new pool_reset base (recycled m) = Inr (a, p)" and new: "a \<notin> held m"
    and sb: "object_store p a = Some sb" "sb_inv sb" "content sb = []" "mark sb = None"
    and others: "\<And>b. b \<noteq> a \<Longrightarrow> object_store p b = object_store (recycled m) b"
    using streambuf_pool.get_object_clean [OF streambuf_pool.reachable_inv [OF inv(1)] assms(3)] by auto
  let ?m = "m\<lparr>recycled := p, readers := (readers m)(ch \<mapsto> (a, ?s))\<rparr>"
  have "streambufs_reachable pool_limit p (held ?m)"
    unfolding held_update(1) [OF assms(2)] using inv(1) assms(3) get by (rule pool_reachable.take_out)
  moreover have "reader_ok ?m a ?s"
    using sb by (simp add: reader_ok_def path_inv_def read_path_new_def)
  moreover have "reader_ok ?m b s \<and> b \<noteq> a" if "readers m ch' = Some (b, s)" for ch' b s
  proof -
    have "b \<noteq> a" using that new by (auto simp: held_def)
    with inv(2) [OF that] show ?thesis by (simp add: reader_ok_def others)
  qed
  ultimately have "buffers_inv ?m"
    using inv(3) by (auto simp: buffers_inv_def split: if_splits)
  then show ?thesis by (simp add: context_born_def get)
qed

lemma context_dies_ok:
  assumes "buffers_inv m"
  shows "buffers_inv (context_dies room ch m)"
proof (cases "readers m ch")
  case (Some reader)
  then obtain a s where ch: "readers m ch = Some (a, s)" by (cases reader) simp
  let ?m = "context_dies room ch m"
  note inv = buffers_invD [OF assms]
  have m': "?m = m\<lparr>recycled := static_return pool_limit room (Some a) (recycled m), readers := (readers m)(ch := None)\<rparr>"
    by (simp add: context_dies_def ch)
  have "held ?m = held m - {a}"
    unfolding m' using ch inv(3) [OF _ ch] by (rule held_drop)
  moreover have "streambufs_reachable pool_limit (recycled ?m) (held m - {a})"
    unfolding m' using pool_reachable.give_back [OF inv(1)] ch by (auto simp: held_def)
  moreover have "reader_ok ?m b t" if "readers m ch' = Some (b, t)" for ch' b t
    using inv(2) [OF that] by (simp add: m' reader_ok_def static_return_def)
  ultimately show ?thesis using inv(3) by (auto simp: buffers_inv_def m' split: if_splits)
qed (use assms in \<open>simp add: context_dies_def\<close>)

lemma path_exec_ok:
  assumes "path_inv room s" and "path_allowed room c s"
  shows "\<exists>s'. path_exec c s = Inr s' \<and> path_inv room s'"
  using assms read_some_ok [of room s] bytes_arrive_ok [of room s] handler_reads_ok [of room s]
    handler_marks_ok [of room s] handler_goes_back_ok [of room s]
  by (cases c) fastforce+

lemma context_reads_ok:
  assumes "buffers_inv m" and "readers m ch = Some (a, s)" and "object_store (recycled m) a = Some sb"
    and "path_allowed (base_size sb) c s"
  shows "\<exists>m'. context_reads ch c m = Inr m' \<and> buffers_inv m'"
proof -
  note inv = buffers_invD [OF assms(1)]
  have "path_inv (base_size sb) (s\<lparr>rbuf := sb\<rparr>)" using inv(2) [OF assms(2)] assms(3) by (simp add: reader_ok_def)
  moreover have "path_allowed (base_size sb) c (s\<lparr>rbuf := sb\<rparr>)" using assms(4) by (cases c) simp_all
  ultimately obtain s' where s': "path_exec c (s\<lparr>rbuf := sb\<rparr>) = Inr s'" "path_inv (base_size sb) s'"
    using path_exec_ok by blast
  let ?p = "(recycled m)\<lparr>object_store := (object_store (recycled m))(a \<mapsto> rbuf s')\<rparr>"
  let ?m = "m\<lparr>recycled := ?p, readers := (readers m)(ch \<mapsto> (a, s'))\<rparr>"
  have rb: "sb_inv (rbuf s')" "base_size (rbuf s') = base_size sb" using s'(2) by (simp_all add: path_inv_def)
  have "a \<in> held m" using assms(2) by (auto simp: held_def)
  then have "streambufs_reachable pool_limit ?p (held ?m)"
    unfolding held_update(2) [OF assms(2)] using inv(1) rb(1) by (intro pool_reachable.mutate)
  moreover have "reader_ok ?m a s'" using s'(2) rb(2) by (simp add: reader_ok_def)
  moreover have "reader_ok ?m b t" if "readers m ch' = Some (b, t)" "ch' \<noteq> ch" for ch' b t
    using inv(2) [OF that(1)] inv(3) [OF that(1), of ch] that(2) assms(2) by (auto simp: reader_ok_def)
  ultimately have "buffers_inv ?m"
    using inv(3) assms(2) by (auto simp: buffers_inv_def split: if_splits)
  then show ?thesis by (simp add: context_reads_def assms(2,3) s'(1))
qed

lemma handler_keeps_ok: "buffers_inv m \<Longrightarrow> buffers_inv (handler_keeps h ch m)"
  by (auto simp: handler_keeps_def buffers_inv_def reader_ok_def held_def split: option.splits)

lemma buffers_exec_ok:
  assumes "buffers_inv m" and "buffers_allowed c m"
  shows "\<exists>m'. buffers_exec c m = Inr m' \<and> buffers_inv m'"
  using assms context_born_ok [OF assms(1)] context_dies_ok [OF assms(1)] context_reads_ok [OF assms(1)]
    handler_keeps_ok [OF assms(1)]
  by (cases c) (auto split: option.splits)

interpretation buffers_machine: invariant_machine buffers_step buffers_inv "\<lambda>m. m = buffers_new" buffers_reachable
proof
  show "Q m" if "buffers_reachable m" "\<And>r. r = buffers_new \<Longrightarrow> Q r" "\<And>r t. Q r \<Longrightarrow> buffers_step r t \<Longrightarrow> Q t" for Q m
    using that by (induction rule: buffers_reachable.induct) blast+
  show "buffers_inv m" if "m = buffers_new" for m
  proof -
    have "held m = {}" using that by (simp add: held_def buffers_new_def)
    then show ?thesis using that pool_reachable.start by (simp add: buffers_inv_def buffers_new_def)
  qed
  show "buffers_inv m'" if "buffers_step m m'" "buffers_inv m" for m m'
    using that buffers_exec_ok by (fastforce simp: buffers_step_def)
qed auto

section \<open>Properties\<close>

text \<open>C19: Any number of channels come, read and go over the same pool. Nothing they do faults, and every channel has a
  buffer that no other channel has, in which the unread bytes are the stream of its own peer from where its handlers
  are.\<close>

theorem channels_share_the_pool:
  assumes "buffers_reachable m" and "buffers_allowed c m"
  shows "\<exists>m'. buffers_exec c m = Inr m' \<and>
    (\<forall>ch a s. readers m' ch = Some (a, s) \<longrightarrow>
      (\<exists>sb. object_store (recycled m') a = Some sb \<and> content sb = drop (cursor s) (arrived s)) \<and>
      (\<forall>ch' s'. readers m' ch' = Some (a, s') \<longrightarrow> ch' = ch))"
proof -
  obtain m' where m': "buffers_exec c m = Inr m'" and inv: "buffers_inv m'"
    using buffers_exec_ok [OF buffers_machine.always [OF assms(1)] assms(2)] by blast
  have "\<exists>sb. object_store (recycled m') a = Some sb \<and> content sb = drop (cursor s) (arrived s)"
    if "readers m' ch = Some (a, s)" for ch a s
    using buffers_invD(2) [OF inv that] by (auto simp: reader_ok_def path_inv_def split: option.splits)
  with m' buffers_invD(3) [OF inv] show ?thesis by blast
qed

text \<open>One channel, and two, before any bytes have come.\<close>

definition one_channel :: channel_buffers where
  "one_channel =
     \<lparr>recycled = \<lparr>object_store = [0 \<mapsto> streambuf_new 0], fresh_addr = 1, free_list = []\<rparr>,
      readers = [0 \<mapsto> (0, read_path_new 0)], kept = Map.empty\<rparr>"

definition two_channels :: channel_buffers where
  "two_channels =
     \<lparr>recycled = \<lparr>object_store = [0 \<mapsto> streambuf_new 0, 1 \<mapsto> streambuf_new 0], fresh_addr = 2, free_list = []\<rparr>,
      readers = [0 \<mapsto> (0, read_path_new 0), 1 \<mapsto> (1, read_path_new 0)], kept = Map.empty\<rparr>"

lemma channels_reachable: "buffers_reachable one_channel" "buffers_reachable two_channels"
proof -
  have "buffers_exec (Born 0 0) buffers_new = Inr one_channel" "buffers_allowed (Born 0 0) buffers_new"
    by (simp_all add: buffers_new_def context_born_def get_object_def pool_new_def one_channel_def Let_def)
  then show one: "buffers_reachable one_channel"
    using buffers_go [OF buffers_start] unfolding buffers_step_def by blast
  have "buffers_exec (Born 1 0) one_channel = Inr two_channels" "buffers_allowed (Born 1 0) one_channel"
    by (simp_all add: context_born_def get_object_def one_channel_def two_channels_def Let_def)
  then show "buffers_reachable two_channels"
    using buffers_go [OF one] unfolding buffers_step_def by blast
qed

theorem channels_share_the_pool_witness:
  "\<exists>m'. buffers_exec (Reads 1 Read_some) two_channels = Inr m'"
proof -
  have "buffers_allowed (Reads 1 Read_some) two_channels"
    by (simp add: two_channels_def read_path_new_def streambuf_new_def Let_def min_size_def)
  from channels_share_the_pool [OF channels_reachable(2) this] show ?thesis by blast
qed

text \<open>After a channel has gone, other channels come, and then one that reads.\<close>

fun contexts_born :: "(nat \<times> nat) list \<Rightarrow> channel_buffers \<Rightarrow> channel_buffers result" where
  "contexts_born [] m = Inr m"
| "contexts_born ((ch, base) # chs) m = bind_result (context_born ch base m) (contexts_born chs)"

definition later_channel_reads ::
    "nat \<Rightarrow> (nat \<times> nat) list \<Rightarrow> nat \<times> nat \<Rightarrow> u8 list \<Rightarrow> channel_buffers \<Rightarrow> channel_buffers result" where
  "later_channel_reads ch others new bs m =
     bind_result (contexts_born (others @ [new]) (context_dies True ch m)) (\<lambda>m.
     bind_result (context_reads (fst new) Read_some m) (context_reads (fst new) (Arrive bs)))"

lemma contexts_born_append:
  "contexts_born (xs @ ys) m = bind_result (contexts_born xs m) (contexts_born ys)"
  by (induction xs m rule: contexts_born.induct) (auto simp: bind_result_def split: sum.splits)

text \<open>A channel takes the buffer at the front of the pool.\<close>

lemma context_born_front:
  assumes "buffers_inv m" and "readers m ch = None" and "base < 2 ^ 63" and "free_list (recycled m) = Some b # ptrs"
  shows "\<exists>m' sb. context_born ch base m = Inr m' \<and> buffers_inv m' \<and> free_list (recycled m') = ptrs \<and>
    readers m' = (readers m)(ch \<mapsto> (b, read_path_new base)) \<and> kept m' = kept m \<and> object_store (recycled m) b = Some sb \<and>
    object_store (recycled m') = (object_store (recycled m))(b \<mapsto> pool_reset base sb)"
proof -
  obtain m' where m': "context_born ch base m = Inr m'" "buffers_inv m'"
    using context_born_ok [OF assms(1-3)] by blast
  then show ?thesis
    using assms(4) by (auto simp: context_born_def get_object_def bind_result_eq_Inr split: option.splits)
qed

lemma contexts_born_queue:
  assumes "buffers_inv m" and "length others = length qs" and "free_list (recycled m) = qs @ [Some a]"
    and "distinct (map fst others)" and "\<And>ch base. (ch, base) \<in> set others \<Longrightarrow> readers m ch = None \<and> base < 2 ^ 63"
  shows "\<exists>m'. contexts_born others m = Inr m' \<and> buffers_inv m' \<and> free_list (recycled m') = [Some a] \<and>
    kept m' = kept m \<and> object_store (recycled m') a = object_store (recycled m) a \<and>
    (\<forall>ch. ch \<notin> fst ` set others \<longrightarrow> readers m' ch = readers m ch)"
  using assms
proof (induction others arbitrary: m qs)
  case Nil
  then show ?case by simp
next
  case (Cons new others)
  obtain ch base where new: "new = (ch, base)" by (cases new)
  obtain ptr ptrs where qs: "qs = ptr # ptrs" using Cons.prems(2) by (cases qs) auto
  have pool: "pool_inv sb_inv pool_limit (recycled m) (held m)"
    using streambuf_pool.reachable_inv buffers_invD(1) [OF Cons.prems(1)] .
  then obtain b where b: "ptr = Some b" "b \<noteq> a"
    using Cons.prems(3) by (cases ptr) (auto simp: pool_inv_def qs)
  have free: "free_list (recycled m) = Some b # ptrs @ [Some a]" using Cons.prems(3) by (simp add: qs b)
  obtain m1 where m1: "context_born ch base m = Inr m1" "buffers_inv m1" "free_list (recycled m1) = ptrs @ [Some a]"
      "readers m1 = (readers m)(ch \<mapsto> (b, read_path_new base))" "kept m1 = kept m"
      "object_store (recycled m1) a = object_store (recycled m) a"
    using context_born_front [OF Cons.prems(1) _ _ free, of ch base] Cons.prems(5) [of ch base] b(2) by (auto simp: new)
  have "readers m1 ch' = None \<and> base' < 2 ^ 63" if "(ch', base') \<in> set others" for ch' base'
    using that Cons.prems(4) Cons.prems(5) [of ch' base'] m1(4) by (force simp: new)
  moreover have "length others = length ptrs" "distinct (map fst others)"
    using Cons.prems(2,4) by (simp_all add: qs)
  ultimately obtain m' where m': "contexts_born others m1 = Inr m'" "buffers_inv m'" "free_list (recycled m') = [Some a]"
      "kept m' = kept m1" "object_store (recycled m') a = object_store (recycled m1) a"
      "\<forall>ch. ch \<notin> fst ` set others \<longrightarrow> readers m' ch = readers m1 ch"
    using Cons.IH [OF m1(2) _ m1(3)] by auto
  then show ?case using m1 by (auto simp: new)
qed

lemma read_arrive:
  assumes "path_inv room s" and "pending s = None" and "arrived s = []" and "cursor s = 0"
    and "length bs \<le> room" and "room < 2 ^ 31"
  shows "\<exists>s1 s2. read_some s = Inr s1 \<and> bytes_arrive bs s1 = Inr s2 \<and> path_inv room s2 \<and> content (rbuf s2) = bs"
proof -
  obtain s1 where s1: "read_some s = Inr s1" "path_inv room s1" "arrived s1 = []" "pending s1 \<noteq> None"
    using read_some_ok [OF assms(1)] assms(3,6) by auto
  obtain s2 where s2: "bytes_arrive bs s1 = Inr s2" "path_inv room s2" "arrived s2 = bs"
    using bytes_arrive_ok [OF s1(2,4) assms(5,6)] s1(3) by auto
  have "cursor s1 = 0" using s1(1) assms(4) by (auto simp: read_some_def bind_result_eq_Inr)
  then have "cursor s2 = 0" using s2(1) by (auto simp: bytes_arrive_def bind_result_eq_Inr split: option.splits)
  then show ?thesis using s1(1) s2 by (auto simp: path_inv_def)
qed

text \<open>C20: The destructor of a context returns its buffer to the pool also when a handler has kept the pointer that
  \<open>channel_read\<close> gave it. The pool hands out the buffers that are in it already first; the channel after those gets
  the kept buffer, whatever base size its service asks for it reads with the base size the buffer was made with, and
  what a handler sees through the kept pointer is what the peer of that other channel sends.\<close>

theorem kept_buffer_reused:
  assumes "buffers_reachable m" and "readers m ch = Some (a, s)" and "object_store (recycled m) a = Some sb"
    and "kept m h = Some a" and "length (free_list (recycled m)) < pool_limit"
    and "length others = length (free_list (recycled m))" and "distinct (map fst (others @ [new]))"
    and "\<And>ch' base. (ch', base) \<in> set (others @ [new]) \<Longrightarrow> readers m ch' = None \<and> base < 2 ^ 63"
    and "length bs \<le> base_size sb" and "base_size sb < 2 ^ 31"
  shows "\<exists>m' s' sb'. later_channel_reads ch others new bs m = Inr m' \<and> readers m' (fst new) = Some (a, s') \<and>
    kept m' h = Some a \<and> object_store (recycled m') a = Some sb' \<and> content sb' = bs \<and> base_size sb' = base_size sb"
proof -
  obtain ch' base where new: "new = (ch', base)" by (cases new)
  let ?s = "(read_path_new base)\<lparr>rbuf := pool_reset base sb\<rparr>"
  let ?m1 = "context_dies True ch m"
  have m1: "?m1 = m\<lparr>recycled := (recycled m)\<lparr>free_list := free_list (recycled m) @ [Some a]\<rparr>, readers := (readers m)(ch := None)\<rparr>"
    using assms(2,5) by (simp add: context_dies_def static_return_def)
  have "buffers_inv ?m1" using buffers_machine.always [OF assms(1)] by (rule context_dies_ok)
  moreover have fresh: "readers ?m1 x = None \<and> b < 2 ^ 63" if "(x, b) \<in> set (others @ [new])" for x b
    using assms(8) [OF that] by (simp add: m1)
  have "\<exists>m'. contexts_born others ?m1 = Inr m' \<and> buffers_inv m' \<and> free_list (recycled m') = [Some a] \<and>
      kept m' = kept ?m1 \<and> object_store (recycled m') a = object_store (recycled ?m1) a \<and>
      (\<forall>x. x \<notin> fst ` set others \<longrightarrow> readers m' x = readers ?m1 x)"
    using calculation assms(6) by (rule contexts_born_queue) (simp add: m1, use assms(7) in simp, rule fresh, simp)
  moreover have "ch' \<notin> fst ` set others" "readers ?m1 ch' = None"
    using assms(7) fresh [of ch' base] by (auto simp: new)
  ultimately obtain m2 where m2: "contexts_born others ?m1 = Inr m2" "buffers_inv m2" "free_list (recycled m2) = [Some a]"
      "kept m2 = kept m" "object_store (recycled m2) a = Some sb" "readers m2 ch' = None"
    using assms(3) by (auto simp: m1)
  obtain m3 where m3: "context_born ch' base m2 = Inr m3" "buffers_inv m3"
      "readers m3 ch' = Some (a, read_path_new base)" "kept m3 = kept m"
      "object_store (recycled m3) a = Some (pool_reset base sb)"
    using context_born_front [OF m2(2,6) _ m2(3), of base] assms(8) [of ch' base] m2(4,5) by (auto simp: new)
  have born: "contexts_born (others @ [new]) ?m1 = Inr m3"
    using m2(1) m3(1) by (simp add: contexts_born_append new)
  have "reader_ok m3 a (read_path_new base)" by (rule buffers_invD(2) [OF m3(2,3)])
  then have "path_inv (base_size sb) ?s" by (simp add: reader_ok_def m3(5) pool_reset_def)
  then obtain s1 s2 where s: "read_some ?s = Inr s1" "bytes_arrive bs s1 = Inr s2"
      "path_inv (base_size sb) s2" "content (rbuf s2) = bs"
    using read_arrive [of "base_size sb" ?s bs] assms(9,10) by (auto simp: read_path_new_def)
  obtain m4 where m4: "context_reads ch' Read_some m3 = Inr m4" "readers m4 ch' = Some (a, s1)" "kept m4 = kept m"
      "object_store (recycled m4) a = Some (rbuf s1)"
    using s(1) m3(3-5) by (auto simp: context_reads_def)
  obtain m' where m': "context_reads ch' (Arrive bs) m4 = Inr m'" "readers m' ch' = Some (a, s2)" "kept m' = kept m"
      "object_store (recycled m') a = Some (rbuf s2)"
    using s(2) m4(2-4) by (auto simp: context_reads_def)
  have "later_channel_reads ch others new bs m = Inr m'"
    using born m4(1) m'(1) by (simp add: later_channel_reads_def new)
  then show ?thesis using m' assms(4) s(3,4) by (auto simp: new path_inv_def)
qed

text \<open>A handler of channel 0 keeps its buffer; channel 1, whose buffer is returned first, has gone before.\<close>

definition keeping :: channel_buffers where
  "keeping = context_dies True 1 (handler_keeps 5 0 two_channels)"

lemma keeping_state:
  "readers keeping = [0 \<mapsto> (0, read_path_new 0)]" "kept keeping = [5 \<mapsto> 0]" "free_list (recycled keeping) = [Some 1]"
  "object_store (recycled keeping) 0 = Some (streambuf_new 0)"
  by (auto simp: keeping_def handler_keeps_def two_channels_def context_dies_def static_return_def pool_limit_def)

lemma keeping_reachable: "buffers_reachable keeping"
proof -
  have "buffers_step two_channels (handler_keeps 5 0 two_channels)"
    unfolding buffers_step_def by (rule exI [of _ "Keep 5 0"]) (simp add: two_channels_def)
  moreover have "buffers_step (handler_keeps 5 0 two_channels) keeping"
    unfolding buffers_step_def
    by (rule exI [of _ "Dies True 1"]) (simp add: keeping_def handler_keeps_def two_channels_def read_path_new_def)
  ultimately show ?thesis using buffers_go channels_reachable(2) by blast
qed

theorem kept_buffer_reused_witness:
  "\<exists>m' s' sb'. later_channel_reads 0 [(2, 0)] (3, 4096) [7] keeping = Inr m' \<and> readers m' 3 = Some (0, s') \<and>
    kept m' 5 = Some 0 \<and> object_store (recycled m') 0 = Some sb' \<and> content sb' = [7] \<and> base_size sb' = min_size"
proof -
  have base: "base_size (streambuf_new 0) = min_size" by (simp add: streambuf_new_def Let_def)
  have "readers keeping x = None \<and> b < 2 ^ 63" if "(x, b) \<in> set ([(2, 0)] @ [(3, 4096)])" for x b :: nat
    using that by (auto simp: keeping_state)
  from kept_buffer_reused [OF keeping_reachable _ keeping_state(4) _ _ _ _ this,
      where ch = 0 and s = "read_path_new 0" and h = 5 and bs = "[7]" and others = "[(2, 0)]" and new = "(3, 4096)"]
  show ?thesis by (simp add: keeping_state pool_limit_def base min_size_def)
qed

end
