(* ===== verification/Json_Portable.thy ===== *)
theory Json_Portable
  imports Json_Unpack
begin

text \<open>
  Packed data between hosts of different byte order. Integers, strings and lengths are written byte by byte, from the
  most significant; but \<open>number::pack\<close> (\<open>src/include/shan/json/number.h\<close>) turns a double into network order first and
  then writes the bytes of the result from the most significant, so that they come in the order of the host. Packed
  data is the same on all hosts exactly when its doubles read the same in both directions.
\<close>

definition host_free :: "number \<Rightarrow> bool" where
  "host_free num \<longleftrightarrow> integral num \<or> swap_bo64 (val num) = val num"

lemma number_bytes_length_host: "length (number_bytes le num) = length (number_bytes le' num)"
  by (simp add: number_bytes_def Let_def)

lemma be_bytes64_inj: "be_bytes64 x = be_bytes64 y \<longleftrightarrow> x = y"
  by (metis be_value_be_bytes(3))

lemma number_bytes_host: "number_bytes True num = number_bytes False num \<longleftrightarrow> host_free num"
  by (simp add: number_bytes_def Let_def host_free_def hton64_def be_bytes64_inj)

lemma concat_map_eq:
  "(\<And>x. x \<in> set xs \<Longrightarrow> length (f x) = length (g x)) \<Longrightarrow>
   concat (map f xs) = concat (map g xs) \<longleftrightarrow> (\<forall>x \<in> set xs. f x = g x)"
  by (induction xs) simp_all

lemma length_concat_map:
  "(\<And>x. x \<in> set xs \<Longrightarrow> length (f x) = length (g x)) \<Longrightarrow> length (concat (map f xs)) = length (concat (map g xs))"
  by (induction xs) simp_all

lemma json_bytes_length_host: "length (json_bytes le v) = length (json_bytes le' v)"
proof (induction v rule: json_induct)
  case (Number num)
  then show ?case by (simp add: number_bytes_length_host [of le num le'])
next
  case (Array arr)
  then show ?case
    using length_concat_map [of arr "json_bytes le" "json_bytes le'"] by simp
next
  case (Object obj)
  then show ?case
    using length_concat_map [of obj "\<lambda>m. string_pack (fst m) [] @ json_bytes le (snd m)"
        "\<lambda>m. string_pack (fst m) [] @ json_bytes le' (snd m)"] by simp
qed simp_all

lemma json_bytes_host: "json_bytes True v = json_bytes False v \<longleftrightarrow> json_numbers host_free v"
proof (induction v rule: json_induct)
  case (Array arr)
  then show ?case
    using concat_map_eq [of arr "json_bytes True" "json_bytes False"] json_bytes_length_host by simp
next
  case (Object obj)
  have "concat (map (\<lambda>m. string_pack (fst m) [] @ json_bytes True (snd m)) obj) =
      concat (map (\<lambda>m. string_pack (fst m) [] @ json_bytes False (snd m)) obj) \<longleftrightarrow>
      (\<forall>m \<in> set obj. json_bytes True (snd m) = json_bytes False (snd m))"
    using json_bytes_length_host by (subst concat_map_eq) auto
  with Object show ?case by simp
qed (simp_all add: number_bytes_host)

lemma json_bytes_host_free:
  assumes "le = le' \<or> json_numbers host_free v"
  shows "json_bytes le v = json_bytes le' v"
  using assms json_bytes_host [of v] by (cases le; cases le') auto

text \<open>C3: A little-endian and a big-endian host pack a value into the same bytes exactly when every number of it is an
  integer or a double whose eight bytes are the same in both orders; every other double is packed in the order of the
  host.\<close>

theorem pack_portable_iff:
  assumes "no_nullptr v"
  shows "value_pack True v packed = value_pack False v packed \<longleftrightarrow> json_numbers host_free v"
  using value_pack_bytes [OF assms, of True packed] value_pack_bytes [OF assms, of False packed] json_bytes_host [of v]
  by simp

text \<open>Half (\<open>0x3fe0000000000000\<close>) next to an integer.\<close>

theorem pack_portable_iff_witness:
  "value_pack True (Array [Number (number_of_int 7)]) [] = value_pack False (Array [Number (number_of_int 7)]) [] \<and>
   value_pack True (Number \<lparr>integral = False, val = 0x3fe0000000000000, str_rep = []\<rparr>) [] \<noteq>
   value_pack False (Number \<lparr>integral = False, val = 0x3fe0000000000000, str_rep = []\<rparr>) []"
  using pack_portable_iff [of "Array [Number (number_of_int 7)]" "[]"]
    pack_portable_iff [of "Number \<lparr>integral = False, val = 0x3fe0000000000000, str_rep = []\<rparr>" "[]"]
  by (simp add: host_free_def number_of_int_def swap_bo64_def)

end
